(* ===== verification/UBoot_Prelude.thy ===== *)
theory UBoot_Prelude
  imports Main "HOL-Library.Word" "HOL-Library.Monad_Syntax"
begin

text \<open>
  The vocabulary the component theories share: the machine integers of the AArch64 build
  (\<open>char\<close> is unsigned there), byte-addressed memory with explicit faults, slices of lists and
  the facts about list updates that every buffer proof needs.

  A region of memory is a list of bytes and a pointer is an index into it.  Reading or writing
  outside the list is undefined behaviour in C; here it is the value \<^const>\<open>None\<close>, so an
  operation that returns \<open>Some\<close> has touched nothing outside the region.
\<close>

unbundle bit_operations_syntax

type_synonym u8 = "8 word"
type_synonym u16 = "16 word"
type_synonym u32 = "32 word"
type_synonym u64 = "64 word"
type_synonym mem = "u8 list"
type_synonym ptr = nat

named_theorems c_mem "facts about reads and writes of memory"

section \<open>Memory\<close>

definition rd :: "mem \<Rightarrow> ptr \<Rightarrow> u8 option" where
  "rd m p = (if p < length m then Some (m ! p) else None)"

definition wr :: "mem \<Rightarrow> ptr \<Rightarrow> u8 \<Rightarrow> mem option" where
  "wr m p c = (if p < length m then Some (m[p := c]) else None)"

text \<open>The \<open>n\<close> bytes from \<open>p\<close> on.\<close>

definition seg :: "'a list \<Rightarrow> nat \<Rightarrow> nat \<Rightarrow> 'a list" where
  "seg xs p n = take n (drop p xs)"

text \<open>The memory after the bytes \<open>bs\<close> have been stored from \<open>p\<close> on.\<close>

definition put_seg :: "'a list \<Rightarrow> nat \<Rightarrow> 'a list \<Rightarrow> 'a list" where
  "put_seg xs p bs = take p xs @ bs @ drop (p + length bs) xs"

text \<open>\<open>cstring m p s\<close>: the bytes \<open>s\<close> followed by a NUL stand at \<open>p\<close>, and \<open>s\<close> has no NUL.\<close>

definition cstring :: "mem \<Rightarrow> ptr \<Rightarrow> u8 list \<Rightarrow> bool" where
  "cstring m p s \<longleftrightarrow> p + length s < length m \<and> seg m p (length s) = s
     \<and> m ! (p + length s) = 0 \<and> 0 \<notin> set s"

lemma rd_Some [simp]: "p < length m \<Longrightarrow> rd m p = Some (m ! p)"
  by (simp add: rd_def)

lemma rd_None [simp]: "length m \<le> p \<Longrightarrow> rd m p = None"
  by (simp add: rd_def)

lemma rd_eq_Some: "rd m p = Some c \<longleftrightarrow> p < length m \<and> m ! p = c"
  by (auto simp: rd_def)

lemma wr_Some [simp]: "p < length m \<Longrightarrow> wr m p c = Some (m[p := c])"
  by (simp add: wr_def)

lemma wr_None [simp]: "length m \<le> p \<Longrightarrow> wr m p c = None"
  by (simp add: wr_def)

lemma wr_eq_Some: "wr m p c = Some m' \<longleftrightarrow> p < length m \<and> m' = m[p := c]"
  by (auto simp: wr_def)

lemma wr_length [c_mem]: "wr m p c = Some m' \<Longrightarrow> length m' = length m"
  by (auto simp: wr_eq_Some)

section \<open>Slices\<close>

lemma length_seg [simp]: "length (seg xs p n) = min n (length xs - p)"
  by (simp add: seg_def)

lemma seg_0 [simp]: "seg xs p 0 = []"
  by (simp add: seg_def)

lemma nth_seg [simp]: "i < n \<Longrightarrow> p + i < length xs \<Longrightarrow> seg xs p n ! i = xs ! (p + i)"
  by (simp add: seg_def)

lemma seg_Suc: "p < length xs \<Longrightarrow> seg xs p (Suc n) = xs ! p # seg xs (Suc p) n"
  by (simp add: seg_def Cons_nth_drop_Suc [symmetric])

lemma seg_Suc_right: "p + n < length xs \<Longrightarrow> seg xs p (Suc n) = seg xs p n @ [xs ! (p + n)]"
  by (simp add: seg_def take_Suc_conv_app_nth)

lemma seg_add: "seg xs p (m + n) = seg xs p m @ seg xs (p + m) n"
  by (simp add: seg_def take_add add.commute)

lemma seg_eqI:
  assumes "p + n \<le> length xs" "length ys = n" "\<And>i. i < n \<Longrightarrow> xs ! (p + i) = ys ! i"
  shows "seg xs p n = ys"
  by (rule nth_equalityI) (use assms in auto)

lemma length_put_seg [simp]:
  "p + length bs \<le> length xs \<Longrightarrow> length (put_seg xs p bs) = length xs"
  by (simp add: put_seg_def)

lemma put_seg_Nil [simp]: "put_seg xs p [] = xs"
  by (simp add: put_seg_def)

lemma nth_put_seg:
  "p + length bs \<le> length xs \<Longrightarrow> i < length xs \<Longrightarrow>
   put_seg xs p bs ! i = (if p \<le> i \<and> i < p + length bs then bs ! (i - p) else xs ! i)"
  by (auto simp: put_seg_def nth_append min_def)

lemma put_seg_eqI:
  assumes "p + length bs \<le> length xs" "length ys = length xs"
    and "\<And>i. i < length xs \<Longrightarrow>
      ys ! i = (if p \<le> i \<and> i < p + length bs then bs ! (i - p) else xs ! i)"
  shows "ys = put_seg xs p bs"
  by (rule nth_equalityI) (use assms in \<open>auto simp: nth_put_seg\<close>)

lemma put_seg_Cons:
  "p < length xs \<Longrightarrow> put_seg xs p (b # bs) = put_seg (xs[p := b]) (Suc p) bs"
  by (simp add: put_seg_def upd_conv_take_nth_drop add.commute)

lemma seg_put_seg [simp]:
  "p + length bs \<le> length xs \<Longrightarrow> seg (put_seg xs p bs) p (length bs) = bs"
  by (simp add: put_seg_def seg_def)

lemma seg_put_seg_disjoint:
  assumes "p + length bs \<le> length xs" "q + n \<le> p \<or> p + length bs \<le> q" "q + n \<le> length xs"
  shows "seg (put_seg xs p bs) q n = seg xs q n"
  by (rule nth_equalityI) (use assms in \<open>auto simp: nth_put_seg\<close>)

lemma seg_update_outside [simp]:
  "i < p \<or> p + n \<le> i \<Longrightarrow> seg (xs[i := v]) p n = seg xs p n"
  by (auto simp: seg_def drop_update_swap)

lemma put_seg_append:
  assumes "p + length as + length bs \<le> length xs"
  shows "put_seg (put_seg xs p as) (p + length as) bs = put_seg xs p (as @ bs)"
  by (rule put_seg_eqI) (use assms in \<open>auto simp: nth_put_seg nth_append\<close>)

lemma put_seg_seg [simp]: "p + n \<le> length xs \<Longrightarrow> put_seg xs p (seg xs p n) = xs"
  by (rule put_seg_eqI [symmetric]) auto

lemma put_seg_snoc:
  assumes "p + length bs < length xs"
  shows "put_seg (xs[p + length bs := b]) p bs = put_seg xs p (bs @ [b])"
  by (rule put_seg_eqI) (use assms in \<open>auto simp: nth_put_seg nth_append nth_list_update\<close>)

section \<open>C strings in memory\<close>

lemma cstring_bound: "cstring m p s \<Longrightarrow> p + length s < length m"
  by (simp add: cstring_def)

lemma cstring_seg: "cstring m p s \<Longrightarrow> seg m p (length s) = s"
  by (simp add: cstring_def)

lemma cstring_nth: "cstring m p s \<Longrightarrow> i < length s \<Longrightarrow> m ! (p + i) = s ! i"
  by (metis (no_types, lifting) cstring_bound cstring_seg add_strict_left_mono less_trans nth_seg)

lemma cstring_nul: "cstring m p s \<Longrightarrow> m ! (p + length s) = 0"
  by (simp add: cstring_def)

lemma cstring_nonzero: "cstring m p s \<Longrightarrow> i < length s \<Longrightarrow> s ! i \<noteq> 0"
  by (auto simp: cstring_def in_set_conv_nth)

lemma cstring_Nil: "cstring m p [] \<longleftrightarrow> p < length m \<and> m ! p = 0"
  by (simp add: cstring_def)

lemma cstring_Cons:
  "cstring m p (c # s) \<longleftrightarrow> p < length m \<and> m ! p = c \<and> c \<noteq> 0 \<and> cstring m (Suc p) s"
  by (auto simp: cstring_def seg_Suc)

lemma cstringI:
  assumes "p + length s < length m" "\<And>i. i < length s \<Longrightarrow> m ! (p + i) = s ! i"
    "m ! (p + length s) = 0" "0 \<notin> set s"
  shows "cstring m p s"
  using assms by (auto simp: cstring_def intro!: seg_eqI)

lemma cstring_unique: "cstring m p s \<Longrightarrow> cstring m p t \<Longrightarrow> s = t"
proof (induction s arbitrary: p t)
  case Nil
  then show ?case by (cases t) (auto simp: cstring_Nil cstring_Cons)
next
  case (Cons c s)
  then show ?case by (cases t) (auto simp: cstring_Nil cstring_Cons)
qed

section \<open>Words\<close>

lemma word8_sub_eq_0: "(a - b :: 'a :: len word) = 0 \<longleftrightarrow> a = b"
  by simp

end
