(* ===== verification/Wg_Menu.thy ===== *)
theory Wg_Menu
  imports UBoot_Prelude
begin

text \<open>
  The WatchGuard boot menu, \<^verbatim>\<open>common/wgmenu.c\<close>.  The file's static variables are the
  fields of one record; console output is the sequence of terminal commands the
  \<^verbatim>\<open>printf\<close> calls emit.  A store or a read outside \<^verbatim>\<open>wg_options\<close> is
  \<^const>\<open>None\<close>.  \<open>menu_rows\<close> interprets the emitted commands as a terminal does, which gives
  the screen invariant: the rows on the screen are the options, and exactly the selected one is
  shown in reverse video.
\<close>

section \<open>Data\<close>

text \<open>One constructor per terminal command; \<open>PutPad w s\<close> is \<^verbatim>\<open>printf("%-<w>s", s)\<close>.\<close>

datatype con_out =
    ANSI_CLEAR
  | ANSI_REVERSE
  | ANSI_NORMAL
  | ANSI_GOTOYX int int
  | Put string
  | PutPad int string

definition SCREEN_HIGH :: int where "SCREEN_HIGH = 24"
definition SCREEN_WIDTH :: int where "SCREEN_WIDTH = 80"
definition MAX_MENU_ITEMS :: nat where "MAX_MENU_ITEMS = 10"
definition FIRST_LINE_Y :: int where "FIRST_LINE_Y = 2"
definition FIRST_LINE_X_FUN :: "int \<Rightarrow> int" where
  "FIRST_LINE_X_FUN len = sgn (SCREEN_WIDTH - len) * (\<bar>SCREEN_WIDTH - len\<bar> div 2)"
definition TABLE_START_Y :: int where "TABLE_START_Y = 4"
definition TABLE_START_X :: int where "TABLE_START_X = 2"
definition TABLE_LENGHT :: int where "TABLE_LENGHT = SCREEN_WIDTH - 6"
definition TABLE_HIGH :: int where "TABLE_HIGH = SCREEN_HIGH div 2"
definition MENU_0_ROW :: int where "MENU_0_ROW = TABLE_START_Y + 1"

lemmas wg_screen_defs = SCREEN_HIGH_def SCREEN_WIDTH_def MAX_MENU_ITEMS_def FIRST_LINE_Y_def
  TABLE_START_Y_def TABLE_START_X_def TABLE_LENGHT_def TABLE_HIGH_def MENU_0_ROW_def

text \<open>A null \<^verbatim>\<open>label\<close>, \<^verbatim>\<open>fn\<close> or \<^verbatim>\<open>user\<close> pointer is \<^const>\<open>None\<close>.\<close>

record wgmenu_option =
  label :: "string option"
  fn :: "nat option"
  user :: "nat option"

record wgmenu =
  wg_options :: "wgmenu_option list"
  wgmenu_max_width :: int
  wgmenu_num_options :: int
  wgmenu_option_pos :: int
  wgmenu_boot_menu :: int
  console :: "con_out list"

text \<open>The initial values of the static variables.\<close>

definition wgmenu_static :: wgmenu where
  "wgmenu_static = \<lparr>wg_options = replicate MAX_MENU_ITEMS \<lparr>label = None, fn = None, user = None\<rparr>,
     wgmenu_max_width = TABLE_LENGHT - 4, wgmenu_num_options = 0, wgmenu_option_pos = 0,
     wgmenu_boot_menu = 1, console = []\<rparr>"

section \<open>Operations\<close>

definition emit :: "con_out list \<Rightarrow> wgmenu \<Rightarrow> wgmenu" where
  "emit out s = s\<lparr>console := console s @ out\<rparr>"

text \<open>What \<^verbatim>\<open>%s\<close> prints: \<^verbatim>\<open>lib/vsprintf.c\<close> prints a null pointer as this text.\<close>

definition str_arg :: "string option \<Rightarrow> string" where
  "str_arg p = (case p of None \<Rightarrow> ''<NULL>'' | Some s \<Rightarrow> s)"

definition print_option_out :: "int \<Rightarrow> int \<Rightarrow> string option \<Rightarrow> bool \<Rightarrow> con_out list" where
  "print_option_out width n l rv =
     [ANSI_GOTOYX (MENU_0_ROW + n) (TABLE_START_X + 1)]
     @ (if rv then [ANSI_REVERSE] else [])
     @ [PutPad width (str_arg l)]
     @ (if rv then [ANSI_NORMAL] else [])
     @ [ANSI_GOTOYX (SCREEN_HIGH + 2) 1]"

text \<open>\<open>n\<close> is \<^verbatim>\<open>opt - wg_options\<close>.\<close>

definition wgmenu_print_option :: "int \<Rightarrow> bool \<Rightarrow> wgmenu \<Rightarrow> wgmenu option" where
  "wgmenu_print_option n rv s =
     (if 0 \<le> n \<and> nat n < length (wg_options s)
      then Some (emit (print_option_out (wgmenu_max_width s) n
                         (label (wg_options s ! nat n)) rv) s)
      else None)"

definition bootmenu_table_out :: "string \<Rightarrow> con_out list" where
  "bootmenu_table_out version =
     [ANSI_CLEAR, ANSI_GOTOYX FIRST_LINE_Y (FIRST_LINE_X_FUN (int (length version))), Put version]
     @ concat (map (\<lambda>i. [ANSI_GOTOYX TABLE_START_Y (TABLE_START_X + i), Put ''-''])
                 [0..TABLE_LENGHT - 1])
     @ concat (map (\<lambda>j. [ANSI_GOTOYX (TABLE_START_Y + j) TABLE_START_X, Put ''|''])
                 [0..TABLE_HIGH - 1])
     @ concat (map (\<lambda>j. [ANSI_GOTOYX (TABLE_START_Y + j) (TABLE_START_X + TABLE_LENGHT), Put ''|''])
                 [0..TABLE_HIGH - 1])
     @ concat (map (\<lambda>i. [ANSI_GOTOYX (TABLE_START_Y + TABLE_HIGH) (TABLE_START_X + i), Put ''-''])
                 [1..TABLE_LENGHT - 1])
     @ [ANSI_GOTOYX TABLE_START_Y TABLE_START_X, Put ''+'',
        ANSI_GOTOYX TABLE_START_Y (TABLE_START_X + TABLE_LENGHT), Put ''+'',
        ANSI_GOTOYX (TABLE_START_Y + TABLE_HIGH) TABLE_START_X, Put ''+'',
        ANSI_GOTOYX (TABLE_START_Y + TABLE_HIGH) (TABLE_START_X + TABLE_LENGHT), Put ''+'',
        ANSI_GOTOYX (TABLE_START_Y + TABLE_HIGH + 2) 7,
        Put ''Use the ^ and v keys to select which entry is highlighted.'',
        ANSI_GOTOYX (TABLE_START_Y + TABLE_HIGH + 3) 7,
        Put ''Press enter to boot the selected OS.'',
        ANSI_GOTOYX (SCREEN_HIGH + 2) 1]"

definition wgmenu_show_bootmenu_table :: "string \<Rightarrow> wgmenu \<Rightarrow> wgmenu" where
  "wgmenu_show_bootmenu_table version s = emit (bootmenu_table_out version) s"

text \<open>The loop \<^verbatim>\<open>for (opt = wg_options; opt != wg_options + num; opt++)\<close>; the counter
  counts the options that are left.\<close>

fun show_options :: "nat \<Rightarrow> int \<Rightarrow> wgmenu \<Rightarrow> wgmenu option" where
  "show_options 0 n s = Some s"
| "show_options (Suc k) n s =
     (case wgmenu_print_option n (n = 0) s of None \<Rightarrow> None | Some s' \<Rightarrow> show_options k (n + 1) s')"

definition wgmenu_show_bootmenu :: "string \<Rightarrow> wgmenu \<Rightarrow> wgmenu option" where
  "wgmenu_show_bootmenu version s =
     show_options (nat (wgmenu_num_options s)) 0 (wgmenu_show_bootmenu_table version s)"

definition move_pos :: "int \<Rightarrow> wgmenu \<Rightarrow> wgmenu" where
  "move_pos key s =
     (if key = 65 then
        (if wgmenu_option_pos s > 0 then s\<lparr>wgmenu_option_pos := wgmenu_option_pos s - 1\<rparr> else s)
      else if key = 66 then
        (if wgmenu_option_pos s < wgmenu_num_options s - 1
         then s\<lparr>wgmenu_option_pos := wgmenu_option_pos s + 1\<rparr> else s)
      else s)"

definition wgmenu_wg_display_menu :: "int \<Rightarrow> wgmenu \<Rightarrow> wgmenu option" where
  "wgmenu_wg_display_menu key s =
     do { s1 \<leftarrow> wgmenu_print_option (wgmenu_option_pos s) False s;
          let s2 = move_pos key s1;
          wgmenu_print_option (wgmenu_option_pos s2) True s2 }"

text \<open>The returned flag is \<^verbatim>\<open>hooked\<close>; the static pointer \<^verbatim>\<open>opt\<close> is never null.\<close>

definition wgmenu_hook :: "int \<Rightarrow> wgmenu \<Rightarrow> (bool \<times> wgmenu) option" where
  "wgmenu_hook key s =
     (if (key = 65 \<or> key = 66) \<and> wgmenu_num_options s \<noteq> 0
      then map_option (Pair True) (wgmenu_wg_display_menu key s)
      else Some (False, s))"

definition wgmenu_add :: "string \<Rightarrow> nat option \<Rightarrow> nat option \<Rightarrow> wgmenu \<Rightarrow> wgmenu option" where
  "wgmenu_add l f u s =
     (if 0 \<le> wgmenu_num_options s \<and> nat (wgmenu_num_options s) < length (wg_options s)
      then Some (s\<lparr>wg_options := (wg_options s)[nat (wgmenu_num_options s) :=
                     \<lparr>label = Some l, fn = f, user = u\<rparr>],
                   wgmenu_num_options := wgmenu_num_options s + 1,
                   wgmenu_max_width := (if int (length l) > wgmenu_max_width s
                     then int (length l) else wgmenu_max_width s)\<rparr>)
      else None)"

definition sysa_label :: string where "sysa_label = ''WatchGuard (SYSA)''"
definition sysb_label :: string where
  "sysb_label = ''WatchGuard (SYSB Recovery/Diagnostic Mode)''"

definition wgmenu_show :: "string \<Rightarrow> wgmenu \<Rightarrow> wgmenu option" where
  "wgmenu_show version s =
     do { s1 \<leftarrow> wgmenu_add sysa_label None None s;
          s2 \<leftarrow> wgmenu_add sysb_label None None s1;
          wgmenu_show_bootmenu version s2 }"

definition wgmenu_selected :: "wgmenu \<Rightarrow> int" where
  "wgmenu_selected s = wgmenu_option_pos s"

definition wgmenu_inmenu :: "wgmenu \<Rightarrow> int" where
  "wgmenu_inmenu s = wgmenu_boot_menu s"

definition wgmenu_exit :: "wgmenu \<Rightarrow> wgmenu" where
  "wgmenu_exit s = s\<lparr>wgmenu_boot_menu := 0\<rparr>"

text \<open>A sequence of keys, each given to the hook.\<close>

fun wgmenu_hooks :: "int list \<Rightarrow> wgmenu \<Rightarrow> wgmenu option" where
  "wgmenu_hooks [] s = Some s"
| "wgmenu_hooks (k # ks) s =
     (case wgmenu_hook k s of None \<Rightarrow> None | Some (_, s') \<Rightarrow> wgmenu_hooks ks s')"

text \<open>The menu shown \<open>k\<close> times in a row.\<close>

fun wgmenu_shows :: "string \<Rightarrow> nat \<Rightarrow> wgmenu \<Rightarrow> wgmenu option" where
  "wgmenu_shows version 0 s = Some s"
| "wgmenu_shows version (Suc k) s =
     (case wgmenu_show version s of None \<Rightarrow> None | Some s' \<Rightarrow> wgmenu_shows version k s')"

section \<open>The terminal\<close>

text \<open>
  A terminal keeps the cursor row, the reverse-video attribute and, for each row, the menu text
  last written there with the attribute it was written with.
\<close>

record terminal =
  cur_row :: int
  reverse :: bool
  menu_rows :: "int \<Rightarrow> (bool \<times> string) option"

definition blank_terminal :: terminal where
  "blank_terminal = \<lparr>cur_row = 1, reverse = False, menu_rows = Map.empty\<rparr>"

fun term_step :: "con_out \<Rightarrow> terminal \<Rightarrow> terminal" where
  "term_step ANSI_CLEAR t = t\<lparr>menu_rows := Map.empty\<rparr>"
| "term_step ANSI_REVERSE t = t\<lparr>reverse := True\<rparr>"
| "term_step ANSI_NORMAL t = t\<lparr>reverse := False\<rparr>"
| "term_step (ANSI_GOTOYX y x) t = t\<lparr>cur_row := y\<rparr>"
| "term_step (Put s) t = t"
| "term_step (PutPad w s) t = t\<lparr>menu_rows := (menu_rows t)(cur_row t \<mapsto> (reverse t, s))\<rparr>"

definition screen :: "con_out list \<Rightarrow> terminal" where
  "screen out = fold term_step out blank_terminal"

section \<open>Proofs\<close>

lemma emit_sel [simp]:
  "wg_options (emit out s) = wg_options s"
  "wgmenu_max_width (emit out s) = wgmenu_max_width s"
  "wgmenu_num_options (emit out s) = wgmenu_num_options s"
  "wgmenu_option_pos (emit out s) = wgmenu_option_pos s"
  "wgmenu_boot_menu (emit out s) = wgmenu_boot_menu s"
  "console (emit out s) = console s @ out"
  by (simp_all add: emit_def)

lemma screen_append [simp]: "screen (out @ out') = fold term_step out' (screen out)"
  by (simp add: screen_def)

lemma term_print_option [simp]:
  "\<not> reverse t \<Longrightarrow> fold term_step (print_option_out w n l rv) t =
     t\<lparr>cur_row := SCREEN_HIGH + 2, menu_rows := (menu_rows t)(MENU_0_ROW + n \<mapsto> (rv, str_arg l))\<rparr>"
  by (cases t) (simp add: print_option_out_def)

text \<open>Text that is no menu entry and no attribute change leaves the rows alone.\<close>

fun plain_out :: "con_out \<Rightarrow> bool" where
  "plain_out (ANSI_GOTOYX y x) = True"
| "plain_out (Put s) = True"
| "plain_out _ = False"

lemma term_plain:
  "list_all plain_out out \<Longrightarrow>
   reverse (fold term_step out t) = reverse t \<and> menu_rows (fold term_step out t) = menu_rows t"
proof (induction out arbitrary: t)
  case (Cons c out)
  then show ?case by (cases c) auto
qed simp

lemma bootmenu_table_plain:
  "\<exists>out. bootmenu_table_out v = ANSI_CLEAR # out \<and> list_all plain_out out"
  by (auto simp: bootmenu_table_out_def list_all_iff)

lemma term_table [simp]:
  "reverse (fold term_step (bootmenu_table_out v) t) = reverse t"
  "menu_rows (fold term_step (bootmenu_table_out v) t) = Map.empty"
  using bootmenu_table_plain [of v] by (auto simp: term_plain)

definition menu_wf :: "wgmenu \<Rightarrow> bool" where
  "menu_wf s \<longleftrightarrow> length (wg_options s) = MAX_MENU_ITEMS \<and> 0 \<le> wgmenu_num_options s
     \<and> nat (wgmenu_num_options s) \<le> MAX_MENU_ITEMS
     \<and> 0 \<le> wgmenu_option_pos s \<and> (wgmenu_option_pos s < wgmenu_num_options s
        \<or> wgmenu_num_options s = 0 \<and> wgmenu_option_pos s = 0)"

definition row_of :: "int \<Rightarrow> wgmenu \<Rightarrow> (bool \<times> string) option" where
  "row_of i s = menu_rows (screen (console s)) (MENU_0_ROW + i)"

definition screen_ok :: "wgmenu \<Rightarrow> bool" where
  "screen_ok s \<longleftrightarrow> \<not> reverse (screen (console s)) \<and>
     (\<forall>i. 0 \<le> i \<longrightarrow> i < wgmenu_num_options s \<longrightarrow>
        row_of i s = Some (i = wgmenu_option_pos s, str_arg (label (wg_options s ! nat i))))"

lemma show_options_run:
  "\<lbrakk>menu_wf s; 0 \<le> n; n + int k \<le> wgmenu_num_options s; \<not> reverse (screen (console s))\<rbrakk> \<Longrightarrow>
   \<exists>s'. show_options k n s = Some s' \<and> (\<exists>out. s' = emit out s) \<and> \<not> reverse (screen (console s'))
     \<and> (\<forall>i. row_of i s' = (if n \<le> i \<and> i < n + int k
           then Some (i = 0, str_arg (label (wg_options s ! nat i))) else row_of i s))"
proof (induction k arbitrary: n s)
  case 0
  have "s = emit [] s" by (simp add: emit_def)
  then have "\<exists>out. s = emit out s" by blast
  with 0 show ?case by auto
next
  case (Suc k)
  define s1 where "s1 = emit (print_option_out (wgmenu_max_width s) n
    (label (wg_options s ! nat n)) (n = 0)) s"
  have p: "wgmenu_print_option n (n = 0) s = Some s1"
    using Suc.prems by (auto simp: wgmenu_print_option_def s1_def menu_wf_def)
  have r1: "row_of i s1 = (if i = n then Some (n = 0, str_arg (label (wg_options s ! nat n)))
      else row_of i s)" for i
    using Suc.prems(4) by (simp add: row_of_def s1_def)
  have "menu_wf s1" using Suc.prems(1) by (simp add: menu_wf_def s1_def)
  moreover have "\<not> reverse (screen (console s1))"
    using Suc.prems(4) by (simp add: s1_def)
  ultimately obtain s' out where
    s': "show_options k (n + 1) s1 = Some s'" "s' = emit out s1" "\<not> reverse (screen (console s'))"
    and rows: "\<And>i. row_of i s' = (if n + 1 \<le> i \<and> i < n + 1 + int k
      then Some (i = 0, str_arg (label (wg_options s1 ! nat i))) else row_of i s1)"
    using Suc.IH [of s1 "n + 1"] Suc.prems by (auto simp: s1_def)
  have "\<exists>out. s' = emit out s"
    using s'(2) by (auto simp: s1_def emit_def)
  moreover have "wg_options s1 = wg_options s" by (simp add: s1_def)
  ultimately show ?case using p s' rows r1 by auto
qed

lemma wgmenu_add_wf:
  assumes "menu_wf s" "wgmenu_add l f u s = Some s'"
  shows "menu_wf s'"
  using assms by (auto simp: menu_wf_def wgmenu_add_def split: if_splits)

lemma wgmenu_show_bootmenu_ok:
  assumes "menu_wf s" "wgmenu_option_pos s = 0" "console s = []"
  shows "\<exists>s' out. wgmenu_show_bootmenu v s = Some s' \<and> s' = emit out s \<and> menu_wf s' \<and> screen_ok s'"
proof -
  let ?s1 = "wgmenu_show_bootmenu_table v s"
  have rev1: "\<not> reverse (screen (console ?s1))"
    using assms(3) by (simp add: wgmenu_show_bootmenu_table_def screen_def blank_terminal_def)
  have wf1: "menu_wf ?s1"
    using assms(1) by (simp add: wgmenu_show_bootmenu_table_def menu_wf_def)
  have n: "0 + int (nat (wgmenu_num_options s)) \<le> wgmenu_num_options ?s1"
    using assms(1) by (simp add: wgmenu_show_bootmenu_table_def menu_wf_def)
  obtain s' out where s': "show_options (nat (wgmenu_num_options s)) 0 ?s1 = Some s'"
    "s' = emit out ?s1" "\<not> reverse (screen (console s'))"
    and rows: "\<And>i. row_of i s' = (if 0 \<le> i \<and> i < 0 + int (nat (wgmenu_num_options s))
       then Some (i = 0, str_arg (label (wg_options ?s1 ! nat i))) else row_of i ?s1)"
    using show_options_run [OF wf1 _ n rev1] by auto
  have e: "s' = emit (bootmenu_table_out v @ out) s"
    using s'(2) by (simp add: wgmenu_show_bootmenu_table_def emit_def)
  have "menu_wf s'" using assms(1) e by (simp add: menu_wf_def)
  moreover have "screen_ok s'"
    using s'(3) rows assms(1,2) e by (auto simp: screen_ok_def wgmenu_show_bootmenu_table_def menu_wf_def)
  ultimately show ?thesis using s'(1) e by (auto simp: wgmenu_show_bootmenu_def)
qed

lemma move_pos_sel [simp]:
  "wg_options (move_pos key s) = wg_options s"
  "wgmenu_num_options (move_pos key s) = wgmenu_num_options s"
  "wgmenu_max_width (move_pos key s) = wgmenu_max_width s"
  "console (move_pos key s) = console s"
  "wgmenu_boot_menu (move_pos key s) = wgmenu_boot_menu s"
  by (simp_all add: move_pos_def)

lemma move_pos_wf: "menu_wf s \<Longrightarrow> menu_wf (move_pos key s)"
  by (auto simp: menu_wf_def move_pos_def)

lemma wgmenu_print_option_Some:
  "menu_wf s \<Longrightarrow> wgmenu_num_options s \<noteq> 0 \<Longrightarrow>
   wgmenu_print_option (wgmenu_option_pos s) rv s =
     Some (emit (print_option_out (wgmenu_max_width s) (wgmenu_option_pos s)
       (label (wg_options s ! nat (wgmenu_option_pos s))) rv) s)"
  by (auto simp: wgmenu_print_option_def menu_wf_def)

text \<open>One key press: the hook returns, keeps the invariant and redraws the two rows concerned.\<close>

lemma wgmenu_hook_ok:
  assumes wf: "menu_wf s" and ok: "screen_ok s"
  shows "\<exists>b s'. wgmenu_hook key s = Some (b, s') \<and> menu_wf s' \<and> screen_ok s'
     \<and> wg_options s' = wg_options s \<and> wgmenu_num_options s' = wgmenu_num_options s
     \<and> wgmenu_boot_menu s' = wgmenu_boot_menu s
     \<and> wgmenu_option_pos s' = wgmenu_option_pos (move_pos key s)"
proof (cases "(key = 65 \<or> key = 66) \<and> wgmenu_num_options s \<noteq> 0")
  case False
  then have "wgmenu_option_pos (move_pos key s) = wgmenu_option_pos s"
    using wf by (auto simp: move_pos_def menu_wf_def)
  with False wf ok show ?thesis unfolding wgmenu_hook_def by auto
next
  case True
  define s1 where "s1 = emit (print_option_out (wgmenu_max_width s) (wgmenu_option_pos s)
    (label (wg_options s ! nat (wgmenu_option_pos s))) False) s"
  define s2 where "s2 = move_pos key s1"
  define s3 where "s3 = emit (print_option_out (wgmenu_max_width s2) (wgmenu_option_pos s2)
    (label (wg_options s2 ! nat (wgmenu_option_pos s2))) True) s2"
  have wf1: "menu_wf s1" using wf by (simp add: menu_wf_def s1_def)
  have wf2: "menu_wf s2" using move_pos_wf [OF wf1] by (simp add: s2_def)
  have wf3: "menu_wf s3" using wf2 by (simp add: menu_wf_def s3_def)
  have "wgmenu_print_option (wgmenu_option_pos s) False s = Some s1"
    using True wf by (simp add: wgmenu_print_option_Some s1_def)
  moreover have "wgmenu_print_option (wgmenu_option_pos s2) True s2 = Some s3"
    using True wf2 by (simp add: wgmenu_print_option_Some s3_def s2_def s1_def)
  ultimately have run: "wgmenu_wg_display_menu key s = Some s3"
    by (simp add: wgmenu_wg_display_menu_def s2_def)
  have p2: "wgmenu_option_pos s2 = wgmenu_option_pos (move_pos key s)"
    by (simp add: s2_def s1_def move_pos_def)
  have "screen_ok s3"
    using ok by (auto simp: screen_ok_def row_of_def s3_def s2_def s1_def)
  with True run wf3 p2 show ?thesis
    by (auto simp: wgmenu_hook_def s3_def s2_def s1_def)
qed

lemma wgmenu_hooks_ok:
  "menu_wf s \<Longrightarrow> screen_ok s \<Longrightarrow>
   \<exists>s'. wgmenu_hooks ks s = Some s' \<and> menu_wf s' \<and> screen_ok s' \<and> wg_options s' = wg_options s
     \<and> wgmenu_num_options s' = wgmenu_num_options s"
proof (induction ks arbitrary: s)
  case (Cons k ks)
  obtain b s1 where s1: "wgmenu_hook k s = Some (b, s1)" "menu_wf s1" "screen_ok s1"
    "wg_options s1 = wg_options s" "wgmenu_num_options s1 = wgmenu_num_options s"
    using wgmenu_hook_ok [OF Cons.prems, of k] by blast
  show ?case using Cons.IH [OF s1(2,3)] s1 by simp
qed simp

lemma wgmenu_show_static:
  "\<exists>s. wgmenu_show v wgmenu_static = Some s \<and> menu_wf s \<and> screen_ok s
     \<and> wgmenu_num_options s = 2 \<and> wgmenu_option_pos s = 0
     \<and> wgmenu_boot_menu s = 1
     \<and> label (wg_options s ! 0) = Some sysa_label \<and> label (wg_options s ! 1) = Some sysb_label"
proof -
  have [simp]: "replicate 10 x = [x, x, x, x, x, x, x, x, x, x]" for x :: wgmenu_option
    by (simp add: numeral_eq_Suc)
  obtain s1 where s1: "wgmenu_add sysa_label None None wgmenu_static = Some s1"
    by (simp add: wgmenu_add_def wgmenu_static_def wg_screen_defs)
  obtain s2 where s2: "wgmenu_add sysb_label None None s1 = Some s2"
    using s1 by (auto simp: wgmenu_add_def wgmenu_static_def wg_screen_defs)
  have "menu_wf wgmenu_static" by (simp add: menu_wf_def wgmenu_static_def wg_screen_defs)
  then have wf: "menu_wf s2" using wgmenu_add_wf s1 s2 by blast
  have "wgmenu_option_pos s2 = 0 \<and> console s2 = [] \<and> wgmenu_num_options s2 = 2
      \<and> wgmenu_boot_menu s2 = 1
      \<and> label (wg_options s2 ! 0) = Some sysa_label \<and> label (wg_options s2 ! 1) = Some sysb_label"
    using s1 s2 by (auto simp: wgmenu_add_def wgmenu_static_def wg_screen_defs)
  then show ?thesis
    using wgmenu_show_bootmenu_ok [OF wf, of v] s1 s2 by (auto simp: wgmenu_show_def)
qed

text \<open> C22. The menu as shown at boot, after any sequence of keys: no access leaves the option array,
  the selection is SYSA or SYSB, and on the screen exactly the selected entry is in reverse video,
  each entry with its own label.
\<close>

theorem wgmenu_highlight:
  "\<exists>s0 s. wgmenu_show v wgmenu_static = Some s0 \<and> wgmenu_hooks ks s0 = Some s
     \<and> wgmenu_selected s \<in> {0, 1}
     \<and> row_of 0 s = Some (wgmenu_selected s = 0, sysa_label)
     \<and> row_of 1 s = Some (wgmenu_selected s = 1, sysb_label)"
proof -
  obtain s0 where s0: "wgmenu_show v wgmenu_static = Some s0" "menu_wf s0" "screen_ok s0"
    "wgmenu_num_options s0 = 2" "label (wg_options s0 ! 0) = Some sysa_label"
    "label (wg_options s0 ! 1) = Some sysb_label"
    using wgmenu_show_static by blast
  obtain s where s: "wgmenu_hooks ks s0 = Some s" "menu_wf s" "screen_ok s"
    "wg_options s = wg_options s0" "wgmenu_num_options s = 2"
    using wgmenu_hooks_ok [OF s0(2,3), of ks] s0(4) by auto
  have "row_of 0 s = Some (0 = wgmenu_option_pos s, sysa_label)"
    and "row_of 1 s = Some (1 = wgmenu_option_pos s, sysb_label)"
    using s s0 by (auto simp: screen_ok_def str_arg_def)
  moreover have "wgmenu_option_pos s \<in> {0, 1}" using s(2,5) by (auto simp: menu_wf_def)
  ultimately show ?thesis using s0(1) s(1) by (auto simp: wgmenu_selected_def)
qed


lemma show_options_emits:
  "\<lbrakk>0 \<le> n; nat n + k \<le> length (wg_options s)\<rbrakk> \<Longrightarrow> \<exists>out. show_options k n s = Some (emit out s)"
proof (induction k arbitrary: n s)
  case 0
  have "s = emit [] s" by (simp add: emit_def)
  then show ?case by (metis show_options.simps(1))
next
  case (Suc k)
  obtain out where out: "wgmenu_print_option n (n = 0) s = Some (emit out s)"
    using Suc.prems by (auto simp: wgmenu_print_option_def)
  have "nat (n + 1) + k \<le> length (wg_options (emit out s))" using Suc.prems by simp
  then obtain out' where "show_options k (n + 1) (emit out s) = Some (emit out' (emit out s))"
    using Suc.IH [of "n + 1" "emit out s"] Suc.prems(1) by auto
  moreover have "emit out' (emit out s) = emit (out @ out') s" by (simp add: emit_def)
  ultimately show ?case using out by auto
qed

lemma wgmenu_add_None_iff:
  "menu_wf s \<Longrightarrow> wgmenu_add l f u s = None \<longleftrightarrow> wgmenu_num_options s = 10"
  by (auto simp: wgmenu_add_def menu_wf_def MAX_MENU_ITEMS_def)

lemma wgmenu_add_num:
  "wgmenu_add l f u s = Some s' \<Longrightarrow> wgmenu_num_options s' = wgmenu_num_options s + 1"
  by (auto simp: wgmenu_add_def split: if_splits)

lemma wgmenu_show_step:
  assumes "menu_wf s"
  shows "if wgmenu_num_options s \<le> 8
    then \<exists>s'. wgmenu_show v s = Some s' \<and> menu_wf s'
      \<and> wgmenu_num_options s' = wgmenu_num_options s + 2
    else wgmenu_show v s = None"
proof (cases "wgmenu_num_options s \<le> 8")
  case True
  obtain s1 where s1: "wgmenu_add sysa_label None None s = Some s1"
    using True wgmenu_add_None_iff [OF assms, of sysa_label None None] by fastforce
  then have n1: "wgmenu_num_options s1 = wgmenu_num_options s + 1"
    by (rule wgmenu_add_num)
  have wf1: "menu_wf s1" using wgmenu_add_wf [OF assms s1] .
  obtain s2 where s2: "wgmenu_add sysb_label None None s1 = Some s2"
    using True n1 wgmenu_add_None_iff [OF wf1, of sysb_label None None] by fastforce
  then have n2: "wgmenu_num_options s2 = wgmenu_num_options s + 2"
    using n1 wgmenu_add_num [OF s2] by simp
  have wf2: "menu_wf s2" using wgmenu_add_wf [OF wf1 s2] .
  then obtain out where "wgmenu_show_bootmenu v s2 = Some (emit out (wgmenu_show_bootmenu_table v s2))"
    using show_options_emits [of 0 "nat (wgmenu_num_options s2)" "wgmenu_show_bootmenu_table v s2"]
    by (auto simp: wgmenu_show_bootmenu_def wgmenu_show_bootmenu_table_def menu_wf_def)
  moreover have "menu_wf (emit out (wgmenu_show_bootmenu_table v s2))"
    using wf2 by (simp add: menu_wf_def wgmenu_show_bootmenu_table_def)
  ultimately show ?thesis
    using True s1 s2 n2 by (auto simp: wgmenu_show_def wgmenu_show_bootmenu_table_def)
next
  case False
  show ?thesis
  proof (cases "wgmenu_add sysa_label None None s")
    case None
    then show ?thesis using False by (simp add: wgmenu_show_def)
  next
    case (Some s1)
    have "wgmenu_num_options s \<le> 10" using assms by (auto simp: menu_wf_def MAX_MENU_ITEMS_def)
    then have "wgmenu_num_options s1 = 10"
      using Some False wgmenu_add_num [OF Some] wgmenu_add_None_iff [OF assms, of sysa_label None None]
      by auto
    then have "wgmenu_add sysb_label None None s1 = None"
      using wgmenu_add_None_iff [OF wgmenu_add_wf [OF assms Some]] by blast
    then show ?thesis using False Some by (simp add: wgmenu_show_def)
  qed
qed

lemma wgmenu_shows_iff:
  "menu_wf s \<Longrightarrow> even (wgmenu_num_options s) \<Longrightarrow>
   wgmenu_shows v k s \<noteq> None \<longleftrightarrow> wgmenu_num_options s + 2 * int k \<le> 10"
proof (induction k arbitrary: s)
  case 0
  then show ?case by (auto simp: menu_wf_def MAX_MENU_ITEMS_def)
next
  case (Suc k)
  show ?case
  proof (cases "wgmenu_num_options s \<le> 8")
    case True
    then obtain s' where "wgmenu_show v s = Some s'" "menu_wf s'"
      "wgmenu_num_options s' = wgmenu_num_options s + 2"
      using wgmenu_show_step [OF Suc.prems(1), of v] by auto
    then show ?thesis using Suc.IH [of s'] Suc.prems(2) by auto
  next
    case False
    then show ?thesis using wgmenu_show_step [OF Suc.prems(1), of v] Suc.prems(2) by auto
  qed
qed

text \<open> C24. Each \<^verbatim>\<open>wgmenu_show\<close> adds the two entries again and nothing resets the count, so
  the ten slots of \<^verbatim>\<open>wg_options\<close> carry exactly five calls: with up to five no store
  leaves the array, and the sixth writes past its end.
\<close>

theorem wgmenu_shows_safe_iff:
  "wgmenu_shows v k wgmenu_static \<noteq> None \<longleftrightarrow> k \<le> 5"
proof -
  have "menu_wf wgmenu_static" by (simp add: menu_wf_def wgmenu_static_def wg_screen_defs)
  then show ?thesis using wgmenu_shows_iff [of wgmenu_static v k] by (auto simp: wgmenu_static_def)
qed

end
