(* ===== verification/C_Ctype.thy ===== *)
theory C_Ctype
  imports UBoot_Prelude
begin

text \<open>
  Character classes: the table of \<^verbatim>\<open>lib/ctype.c\<close> and the macros of
  \<^verbatim>\<open>include/linux/ctype.h\<close> over it.  The lemmas turn the table tests the parsers use
  into ranges of byte values.
\<close>

definition ct_U :: u8 where "ct_U = 0x01"
definition ct_L :: u8 where "ct_L = 0x02"
definition ct_D :: u8 where "ct_D = 0x04"
definition ct_C :: u8 where "ct_C = 0x08"
definition ct_P :: u8 where "ct_P = 0x10"
definition ct_S :: u8 where "ct_S = 0x20"
definition ct_X :: u8 where "ct_X = 0x40"
definition ct_SP :: u8 where "ct_SP = 0x80"

text \<open>The rows of the table, in order; runs of equal entries are written with \<^const>\<open>replicate\<close>.\<close>

definition ctype_table :: "u8 list" where
  "ctype_table =
     replicate 8 ct_C
     @ [ct_C] @ replicate 5 (ct_C OR ct_S) @ replicate 2 ct_C
     @ replicate 16 ct_C
     @ [ct_S OR ct_SP] @ replicate 7 ct_P
     @ replicate 8 ct_P
     @ replicate 8 ct_D
     @ replicate 2 ct_D @ replicate 6 ct_P
     @ [ct_P] @ replicate 6 (ct_U OR ct_X) @ [ct_U]
     @ replicate 16 ct_U
     @ replicate 3 ct_U @ replicate 5 ct_P
     @ [ct_P] @ replicate 6 (ct_L OR ct_X) @ [ct_L]
     @ replicate 16 ct_L
     @ replicate 3 ct_L @ replicate 4 ct_P @ [ct_C]
     @ replicate 32 0
     @ [ct_S OR ct_SP] @ replicate 15 ct_P
     @ replicate 16 ct_P
     @ replicate 16 ct_U
     @ replicate 7 ct_U @ [ct_P] @ replicate 7 ct_U @ [ct_L]
     @ replicate 16 ct_L
     @ replicate 7 ct_L @ [ct_P] @ replicate 8 ct_L"

definition ismask :: "u8 \<Rightarrow> u8" where
  "ismask x = ctype_table ! unat x"

definition isalnum :: "u8 \<Rightarrow> bool" where "isalnum c \<longleftrightarrow> ismask c AND (ct_U OR ct_L OR ct_D) \<noteq> 0"
definition isalpha :: "u8 \<Rightarrow> bool" where "isalpha c \<longleftrightarrow> ismask c AND (ct_U OR ct_L) \<noteq> 0"
definition isdigit :: "u8 \<Rightarrow> bool" where "isdigit c \<longleftrightarrow> ismask c AND ct_D \<noteq> 0"
definition islower :: "u8 \<Rightarrow> bool" where "islower c \<longleftrightarrow> ismask c AND ct_L \<noteq> 0"
definition isspace :: "u8 \<Rightarrow> bool" where "isspace c \<longleftrightarrow> ismask c AND ct_S \<noteq> 0"
definition isupper :: "u8 \<Rightarrow> bool" where "isupper c \<longleftrightarrow> ismask c AND ct_U \<noteq> 0"
definition isxdigit :: "u8 \<Rightarrow> bool" where "isxdigit c \<longleftrightarrow> ismask c AND (ct_D OR ct_X) \<noteq> 0"
definition isprint :: "u8 \<Rightarrow> bool" where
  "isprint c \<longleftrightarrow> ismask c AND (ct_P OR ct_U OR ct_L OR ct_D OR ct_SP) \<noteq> 0"
definition isblank :: "u8 \<Rightarrow> bool" where "isblank c \<longleftrightarrow> c = 32 \<or> c = 9"

text \<open>\<^verbatim>\<open>c -= 'A'-'a'\<close> and \<^verbatim>\<open>c -= 'a'-'A'\<close> on an \<^verbatim>\<open>unsigned char\<close>.\<close>

definition tolower :: "u8 \<Rightarrow> u8" where "tolower c = (if isupper c then c - (65 - 97) else c)"
definition toupper :: "u8 \<Rightarrow> u8" where "toupper c = (if islower c then c - (97 - 65) else c)"

section \<open>The table as ranges\<close>

lemma length_ctype_table: "length ctype_table = 256"
  by (simp add: ctype_table_def)

lemma byte_cases:
  assumes "\<forall>n \<in> set [0..255]. P (word_of_int n)"
  shows "P (c :: u8)"
proof -
  have "0 \<le> uint c \<and> uint c < 256" using unsigned_less [of c, where ?'a = int] by simp
  then have "uint c \<in> set [0..255]" by simp
  then have "P (word_of_int (uint c))" using assms by blast
  then show ?thesis by simp
qed

lemma isdigit_iff: "isdigit c \<longleftrightarrow> 48 \<le> c \<and> c \<le> 57"
  by (rule byte_cases) code_simp

lemma isxdigit_iff: "isxdigit c \<longleftrightarrow> 48 \<le> c \<and> c \<le> 57 \<or> 65 \<le> c \<and> c \<le> 70 \<or> 97 \<le> c \<and> c \<le> 102"
  by (rule byte_cases) code_simp

lemma isspace_iff: "isspace c \<longleftrightarrow> 9 \<le> c \<and> c \<le> 13 \<or> c = 32 \<or> c = 160"
  by (rule byte_cases) code_simp

lemma tolower_idem: "tolower (tolower c) = tolower c"
  by (rule byte_cases) code_simp

lemma toupper_xdigit_imp:
  "97 \<le> c \<longrightarrow> c \<le> 102 \<longrightarrow> islower c \<and> toupper c = c - 32"
  by (rule byte_cases) code_simp

lemmas toupper_xdigit = toupper_xdigit_imp [rule_format]

end
