(* ===== verification/C_String.thy ===== *)
theory C_String
  imports C_Ctype
begin

text \<open>
  The string and memory routines of \<^verbatim>\<open>lib/string.c\<close>, in the order of the file, over
  byte memory.  Every routine that runs off the region returns \<^const>\<open>None\<close>; every loop advances a
  pointer or counts down, so all of them are total functions.  Pointers are byte addresses, so
  the alignment tests of the word-at-a-time loops are tests of the pointer value; \<^verbatim>\<open>unsigned
  long\<close> has 8 bytes, little-endian.
\<close>

section \<open>Word access\<close>

definition rd64 :: "mem \<Rightarrow> ptr \<Rightarrow> u8 list option" where
  "rd64 m p = (if p + 8 \<le> length m then Some (seg m p 8) else None)"

definition wr64 :: "mem \<Rightarrow> ptr \<Rightarrow> u8 list \<Rightarrow> mem option" where
  "wr64 m p w = (if p + 8 \<le> length m then Some (put_seg m p w) else None)"

definition le_bytes :: "u64 \<Rightarrow> u8 list" where
  "le_bytes w = map (\<lambda>i. ucast (drop_bit (8 * i) w)) [0..<8]"

section \<open>Comparison without case\<close>

fun strncasecmp_loop :: "mem \<Rightarrow> ptr \<Rightarrow> ptr \<Rightarrow> nat \<Rightarrow> (u8 \<times> u8) option" where
  "strncasecmp_loop m s1 s2 0 = Some (0, 0)"
| "strncasecmp_loop m s1 s2 (Suc len) =
     do { c1 \<leftarrow> rd m s1;
          c2 \<leftarrow> rd m s2;
          if c1 = 0 then Some (c1, c2)
          else if c2 = 0 then Some (c1, c2)
          else if c1 = c2 then
            (if len = 0 then Some (c1, c2) else strncasecmp_loop m (s1 + 1) (s2 + 1) len)
          else if tolower c1 \<noteq> tolower c2 then Some (tolower c1, tolower c2)
          else (if len = 0 then Some (tolower c1, tolower c2)
                else strncasecmp_loop m (s1 + 1) (s2 + 1) len) }"

definition strncasecmp :: "mem \<Rightarrow> ptr \<Rightarrow> ptr \<Rightarrow> nat \<Rightarrow> int option" where
  "strncasecmp m s1 s2 len =
     map_option (\<lambda>(c1, c2). uint c1 - uint c2) (strncasecmp_loop m s1 s2 len)"

definition strcasecmp :: "mem \<Rightarrow> ptr \<Rightarrow> ptr \<Rightarrow> int option" where
  "strcasecmp m s1 s2 = strncasecmp m s1 s2 (unat (- 1 :: u32))"

section \<open>Copying and appending\<close>

text \<open>The loop of \<^verbatim>\<open>strcpy\<close>.  It stops at the first NUL it reads at \<open>src\<close>, or at the end
  of the region.\<close>

function strcpy_loop :: "mem \<Rightarrow> ptr \<Rightarrow> ptr \<Rightarrow> mem option" where
  "strcpy_loop m dest src =
     (if src < length m \<and> dest < length m
      then (if m ! src = 0 then Some (m[dest := m ! src])
            else strcpy_loop (m[dest := m ! src]) (dest + 1) (src + 1))
      else None)"
  by pat_completeness auto
termination
  by (relation "measure (\<lambda>(m, dest, src). length m - src)") auto

declare strcpy_loop.simps [simp del]

definition strcpy :: "mem \<Rightarrow> ptr \<Rightarrow> ptr \<Rightarrow> (mem \<times> ptr) option" where
  "strcpy m dest src = map_option (\<lambda>m'. (m', dest)) (strcpy_loop m dest src)"

fun strncpy_loop :: "mem \<Rightarrow> ptr \<Rightarrow> ptr \<Rightarrow> nat \<Rightarrow> mem option" where
  "strncpy_loop m dest src 0 = Some m"
| "strncpy_loop m dest src (Suc count) =
     do { c \<leftarrow> rd m src;
          m' \<leftarrow> wr m dest c;
          if c \<noteq> 0 then strncpy_loop m' (dest + 1) (src + 1) count else Some m' }"

definition strncpy :: "mem \<Rightarrow> ptr \<Rightarrow> ptr \<Rightarrow> nat \<Rightarrow> (mem \<times> ptr) option" where
  "strncpy m dest src count = map_option (\<lambda>m'. (m', dest)) (strncpy_loop m dest src count)"

function strend :: "mem \<Rightarrow> ptr \<Rightarrow> ptr option" where
  "strend m s = (if s < length m then (if m ! s = 0 then Some s else strend m (s + 1)) else None)"
  by pat_completeness auto
termination
  by (relation "measure (\<lambda>(m, s). length m - s)") auto

declare strend.simps [simp del]

definition strlen :: "mem \<Rightarrow> ptr \<Rightarrow> nat option" where
  "strlen m s = map_option (\<lambda>sc. sc - s) (strend m s)"

fun copy_bytes :: "mem \<Rightarrow> ptr \<Rightarrow> ptr \<Rightarrow> nat \<Rightarrow> mem option" where
  "copy_bytes m d s 0 = Some m"
| "copy_bytes m d s (Suc count) =
     do { c \<leftarrow> rd m s; m' \<leftarrow> wr m d c; copy_bytes m' (d + 1) (s + 1) count }"

text \<open>The word loop of \<^verbatim>\<open>memcpy\<close>: the memory, the two pointers and the count it leaves.\<close>

fun copy_words :: "mem \<Rightarrow> ptr \<Rightarrow> ptr \<Rightarrow> nat \<Rightarrow> (mem \<times> ptr \<times> ptr \<times> nat) option" where
  "copy_words m d s count =
     (if count \<ge> 8 then do { w \<leftarrow> rd64 m s; m' \<leftarrow> wr64 m d w; copy_words m' (d + 8) (s + 8) (count - 8) }
      else Some (m, d, s, count))"

declare copy_words.simps [simp del]

definition memcpy :: "mem \<Rightarrow> ptr \<Rightarrow> ptr \<Rightarrow> nat \<Rightarrow> mem option" where
  "memcpy m dest src count =
     (if src = dest then Some m
      else if (of_nat dest OR of_nat src :: u64) AND 7 = 0
      then do { (m', d, s, c) \<leftarrow> copy_words m dest src count; copy_bytes m' d s c }
      else copy_bytes m dest src count)"

definition strlcpy :: "mem \<Rightarrow> ptr \<Rightarrow> ptr \<Rightarrow> nat \<Rightarrow> (mem \<times> nat) option" where
  "strlcpy m dest src sz =
     do { ret \<leftarrow> strlen m src;
          if sz \<noteq> 0 then
            do { let len = (if ret \<ge> sz then sz - 1 else ret);
                 m' \<leftarrow> memcpy m dest src len;
                 m'' \<leftarrow> wr m' (dest + len) 0;
                 Some (m'', ret) }
          else Some (m, ret) }"

definition strcat :: "mem \<Rightarrow> ptr \<Rightarrow> ptr \<Rightarrow> (mem \<times> ptr) option" where
  "strcat m dest src =
     do { e \<leftarrow> strend m dest; m' \<leftarrow> strcpy_loop m e src; Some (m', dest) }"

text \<open>The first equation is never reached: \<^verbatim>\<open>count\<close> is positive on entry and the loop
  leaves when it drops to 0.\<close>

fun strncat_loop :: "mem \<Rightarrow> ptr \<Rightarrow> ptr \<Rightarrow> nat \<Rightarrow> mem option" where
  "strncat_loop m dest src 0 = None"
| "strncat_loop m dest src (Suc count) =
     do { c \<leftarrow> rd m src;
          m' \<leftarrow> wr m dest c;
          if c = 0 then Some m'
          else if count = 0 then wr m' (dest + 1) 0
          else strncat_loop m' (dest + 1) (src + 1) count }"

definition strncat :: "mem \<Rightarrow> ptr \<Rightarrow> ptr \<Rightarrow> nat \<Rightarrow> (mem \<times> ptr) option" where
  "strncat m dest src count =
     (if count \<noteq> 0 then
        do { e \<leftarrow> strend m dest; m' \<leftarrow> strncat_loop m e src count; Some (m', dest) }
      else Some (m, dest))"

section \<open>Comparison and search\<close>

text \<open>\<^verbatim>\<open>__res\<close> is a \<^verbatim>\<open>signed char\<close>: the difference modulo 256, read as signed.\<close>

function strcmp :: "mem \<Rightarrow> ptr \<Rightarrow> ptr \<Rightarrow> int option" where
  "strcmp m cs ct =
     (if cs < length m \<and> ct < length m
      then (let res = sint (m ! cs - m ! ct)
            in if res \<noteq> 0 \<or> m ! cs = 0 then Some res else strcmp m (cs + 1) (ct + 1))
      else None)"
  by pat_completeness auto
termination
  by (relation "measure (\<lambda>(m, cs, ct). length m - cs)") auto

declare strcmp.simps [simp del]

fun strncmp :: "mem \<Rightarrow> ptr \<Rightarrow> ptr \<Rightarrow> nat \<Rightarrow> int option" where
  "strncmp m cs ct 0 = Some 0"
| "strncmp m cs ct (Suc count) =
     do { a \<leftarrow> rd m cs;
          b \<leftarrow> rd m ct;
          let res = sint (a - b);
          if res \<noteq> 0 \<or> a = 0 then Some res
          else strncmp m (cs + 1) (ct + 1) count }"

function strchr :: "mem \<Rightarrow> ptr \<Rightarrow> u8 \<Rightarrow> ptr option option" where
  "strchr m s c =
     (if s < length m
      then (if m ! s = c then Some (Some s)
            else if m ! s = 0 then Some None else strchr m (s + 1) c)
      else None)"
  by pat_completeness auto
termination
  by (relation "measure (\<lambda>(m, s, c). length m - s)") auto

declare strchr.simps [simp del]

function strchrnul :: "mem \<Rightarrow> ptr \<Rightarrow> u8 \<Rightarrow> ptr option" where
  "strchrnul m s c =
     (if s < length m
      then (if m ! s = c then Some s
            else if m ! s = 0 then Some s else strchrnul m (s + 1) c)
      else None)"
  by pat_completeness auto
termination
  by (relation "measure (\<lambda>(m, s, c). length m - s)") auto

declare strchrnul.simps [simp del]

text \<open>The loop of \<^verbatim>\<open>strrchr\<close>, \<open>p = s + k\<close> running down to \<open>s\<close>.\<close>

fun strrchr_loop :: "mem \<Rightarrow> ptr \<Rightarrow> nat \<Rightarrow> u8 \<Rightarrow> ptr option option" where
  "strrchr_loop m s k c =
     do { x \<leftarrow> rd m (s + k);
          if x = c then Some (Some (s + k))
          else (case k of 0 \<Rightarrow> Some None | Suc k' \<Rightarrow> strrchr_loop m s k' c) }"

declare strrchr_loop.simps [simp del]

definition strrchr :: "mem \<Rightarrow> ptr \<Rightarrow> u8 \<Rightarrow> ptr option option" where
  "strrchr m s c = do { n \<leftarrow> strlen m s; strrchr_loop m s n c }"

fun strnlen :: "mem \<Rightarrow> ptr \<Rightarrow> nat \<Rightarrow> nat option" where
  "strnlen m s 0 = Some 0"
| "strnlen m s (Suc count) =
     do { c \<leftarrow> rd m s;
          if c \<noteq> 0 then map_option Suc (strnlen m (s + 1) count) else Some 0 }"

text \<open>The inner loops of \<^verbatim>\<open>strcspn\<close>, \<^verbatim>\<open>strspn\<close> and \<^verbatim>\<open>strpbrk\<close>: is the character
  one of the string at \<open>r\<close>?\<close>

function in_set_at :: "mem \<Rightarrow> ptr \<Rightarrow> u8 \<Rightarrow> bool option" where
  "in_set_at m r x =
     (if r < length m
      then (if m ! r = 0 then Some False
            else if x = m ! r then Some True else in_set_at m (r + 1) x)
      else None)"
  by pat_completeness auto
termination
  by (relation "measure (\<lambda>(m, r, x). length m - r)") auto

declare in_set_at.simps [simp del]

function strcspn_loop :: "mem \<Rightarrow> ptr \<Rightarrow> ptr \<Rightarrow> nat \<Rightarrow> nat option" where
  "strcspn_loop m p reject count =
     (if p < length m
      then (if m ! p = 0 then Some count
            else (case in_set_at m reject (m ! p) of None \<Rightarrow> None
                  | Some b \<Rightarrow> if b then Some count else strcspn_loop m (p + 1) reject (count + 1)))
      else None)"
  by pat_completeness auto
termination
  by (relation "measure (\<lambda>(m, p, r, c). length m - p)") auto

declare strcspn_loop.simps [simp del]

definition strcspn :: "mem \<Rightarrow> ptr \<Rightarrow> ptr \<Rightarrow> nat option" where
  "strcspn m s reject = strcspn_loop m s reject 0"

text \<open>\<^verbatim>\<open>malloc\<close> is a parameter: the block it gives for a size, or null.\<close>

definition strdup :: "(mem \<Rightarrow> nat \<Rightarrow> (mem \<times> ptr) option) \<Rightarrow> mem \<Rightarrow> ptr option
    \<Rightarrow> (mem \<times> ptr option) option" where
  "strdup malloc m s =
     (case s of None \<Rightarrow> Some (m, None)
      | Some p \<Rightarrow>
          do { n \<leftarrow> strlen m p;
               (case malloc m (n + 1) of
                  None \<Rightarrow> Some (m, None)
                | Some (m', new) \<Rightarrow> do { (m'', q) \<leftarrow> strcpy m' new p; Some (m'', Some new) }) })"

function strspn_loop :: "mem \<Rightarrow> ptr \<Rightarrow> ptr \<Rightarrow> nat \<Rightarrow> nat option" where
  "strspn_loop m p accept count =
     (if p < length m
      then (if m ! p = 0 then Some count
            else (case in_set_at m accept (m ! p) of None \<Rightarrow> None
                  | Some b \<Rightarrow> if b then strspn_loop m (p + 1) accept (count + 1) else Some count))
      else None)"
  by pat_completeness auto
termination
  by (relation "measure (\<lambda>(m, p, r, c). length m - p)") auto

declare strspn_loop.simps [simp del]

definition strspn :: "mem \<Rightarrow> ptr \<Rightarrow> ptr \<Rightarrow> nat option" where
  "strspn m s accept = strspn_loop m s accept 0"

function strpbrk :: "mem \<Rightarrow> ptr \<Rightarrow> ptr \<Rightarrow> ptr option option" where
  "strpbrk m sc1 ct =
     (if sc1 < length m
      then (if m ! sc1 = 0 then Some None
            else (case in_set_at m ct (m ! sc1) of None \<Rightarrow> None
                  | Some b \<Rightarrow> if b then Some (Some sc1) else strpbrk m (sc1 + 1) ct))
      else None)"
  by pat_completeness auto
termination
  by (relation "measure (\<lambda>(m, p, r). length m - p)") auto

declare strpbrk.simps [simp del]

text \<open>\<^verbatim>\<open>strtok\<close> keeps the static pointer \<^verbatim>\<open>___strtok\<close>; it is passed in and out.\<close>

definition strtok :: "mem \<Rightarrow> ptr option \<Rightarrow> ptr option \<Rightarrow> ptr
    \<Rightarrow> (mem \<times> ptr option \<times> ptr option) option" where
  "strtok m saved s ct =
     (case (case s of Some p \<Rightarrow> Some p | None \<Rightarrow> saved) of
        None \<Rightarrow> Some (m, saved, None)
      | Some b \<Rightarrow>
          do { k \<leftarrow> strspn m b ct;
               let sbegin = b + k;
               c \<leftarrow> rd m sbegin;
               if c = 0 then Some (m, None, None)
               else do { send \<leftarrow> strpbrk m sbegin ct;
                         (case send of
                            None \<Rightarrow> Some (m, None, Some sbegin)
                          | Some e \<Rightarrow>
                              do { x \<leftarrow> rd m e;
                                   if x \<noteq> 0
                                   then do { m' \<leftarrow> wr m e 0; Some (m', Some (e + 1), Some sbegin) }
                                   else Some (m, Some e, Some sbegin) }) } })"

definition strsep :: "mem \<Rightarrow> ptr option \<Rightarrow> ptr \<Rightarrow> (mem \<times> ptr option \<times> ptr option) option" where
  "strsep m s ct =
     (case s of
        None \<Rightarrow> Some (m, s, None)
      | Some sbegin \<Rightarrow>
          do { e \<leftarrow> strpbrk m sbegin ct;
               (case e of
                  None \<Rightarrow> Some (m, None, Some sbegin)
                | Some q \<Rightarrow> do { m' \<leftarrow> wr m q 0; Some (m', Some (q + 1), Some sbegin) }) })"

function strswab_loop :: "mem \<Rightarrow> ptr \<Rightarrow> mem option" where
  "strswab_loop m p =
     (if p < length m
      then (if m ! p = 0 then Some m
            else if p + 1 < length m
            then (if m ! (p + 1) = 0 then Some m
                  else strswab_loop (m[p := m ! (p + 1), p + 1 := m ! p]) (p + 2))
            else None)
      else None)"
  by pat_completeness auto
termination
  by (relation "measure (\<lambda>(m, p). length m - p)") auto

declare strswab_loop.simps [simp del]

definition strswab :: "mem \<Rightarrow> ptr option \<Rightarrow> (mem \<times> ptr option) option" where
  "strswab m s =
     (case s of None \<Rightarrow> Some (m, None)
      | Some p \<Rightarrow> do { c \<leftarrow> rd m p;
                       if c = 0 then Some (m, None)
                       else do { m' \<leftarrow> strswab_loop m p; Some (m', Some p) } })"

section \<open>Blocks of memory\<close>

fun fill_bytes :: "mem \<Rightarrow> ptr \<Rightarrow> u8 \<Rightarrow> nat \<Rightarrow> mem option" where
  "fill_bytes m s c 0 = Some m"
| "fill_bytes m s c (Suc count) = do { m' \<leftarrow> wr m s c; fill_bytes m' (s + 1) c count }"

fun fill_words :: "mem \<Rightarrow> ptr \<Rightarrow> u64 \<Rightarrow> nat \<Rightarrow> (mem \<times> ptr \<times> nat) option" where
  "fill_words m s cl count =
     (if count \<ge> 8 then do { m' \<leftarrow> wr64 m s (le_bytes cl); fill_words m' (s + 8) cl (count - 8) }
      else Some (m, s, count))"

declare fill_words.simps [simp del]

text \<open>\<^verbatim>\<open>for (i = 0; i < 8; i++) { cl <<= 8; cl |= c & 0xff; }\<close>\<close>

definition memset_word :: "u8 \<Rightarrow> u64" where
  "memset_word c = ((\<lambda>cl. push_bit 8 cl OR ucast c) ^^ 8) 0"

definition memset :: "mem \<Rightarrow> ptr \<Rightarrow> u8 \<Rightarrow> nat \<Rightarrow> mem option" where
  "memset m s c count =
     (if (of_nat s :: u64) AND 7 = 0
      then do { (m', s8, n) \<leftarrow> fill_words m s (memset_word c) count; fill_bytes m' s8 c n }
      else fill_bytes m s c count)"

text \<open>The backward loop of \<^verbatim>\<open>memmove\<close>: \<^verbatim>\<open>tmp\<close> and \<^verbatim>\<open>s\<close> stand \<open>count\<close> bytes above
  the two areas.\<close>

fun copy_bytes_down :: "mem \<Rightarrow> ptr \<Rightarrow> ptr \<Rightarrow> nat \<Rightarrow> mem option" where
  "copy_bytes_down m dest src 0 = Some m"
| "copy_bytes_down m dest src (Suc count) =
     do { c \<leftarrow> rd m (src + count); m' \<leftarrow> wr m (dest + count) c; copy_bytes_down m' dest src count }"

definition memmove :: "mem \<Rightarrow> ptr \<Rightarrow> ptr \<Rightarrow> nat \<Rightarrow> mem option" where
  "memmove m dest src count =
     (if dest \<le> src then memcpy m dest src count else copy_bytes_down m dest src count)"

fun memcmp :: "mem \<Rightarrow> ptr \<Rightarrow> ptr \<Rightarrow> nat \<Rightarrow> int option" where
  "memcmp m cs ct 0 = Some 0"
| "memcmp m cs ct (Suc count) =
     do { a \<leftarrow> rd m cs;
          b \<leftarrow> rd m ct;
          if uint a - uint b \<noteq> 0 then Some (uint a - uint b)
          else memcmp m (cs + 1) (ct + 1) count }"

fun memscan :: "mem \<Rightarrow> ptr \<Rightarrow> int \<Rightarrow> nat \<Rightarrow> ptr option" where
  "memscan m p c 0 = Some p"
| "memscan m p c (Suc sz) =
     do { x \<leftarrow> rd m p; if uint x = c then Some p else memscan m (p + 1) c sz }"

text \<open>The loop of \<^verbatim>\<open>strstr\<close>; \<open>k\<close> counts the iterations left, \<^verbatim>\<open>l1 - l2 + 1\<close>.\<close>

fun strstr_loop :: "mem \<Rightarrow> ptr \<Rightarrow> ptr \<Rightarrow> nat \<Rightarrow> nat \<Rightarrow> ptr option option" where
  "strstr_loop m s1 s2 l2 0 = Some None"
| "strstr_loop m s1 s2 l2 (Suc k) =
     do { r \<leftarrow> memcmp m s1 s2 l2;
          if r = 0 then Some (Some s1) else strstr_loop m (s1 + 1) s2 l2 k }"

definition strstr :: "mem \<Rightarrow> ptr \<Rightarrow> ptr \<Rightarrow> ptr option option" where
  "strstr m s1 s2 =
     do { l2 \<leftarrow> strlen m s2;
          if l2 = 0 then Some (Some s1)
          else do { l1 \<leftarrow> strlen m s1; strstr_loop m s1 s2 l2 (l1 + 1 - l2) } }"

fun memchr :: "mem \<Rightarrow> ptr \<Rightarrow> u8 \<Rightarrow> nat \<Rightarrow> ptr option option" where
  "memchr m p c 0 = Some None"
| "memchr m p c (Suc n) =
     do { x \<leftarrow> rd m p; if c = x then Some (Some p) else memchr m (p + 1) c n }"

fun check_bytes8 :: "mem \<Rightarrow> ptr \<Rightarrow> u8 \<Rightarrow> nat \<Rightarrow> ptr option option" where
  "check_bytes8 m start value 0 = Some None"
| "check_bytes8 m start value (Suc bytes) =
     do { x \<leftarrow> rd m start;
          if x \<noteq> value then Some (Some start) else check_bytes8 m (start + 1) value bytes }"

definition memchr_inv_word :: "u8 \<Rightarrow> u64" where
  "memchr_inv_word value =
     (let v1 = ucast value :: u64; v2 = v1 OR push_bit 8 v1; v3 = v2 OR push_bit 16 v2
      in v3 OR push_bit 32 v3)"

fun memchr_inv_words :: "mem \<Rightarrow> ptr \<Rightarrow> u8 \<Rightarrow> nat \<Rightarrow> nat \<Rightarrow> ptr option option" where
  "memchr_inv_words m start value 0 rest = check_bytes8 m start value rest"
| "memchr_inv_words m start value (Suc words) rest =
     do { w \<leftarrow> rd64 m start;
          if w \<noteq> le_bytes (memchr_inv_word value) then check_bytes8 m start value 8
          else memchr_inv_words m (start + 8) value words rest }"

text \<open>\<^verbatim>\<open>words\<close> is an \<^verbatim>\<open>unsigned int\<close>, hence the reduction.\<close>

definition memchr_inv :: "mem \<Rightarrow> ptr \<Rightarrow> u8 \<Rightarrow> nat \<Rightarrow> ptr option option" where
  "memchr_inv m start value bytes =
     (if bytes \<le> 16 then check_bytes8 m start value bytes
      else (let prefix = start mod 8 in
        if prefix \<noteq> 0 then
          (let prefix' = 8 - prefix in
           do { r \<leftarrow> check_bytes8 m start value prefix';
                (case r of
                   Some q \<Rightarrow> Some (Some q)
                 | None \<Rightarrow> memchr_inv_words m (start + prefix') value
                     ((bytes - prefix') div 8 mod 2 ^ 32) ((bytes - prefix') mod 8)) })
        else memchr_inv_words m start value (bytes div 8 mod 2 ^ 32) (bytes mod 8)))"


section \<open>Copying\<close>

lemma copy_bytes_run:
  "\<lbrakk>d + n \<le> length m; s + n \<le> length m; d \<le> s \<or> s + n \<le> d\<rbrakk> \<Longrightarrow>
   copy_bytes m d s n = Some (put_seg m d (seg m s n))"
proof (induction n arbitrary: m d s)
  case (Suc n)
  then have "copy_bytes (m[d := m ! s]) (d + 1) (s + 1) n =
      Some (put_seg (m[d := m ! s]) (d + 1) (seg (m[d := m ! s]) (s + 1) n))"
    by (intro Suc.IH) auto
  with Suc.prems show ?case by (auto simp: seg_Suc put_seg_Cons)
qed simp

lemma copy_words_bytes_run:
  "\<lbrakk>d + n \<le> length m; s + n \<le> length m; d \<le> s \<or> s + n \<le> d\<rbrakk> \<Longrightarrow>
   do { (m', d', s', c) \<leftarrow> copy_words m d s n; copy_bytes m' d' s' c } =
     Some (put_seg m d (seg m s n))"
proof (induction m d s n rule: copy_words.induct)
  case (1 m d s n)
  show ?case
  proof (cases "n \<ge> 8")
    case False
    then show ?thesis using 1 by (simp add: copy_words.simps copy_bytes_run)
  next
    case True
    define m1 where "m1 = put_seg m d (seg m s 8)"
    have len: "length m1 = length m" using True 1 by (simp add: m1_def)
    have rw: "rd64 m s = Some (seg m s 8)" "wr64 m d (seg m s 8) = Some m1"
      using True 1 by (auto simp: rd64_def wr64_def m1_def)
    have rest: "seg m1 (s + 8) (n - 8) = seg m (s + 8) (n - 8)"
      unfolding m1_def by (rule seg_put_seg_disjoint) (use True 1 in auto)
    have "do { (m', d', s', c) \<leftarrow> copy_words m1 (d + 8) (s + 8) (n - 8); copy_bytes m' d' s' c } =
        Some (put_seg m1 (d + 8) (seg m1 (s + 8) (n - 8)))"
      by (rule "1.IH" [OF True]) (use True 1 len rw in auto)
    moreover have "put_seg m1 (d + 8) (seg m (s + 8) (n - 8)) = put_seg m d (seg m s n)"
      using True 1 put_seg_append [of d "seg m s 8" "seg m (s + 8) (n - 8)" m]
      by (simp add: m1_def seg_add [symmetric])
    ultimately show ?thesis
      using True rw rest by (simp add: copy_words.simps [of m d s n])
  qed
qed

lemma memcpy_run:
  assumes "d + n \<le> length m" "s + n \<le> length m" "d \<le> s \<or> s + n \<le> d"
  shows "memcpy m d s n = Some (put_seg m d (seg m s n))"
  using copy_words_bytes_run [OF assms] copy_bytes_run [OF assms] assms by (auto simp: memcpy_def)

lemma copy_bytes_down_run:
  "\<lbrakk>d + n \<le> length m; s < d\<rbrakk> \<Longrightarrow> copy_bytes_down m d s n = Some (put_seg m d (seg m s n))"
proof (induction n arbitrary: m)
  case (Suc n)
  let ?m = "m[d + n := m ! (s + n)]"
  have "copy_bytes_down ?m d s n = Some (put_seg ?m d (seg ?m s n))"
    by (rule Suc.IH) (use Suc.prems in auto)
  moreover have "length (seg m s n) = n" using Suc.prems by simp
  then have "put_seg ?m d (seg m s n) = put_seg m d (seg m s (Suc n))"
    using Suc.prems put_seg_snoc [of d "seg m s n" m] by (simp add: seg_Suc_right)
  ultimately show ?case using Suc.prems by simp
qed simp

lemma memmove_run:
  assumes "d + n \<le> length m" "s + n \<le> length m"
  shows "memmove m d s n = Some (put_seg m d (seg m s n))"
  using assms memcpy_run [of d n m s] copy_bytes_down_run [of d n m s] by (auto simp: memmove_def)

text \<open> \<^verbatim>\<open>memmove\<close> copies correctly however the two areas overlap: inside the region it
  never faults, the destination holds the bytes the source held before the call, and no other byte
  changes.  Both the word-at-a-time forward copy and the backward copy are covered.
\<close>

theorem memmove_correct:
  assumes "dest + count \<le> length m" and "src + count \<le> length m"
  shows "memmove m dest src count = Some (put_seg m dest (seg m src count))"
  by (rule memmove_run [OF assms])

theorem memmove_correct_witness:
  "memmove [1, 2, 3, 4, 5] 1 0 3 = Some [1, 1, 2, 3, 5] \<and>
   memmove [1, 2, 3, 4, 5] 0 1 4 = Some [2, 3, 4, 5, 5]"
  using memmove_correct [of 1 3 "[1, 2, 3, 4, 5]" 0] memmove_correct [of 0 4 "[1, 2, 3, 4, 5]" 1]
  by (simp add: put_seg_def seg_def numeral_eq_Suc)


section \<open>Filling and scanning whole words\<close>

lemma bit_u8: "bit (c :: u8) n \<Longrightarrow> n < 8"
  using bit_imp_le_length [of c n] by simp

text \<open>\<open>repeats c l w\<close>: the low \<open>l\<close> bits of \<open>w\<close> are copies of the byte \<open>c\<close>, the rest is 0.\<close>

definition repeats :: "u8 \<Rightarrow> nat \<Rightarrow> u64 \<Rightarrow> bool" where
  "repeats c l w \<longleftrightarrow> (\<forall>n < 64. bit w n \<longleftrightarrow> n < l \<and> bit c (n mod 8))"

lemma repeats_byte: "repeats c 8 (ucast c)"
  unfolding repeats_def
proof (intro allI impI)
  fix n :: nat assume "n < 64"
  then show "bit (ucast c :: u64) n \<longleftrightarrow> n < 8 \<and> bit c (n mod 8)"
    by (cases "n < 8") (auto simp: bit_simps dest: bit_u8)
qed

lemma repeats_double:
  assumes "repeats c l w" "l mod 8 = 0"
  shows "repeats c (2 * l) (w OR push_bit l w)"
  unfolding repeats_def
proof (intro allI impI)
  fix n :: nat assume n: "n < 64"
  have "(n - l) mod 8 = n mod 8" if "l \<le> n"
    using that assms(2) by (metis add_0 le_add_diff_inverse mod_add_left_eq)
  then show "bit (w OR push_bit l w) n \<longleftrightarrow> n < 2 * l \<and> bit c (n mod 8)"
    using assms(1) n by (auto simp: repeats_def bit_simps)
qed

lemma repeats_shift:
  assumes "repeats c l w"
  shows "repeats c (l + 8) (push_bit 8 w OR ucast c)"
  unfolding repeats_def
proof (intro allI impI)
  fix n :: nat assume n: "n < 64"
  have "(n - 8) mod 8 = n mod 8" if "8 \<le> n" using that by (simp add: le_mod_geq)
  then show "bit (push_bit 8 w OR ucast c) n \<longleftrightarrow> n < l + 8 \<and> bit c (n mod 8)"
    using assms n by (cases "n < 8") (auto simp: repeats_def bit_simps dest: bit_u8)
qed

lemma repeats_memset_word: "repeats c 64 (memset_word c)"
proof -
  have "repeats c (8 * k) (((\<lambda>cl. push_bit 8 cl OR ucast c) ^^ k) 0)" for k
  proof (induction k)
    case 0
    show ?case by (simp add: repeats_def)
  next
    case (Suc k)
    then show ?case using repeats_shift by (fastforce simp: add.commute)
  qed
  from this [of 8] show ?thesis by (simp add: memset_word_def)
qed

lemma repeats_memchr_inv_word: "repeats c 64 (memchr_inv_word c)"
proof -
  let ?v1 = "ucast c :: u64"
  let ?v2 = "?v1 OR push_bit 8 ?v1"
  let ?v3 = "?v2 OR push_bit 16 ?v2"
  have "repeats c 16 ?v2" using repeats_double [OF repeats_byte] by simp
  then have "repeats c 32 ?v3" using repeats_double by fastforce
  then have "repeats c 64 (?v3 OR push_bit 32 ?v3)" using repeats_double by fastforce
  then show ?thesis by (simp add: memchr_inv_word_def Let_def)
qed

lemma le_bytes_repeats:
  assumes "repeats c 64 w"
  shows "le_bytes w = replicate 8 c"
proof (rule nth_equalityI)
  fix i assume "i < length (le_bytes w)"
  then have i: "i < 8" by (simp add: le_bytes_def)
  have "ucast (drop_bit (8 * i) w) = c"
    by (rule bit_word_eqI) (use i assms in \<open>simp add: bit_simps repeats_def\<close>)
  then show "le_bytes w ! i = replicate 8 c ! i" using i by (simp add: le_bytes_def)
qed (simp add: le_bytes_def)

lemma fill_bytes_run:
  "s + n \<le> length m \<Longrightarrow> fill_bytes m s c n = Some (put_seg m s (replicate n c))"
  by (induction n arbitrary: m s) (auto simp: put_seg_Cons)

lemma fill_words_bytes_run:
  "\<lbrakk>le_bytes cl = replicate 8 c; s + n \<le> length m\<rbrakk> \<Longrightarrow>
    do { (m', s8, k) \<leftarrow> fill_words m s cl n; fill_bytes m' s8 c k } =
      Some (put_seg m s (replicate n c))"
proof (induction m s cl n rule: fill_words.induct)
  case (1 m s cl n)
  show ?case
  proof (cases "n \<ge> 8")
    case False
    then show ?thesis using 1 by (simp add: fill_words.simps fill_bytes_run)
  next
    case True
    define m1 where "m1 = put_seg m s (replicate 8 c)"
    have "s + 8 \<le> length m" using True "1.prems" by simp
    then have len: "length m1 = length m" by (simp add: m1_def)
    have w: "wr64 m s (le_bytes cl) = Some m1"
      using True "1.prems" by (simp add: wr64_def m1_def)
    have "do { (m', s8, k) \<leftarrow> fill_words m1 (s + 8) cl (n - 8); fill_bytes m' s8 c k } =
        Some (put_seg m1 (s + 8) (replicate (n - 8) c))"
      by (rule "1.IH" [OF True w]) (use True "1.prems" len in auto)
    moreover have "put_seg m1 (s + 8) (replicate (n - 8) c) = put_seg m s (replicate n c)"
      using True "1.prems" put_seg_append [of s "replicate 8 c" "replicate (n - 8) c" m]
      by (simp add: m1_def replicate_add [symmetric])
    ultimately show ?thesis using True w by (simp add: fill_words.simps [of m s cl n])
  qed
qed

lemma memset_run: "s + n \<le> length m \<Longrightarrow> memset m s c n = Some (put_seg m s (replicate n c))"
  by (simp add: memset_def fill_bytes_run
      fill_words_bytes_run [OF le_bytes_repeats [OF repeats_memset_word]])

lemma check_bytes8_add:
  "check_bytes8 m p v (k + n) =
     do { r \<leftarrow> check_bytes8 m p v k; (case r of Some q \<Rightarrow> Some (Some q) | None \<Rightarrow> check_bytes8 m (p + k) v n) }"
  by (induction k arbitrary: p) (auto simp: bind_eq_None_conv split: option.splits bind_split)


lemma find_map: "find P (map f xs) = map_option f (find (P \<circ> f) xs)"
  by (induction xs) auto

lemma check_bytes8_find:
  "p + n \<le> length m \<Longrightarrow>
   check_bytes8 m p v n = Some (map_option ((+) p) (find (\<lambda>i. m ! (p + i) \<noteq> v) [0..<n]))"
proof (induction n arbitrary: p)
  case (Suc n)
  have "find (\<lambda>i. m ! (p + i) \<noteq> v) [0..<Suc n] =
      (if m ! p \<noteq> v then Some 0 else map_option Suc (find (\<lambda>i. m ! (p + Suc i) \<noteq> v) [0..<n]))"
    by (simp add: upt_conv_Cons map_Suc_upt [symmetric] find_map comp_def del: upt_Suc)
  then show ?case using Suc by (auto simp: option.map_comp comp_def simp del: upt_Suc)
qed simp

lemma check_bytes8_None_iff:
  "p + n \<le> length m \<Longrightarrow> check_bytes8 m p v n = Some None \<longleftrightarrow> seg m p n = replicate n v"
  by (induction n arbitrary: p) (auto simp: seg_Suc)

lemma memchr_inv_words_run:
  "p + 8 * w + r \<le> length m \<Longrightarrow> memchr_inv_words m p v w r = check_bytes8 m p v (8 * w + r)"
proof (induction w arbitrary: p)
  case (Suc w)
  obtain q where q: "check_bytes8 m p v 8 = Some q"
    using Suc.prems by (simp add: check_bytes8_find)
  have "q = None \<longleftrightarrow> seg m p 8 = replicate 8 v"
    using check_bytes8_None_iff [of p 8 m v] Suc.prems q by simp
  moreover have "check_bytes8 m p v (8 * Suc w + r) =
      (case q of Some q \<Rightarrow> Some (Some q) | None \<Rightarrow> check_bytes8 m (p + 8) v (8 * w + r))"
    using check_bytes8_add [of m p v 8 "8 * w + r"] q by (simp add: add.assoc)
  ultimately show ?case
    using Suc.prems Suc.IH [of "p + 8"] q
    by (auto simp: rd64_def le_bytes_repeats [OF repeats_memchr_inv_word] split: option.splits)
qed simp

text \<open> \<^verbatim>\<open>memchr_inv\<close>, which compares eight bytes at a time between an unaligned prefix and
  a tail, finds the first byte that differs from the given one, and null when there is none; below
  \<^verbatim>\<open>2^35\<close> bytes, where the word count fits its \<^verbatim>\<open>unsigned int\<close>.
\<close>

theorem memchr_inv_correct:
  assumes "start + bytes \<le> length m" and "bytes < 2 ^ 35"
  shows "memchr_inv m start v bytes =
    Some (map_option ((+) start) (find (\<lambda>i. m ! (start + i) \<noteq> v) [0..<bytes]))"
proof -
  have "memchr_inv m start v bytes = check_bytes8 m start v bytes"
  proof (cases "bytes \<le> 16")
    case True
    then show ?thesis by (simp add: memchr_inv_def)
  next
    case big: False
    have words: "memchr_inv_words m p v (n div 8 mod 2 ^ 32) (n mod 8) = check_bytes8 m p v n"
      if "p + n \<le> length m" "n \<le> bytes" for p n
    proof -
      have "n div 8 mod 2 ^ 32 = n div 8" using that assms(2) by simp
      then show ?thesis using memchr_inv_words_run [of p "n div 8" "n mod 8" m v] that by simp
    qed
    show ?thesis
    proof (cases "start mod 8 = 0")
      case True
      then show ?thesis using big words assms(1) by (simp add: memchr_inv_def)
    next
      case False
      define k where "k = 8 - start mod 8"
      have k: "k \<le> bytes" using big by (simp add: k_def)
      have "memchr_inv m start v bytes =
        do { r \<leftarrow> check_bytes8 m start v k;
             (case r of Some q \<Rightarrow> Some (Some q) | None \<Rightarrow> check_bytes8 m (start + k) v (bytes - k)) }"
        using False big k assms(1) words [of "start + k" "bytes - k"]
        by (simp add: memchr_inv_def Let_def k_def [symmetric] cong: option.case_cong)
      also have "\<dots> = check_bytes8 m start v bytes"
        using check_bytes8_add [of m start v k "bytes - k"] k by simp
      finally show ?thesis .
    qed
  qed
  then show ?thesis using assms(1) by (simp add: check_bytes8_find)
qed

theorem memchr_inv_correct_witness:
  "memchr_inv (replicate 20 7 @ [9, 7, 7, 7]) 3 7 20 = Some (Some 20)"
  using memchr_inv_correct [of 3 20 "replicate 20 7 @ [9, 7, 7, 7]" 7]
  by (simp add: upt_rec nth_append)

section \<open>Strings\<close>

lemma strend_cstring: "cstring m p s \<Longrightarrow> strend m p = Some (p + length s)"
proof (induction s arbitrary: p)
  case Nil
  then show ?case by (simp add: cstring_Nil strend.simps [of m p])
next
  case (Cons c s)
  then show ?case by (simp add: cstring_Cons strend.simps [of m p])
qed

lemma strlen_cstring: "cstring m p s \<Longrightarrow> strlen m p = Some (length s)"
  by (simp add: strlen_def strend_cstring)

lemma sint_eq_0 [simp]: "sint (w :: 'a :: len word) = 0 \<longleftrightarrow> w = 0"
  by (metis signed_0 signed_word_eqI)

lemma strcmp_cstring:
  "\<lbrakk>cstring m p s; cstring m q t\<rbrakk> \<Longrightarrow> \<exists>r. strcmp m p q = Some r \<and> (r = 0 \<longleftrightarrow> s = t)"
proof (induction s arbitrary: p q t)
  case Nil
  then show ?case
    by (cases t) (auto simp: cstring_Nil cstring_Cons strcmp.simps [of m p] Let_def)
next
  case (Cons c s)
  then show ?case
  proof (cases t)
    case Nil
    then show ?thesis using Cons.prems
      by (auto simp: cstring_Nil cstring_Cons strcmp.simps [of m p] Let_def)
  next
    case t: (Cons d t')
    then show ?thesis using Cons.prems Cons.IH [of "p + 1" "q + 1" t']
      by (auto simp: cstring_Cons strcmp.simps [of m p] Let_def)
  qed
qed

text \<open> \<^verbatim>\<open>strlcpy\<close> into a buffer of \<open>sz\<close> bytes apart from the source: it returns the
  length of the source, the buffer then holds the source cut to \<open>sz - 1\<close> bytes and terminated, and
  no byte outside the buffer changes.
\<close>

theorem strlcpy_correct:
  assumes "cstring m src s" and "0 < sz" and "dest + sz \<le> length m"
    and "dest + sz \<le> src \<or> src + length s < dest"
  shows "\<exists>m'. strlcpy m dest src sz = Some (m', length s) \<and> cstring m' dest (take (sz - 1) s)
    \<and> length m' = length m
    \<and> (\<forall>i < length m. i < dest \<or> dest + sz \<le> i \<longrightarrow> m' ! i = m ! i)"
proof -
  define n where "n = min (sz - 1) (length s)"
  have n: "n \<le> length s" "n < sz" "src + n < length m"
    using assms(1,2) by (auto simp: n_def cstring_def)
  define m1 where "m1 = put_seg m dest (take n s)"
  have len: "length m1 = length m" using n assms(3) by (simp add: m1_def)
  have "seg m src n = take n s"
    using arg_cong [OF cstring_seg [OF assms(1)], of "take n"] n(1) by (simp add: seg_def min_def)
  then have cp: "memcpy m dest src n = Some m1"
    using memcpy_run [of dest n m src] n assms(3,4) by (auto simp: m1_def)
  have "(if length s \<ge> sz then sz - 1 else length s) = n"
    using assms(2) by (auto simp: n_def)
  then have run: "strlcpy m dest src sz = Some (m1[dest + n := 0], length s)"
    using assms(2,3) n len cp by (simp add: strlcpy_def strlen_cstring [OF assms(1)] Let_def)
  have at: "m1[dest + n := 0] ! i = (if i = dest + n then 0 else if dest \<le> i \<and> i < dest + n
      then s ! (i - dest) else m ! i)" if "i < length m" for i
    using that n assms(3) len by (auto simp: m1_def nth_put_seg)
  have "cstring (m1[dest + n := 0]) dest (take (sz - 1) s)"
  proof (rule cstringI)
    show "0 \<notin> set (take (sz - 1) s)" using assms(1) by (auto simp: cstring_def dest: in_set_takeD)
    have l: "length (take (sz - 1) s) = n" by (simp add: n_def)
    show "dest + length (take (sz - 1) s) < length (m1[dest + n := 0])"
      using l n assms(3) len by simp
    show "m1[dest + n := 0] ! (dest + i) = take (sz - 1) s ! i" if "i < length (take (sz - 1) s)" for i
    proof -
      have "i < n" using that l by (simp only:)
      moreover from this have "i < sz - 1" by (simp add: n_def)
      ultimately show ?thesis using n assms(3) at [of "dest + i"] by simp
    qed
    show "m1[dest + n := 0] ! (dest + length (take (sz - 1) s)) = 0"
      using l n assms(3) at [of "dest + n"] by simp
  qed
  moreover have "m1[dest + n := 0] ! i = m ! i" if "i < length m" "i < dest \<or> dest + sz \<le> i" for i
    using that n at [of i] by auto
  ultimately show ?thesis
    using run len by (intro exI [of _ "m1[dest + n := 0]"]) (simp only: length_list_update, blast)
qed


theorem strlcpy_correct_witness:
  "\<exists>m'. strlcpy [65, 66, 67, 0, 9, 9, 9, 9] 4 0 3 = Some (m', 3) \<and> cstring m' 4 [65, 66]
    \<and> length m' = 8 \<and> (\<forall>i < 8. i < 4 \<or> 7 \<le> i \<longrightarrow> m' ! i = [65, 66, 67, 0, 9, 9, 9, 9 :: u8] ! i)"
proof -
  have "cstring [65, 66, 67, 0, 9, 9, 9, 9] 0 [65, 66, 67]" by code_simp
  from strlcpy_correct [OF this, of 3 4] show ?thesis by (simp add: eval_nat_numeral)
qed

section \<open>Searching for a substring\<close>

lemma memcmp_eq_iff:
  "\<lbrakk>p + n \<le> length m; q + n \<le> length m\<rbrakk> \<Longrightarrow>
   \<exists>r. memcmp m p q n = Some r \<and> (r = 0 \<longleftrightarrow> seg m p n = seg m q n)"
proof (induction n arbitrary: p q)
  case (Suc n)
  obtain r where r: "memcmp m (p + 1) (q + 1) n = Some r"
    "r = 0 \<longleftrightarrow> seg m (p + 1) n = seg m (q + 1) n"
    using Suc.IH [of "p + 1" "q + 1"] Suc.prems by auto
  have "uint (m ! p) - uint (m ! q) = 0 \<longleftrightarrow> m ! p = m ! q"
    by (simp add: word_uint_eq_iff)
  then show ?case using Suc.prems r by (simp add: seg_Suc)
qed simp

lemma strstr_loop_run:
  "\<lbrakk>0 < k \<Longrightarrow> p + k + l \<le> length m + 1; q + l \<le> length m\<rbrakk> \<Longrightarrow>
   strstr_loop m p q l k =
     Some (map_option ((+) p) (find (\<lambda>i. seg m (p + i) l = seg m q l) [0..<k]))"
proof (induction k arbitrary: p)
  case (Suc k)
  obtain r where r: "memcmp m p q l = Some r" "r = 0 \<longleftrightarrow> seg m p l = seg m q l"
    using memcmp_eq_iff [of p l m q] Suc.prems by auto
  have "find (\<lambda>i. seg m (p + i) l = seg m q l) [0..<Suc k] = (if seg m p l = seg m q l then Some 0
      else map_option Suc (find (\<lambda>i. seg m (p + Suc i) l = seg m q l) [0..<k]))"
    by (simp add: upt_conv_Cons map_Suc_upt [symmetric] find_map comp_def del: upt_Suc)
  then show ?case
    using Suc.IH [of "p + 1"] Suc.prems r by (auto simp: option.map_comp comp_def simp del: upt_Suc)
qed simp

lemma seg_cstring:
  "cstring m p s \<Longrightarrow> i + l \<le> length s \<Longrightarrow> seg m (p + i) l = seg s i l"
  using cstring_seg [of m p s]
  by (intro nth_equalityI) (auto simp: cstring_def cstring_nth [of m p s, symmetric] add.assoc)

text \<open> \<^verbatim>\<open>strstr\<close> on two strings returns the first place where the second occurs in the
  first, and null when it does not occur.
\<close>

theorem strstr_correct:
  assumes "cstring m p s" and "cstring m q t"
  shows "strstr m p q =
    Some (map_option ((+) p) (find (\<lambda>i. seg s i (length t) = t) [0..<length s + 1 - length t]))"
proof (cases "t = []")
  case True
  then show ?thesis using assms by (simp add: strstr_def strlen_cstring upt_conv_Cons del: upt_Suc)
next
  case False
  let ?k = "length s + 1 - length t"
  have q: "seg m q (length t) = t" using assms(2) by (rule cstring_seg)
  have "strstr m p q = strstr_loop m p q (length t) ?k"
    using False assms by (simp add: strstr_def strlen_cstring)
  also have "\<dots> = Some (map_option ((+) p)
      (find (\<lambda>i. seg m (p + i) (length t) = seg m q (length t)) [0..<?k]))"
  proof (rule strstr_loop_run)
    show "p + ?k + length t \<le> length m + 1" if "0 < ?k"
      using that cstring_bound [OF assms(1)] cstring_bound [OF assms(2)] by arith
    show "q + length t \<le> length m" using cstring_bound [OF assms(2)] by simp
  qed
  also have "find (\<lambda>i. seg m (p + i) (length t) = seg m q (length t)) [0..<?k] =
      find (\<lambda>i. seg s i (length t) = t) [0..<?k]"
    by (rule find_cong) (auto simp: q seg_cstring [OF assms(1)])
  finally show ?thesis .
qed

theorem strstr_correct_witness:
  "strstr [97, 98, 97, 98, 99, 0, 97, 98, 99, 0] 0 6 = Some (Some 2)"
proof -
  have "cstring [97, 98, 97, 98, 99, 0, 97, 98, 99, 0] 0 [97, 98, 97, 98, 99]"
    and "cstring [97, 98, 97, 98, 99, 0, 97, 98, 99, 0] 6 [97, 98, 99]"
    by code_simp+
  from strstr_correct [OF this] show ?thesis by (simp add: seg_def upt_rec)
qed

end
