(* ===== verification/Sha1.thy ===== *)
theory Sha1
  imports C_String
begin

text \<open>
  The SHA-1 of \<^verbatim>\<open>lib/sha1.c\<close>, which checks the password of the boot prompt.  On the target
  \<^verbatim>\<open>unsigned long\<close> has 64 bits, so the context, the message schedule and the five working
  variables are \<^typ>\<open>u64\<close> and the high halves hold whatever the 32-bit algorithm shifted out of
  its words.  The code is compared with the algorithm of FIPS 180 on 32-bit words.
\<close>

section \<open>Definitions\<close>

unbundle bit_operations_syntax

record sha1_context =
  total :: "u64 list"
  state :: "u64 list"
  buffer :: "u8 list"

definition GET_UINT32_BE :: "u8 list \<Rightarrow> nat \<Rightarrow> u64" where
  "GET_UINT32_BE b i = push_bit 24 (ucast (b ! i)) OR push_bit 16 (ucast (b ! (i + 1)))
     OR push_bit 8 (ucast (b ! (i + 2))) OR ucast (b ! (i + 3))"

text \<open>The four bytes that are stored.\<close>

definition PUT_UINT32_BE :: "u64 \<Rightarrow> u8 list" where
  "PUT_UINT32_BE n = [ucast (drop_bit 24 n), ucast (drop_bit 16 n), ucast (drop_bit 8 n), ucast n]"

definition sha1_starts :: "u8 list \<Rightarrow> sha1_context" where
  "sha1_starts buf = \<lparr>total = [0, 0],
     state = [0x67452301, 0xEFCDAB89, 0x98BADCFE, 0x10325476, 0xC3D2E1F0], buffer = buf\<rparr>"

text \<open>The macros \<^verbatim>\<open>S\<close>, \<^verbatim>\<open>F\<close> and \<^verbatim>\<open>K\<close>; \<open>t\<close> is the round.\<close>

definition S_rot :: "u64 \<Rightarrow> nat \<Rightarrow> u64" where
  "S_rot x n = push_bit n x OR drop_bit (32 - n) (x AND 0xFFFFFFFF)"

definition F_sel :: "nat \<Rightarrow> 'w::len word \<Rightarrow> 'w word \<Rightarrow> 'w word \<Rightarrow> 'w word" where
  "F_sel t x y z =
     (if t < 20 then z XOR (x AND (y XOR z))
      else if t < 40 then x XOR y XOR z
      else if t < 60 then (x AND y) OR (z AND (x OR y))
      else x XOR y XOR z)"

definition K_const :: "nat \<Rightarrow> 'w::len word" where
  "K_const t = (if t < 20 then 0x5A827999 else if t < 40 then 0x6ED9EBA1
     else if t < 60 then 0x8F1BBCDC else 0xCA62C1D6)"

text \<open>The macro \<^verbatim>\<open>R\<close> replaces one word of the schedule by the next one.\<close>

definition R_next :: "nat \<Rightarrow> u64 list \<Rightarrow> u64 list" where
  "R_next t W =
     (let temp = W ! ((t - 3) mod 16) XOR W ! ((t - 8) mod 16) XOR W ! ((t - 14) mod 16) XOR W ! (t mod 16)
      in W[t mod 16 := S_rot temp 1])"

text \<open>The macro \<^verbatim>\<open>P(a,b,c,d,e,x)\<close> on the five variables, which the code lists in the order
  \<^verbatim>\<open>A, B, C, D, E\<close> in round 0 and shifts by one place in each round: the arguments are the
  places of the variables among \<^verbatim>\<open>A\<close> to \<^verbatim>\<open>E\<close>.\<close>

definition P_round :: "nat \<Rightarrow> nat \<Rightarrow> nat \<Rightarrow> nat \<Rightarrow> nat \<Rightarrow> nat \<Rightarrow> u64 \<Rightarrow> u64 list \<Rightarrow> u64 list" where
  "P_round t a b c d e x v =
     (let v1 = v[e := v ! e + (S_rot (v ! a) 5 + F_sel t (v ! b) (v ! c) (v ! d) + K_const t + x)]
      in v1[b := S_rot (v1 ! b) 30])"

definition arg_place :: "nat \<Rightarrow> nat \<Rightarrow> nat" where
  "arg_place t i = (i + 4 * t) mod 5"

definition round_W :: "nat \<Rightarrow> u64 list \<Rightarrow> u64 list" where
  "round_W t W = (if t < 16 then W else R_next t W)"

definition sha1_round :: "nat \<Rightarrow> u64 list \<times> u64 list \<Rightarrow> u64 list \<times> u64 list" where
  "sha1_round t s = (case s of (W, v) \<Rightarrow>
     (let W1 = round_W t W
      in (W1, P_round t (arg_place t 0) (arg_place t 1) (arg_place t 2) (arg_place t 3) (arg_place t 4)
            (W1 ! (t mod 16)) v)))"

definition sha1_process :: "sha1_context \<Rightarrow> u8 list \<Rightarrow> sha1_context" where
  "sha1_process ctx data =
     (let W = map (\<lambda>i. GET_UINT32_BE data (4 * i)) [0..<16];
          v = snd (fold sha1_round [0..<80] (W, state ctx))
      in ctx\<lparr>state := map2 (+) (state ctx) v\<rparr>)"

text \<open>The copy to \<^verbatim>\<open>ctx->buffer + left\<close>, which has 64 bytes.\<close>

definition buf_put :: "sha1_context \<Rightarrow> nat \<Rightarrow> u8 list \<Rightarrow> sha1_context option" where
  "buf_put ctx left bs =
     (if left + length bs \<le> length (buffer ctx)
      then Some (ctx\<lparr>buffer := put_seg (buffer ctx) left bs\<rparr>) else None)"

fun sha1_blocks :: "sha1_context \<Rightarrow> u8 list \<Rightarrow> sha1_context \<times> u8 list" where
  "sha1_blocks ctx input =
     (if 64 \<le> length input then sha1_blocks (sha1_process ctx (take 64 input)) (drop 64 input)
      else (ctx, input))"

declare sha1_blocks.simps [simp del]

definition add_total :: "u64 list \<Rightarrow> nat \<Rightarrow> u64 list" where
  "add_total tot ilen =
     (let t0 = (tot ! 0 + of_nat ilen) AND 0xFFFFFFFF
      in [t0, if t0 < of_nat ilen then tot ! 1 + 1 else tot ! 1])"

text \<open>\<open>input\<close> is the \<^verbatim>\<open>ilen\<close> bytes at \<^verbatim>\<open>input\<close>.\<close>

definition sha1_update :: "sha1_context \<Rightarrow> u8 list \<Rightarrow> sha1_context option" where
  "sha1_update ctx input =
     (if input = [] then Some ctx
      else
        (let left = unat (total ctx ! 0 AND 0x3F);
             fill = 64 - left;
             ctx1 = ctx\<lparr>total := add_total (total ctx) (length input)\<rparr>
         in do { (ctx2, input2, left2) \<leftarrow>
                   (if left \<noteq> 0 \<and> length input \<ge> fill
                    then do { c \<leftarrow> buf_put ctx1 left (take fill input);
                              Some (sha1_process c (buffer c), drop fill input, 0) }
                    else Some (ctx1, input, left));
                 let (ctx3, input3) = sha1_blocks ctx2 input2;
                 if length input3 > 0 then buf_put ctx3 left2 input3 else Some ctx3 }))"

definition sha1_padding :: "u8 list" where
  "sha1_padding = 0x80 # replicate 63 0"

definition sha1_finish :: "sha1_context \<Rightarrow> (sha1_context \<times> u8 list) option" where
  "sha1_finish ctx =
     (let high = drop_bit 29 (total ctx ! 0) OR push_bit 3 (total ctx ! 1);
          low = push_bit 3 (total ctx ! 0);
          msglen = PUT_UINT32_BE high @ PUT_UINT32_BE low;
          last = unat (total ctx ! 0 AND 0x3F);
          padn = (if last < 56 then 56 - last else 120 - last)
      in do { c1 \<leftarrow> sha1_update ctx (take padn sha1_padding);
              c2 \<leftarrow> sha1_update c1 msglen;
              Some (c2, concat (map PUT_UINT32_BE (state c2))) })"

text \<open>\<open>buf\<close> is the uninitialised buffer of the context on the stack.\<close>

definition sha1_csum :: "u8 list \<Rightarrow> u8 list \<Rightarrow> u8 list option" where
  "sha1_csum buf input =
     do { ctx \<leftarrow> sha1_update (sha1_starts buf) input;
          (_, output) \<leftarrow> sha1_finish ctx;
          Some output }"

text \<open>No watchdog is configured, so \<^verbatim>\<open>chunk_sz\<close> is not used.\<close>

definition sha1_csum_wd :: "u8 list \<Rightarrow> u8 list \<Rightarrow> nat \<Rightarrow> u8 list option" where
  "sha1_csum_wd buf input chunk_sz =
     do { ctx \<leftarrow> sha1_update (sha1_starts buf) input;
          (_, output) \<leftarrow> sha1_finish ctx;
          Some output }"

definition xor_key :: "u8 list \<Rightarrow> u8 list \<Rightarrow> u8 list" where
  "xor_key pad key = map (\<lambda>i. if i < length key then pad ! i XOR key ! i else pad ! i) [0..<64]"

definition sha1_hmac :: "u8 list \<Rightarrow> u8 list \<Rightarrow> u8 list \<Rightarrow> u8 list option" where
  "sha1_hmac buf key input =
     (let k_ipad = xor_key (replicate 64 0x36) key;
          k_opad = xor_key (replicate 64 0x5C) key
      in do { c1 \<leftarrow> sha1_update (sha1_starts buf) k_ipad;
              c2 \<leftarrow> sha1_update c1 input;
              (c3, tmpbuf) \<leftarrow> sha1_finish c2;
              c4 \<leftarrow> sha1_update (sha1_starts (buffer c3)) k_opad;
              c5 \<leftarrow> sha1_update c4 tmpbuf;
              (_, output) \<leftarrow> sha1_finish c5;
              Some output })"

section \<open>The algorithm of FIPS 180\<close>

text \<open>\<^verbatim>\<open>ROTL\<close>, and words read from and written as bytes, the highest first.\<close>

definition fips_rotl :: "nat \<Rightarrow> u32 \<Rightarrow> u32" where
  "fips_rotl n x = push_bit n x OR drop_bit (32 - n) x"

definition be_value :: "u8 list \<Rightarrow> nat" where
  "be_value bs = fold (\<lambda>b v. 256 * v + unat b) bs 0"

definition be_bytes :: "nat \<Rightarrow> nat \<Rightarrow> u8 list" where
  "be_bytes n v = map (\<lambda>i. of_nat (drop_bit (8 * (n - 1 - i)) v)) [0..<n]"

definition fips_word :: "u8 list \<Rightarrow> nat \<Rightarrow> u32" where
  "fips_word data i = of_nat (be_value (seg data (4 * i) 4))"

fun fips_W :: "u8 list \<Rightarrow> nat \<Rightarrow> u32" where
  "fips_W data t =
     (if t < 16 then fips_word data t
      else fips_rotl 1 (fips_W data (t - 3) XOR fips_W data (t - 8) XOR fips_W data (t - 14) XOR fips_W data (t - 16)))"

declare fips_W.simps [simp del]

type_synonym fips_state = "u32 \<times> u32 \<times> u32 \<times> u32 \<times> u32"

definition fips_f :: "nat \<Rightarrow> u32 \<Rightarrow> u32 \<Rightarrow> u32 \<Rightarrow> u32" where
  "fips_f t x y z =
     (if t < 20 then (x AND y) XOR (NOT x AND z)
      else if t < 40 then x XOR y XOR z
      else if t < 60 then (x AND y) XOR (x AND z) XOR (y AND z)
      else x XOR y XOR z)"

definition fips_round :: "u8 list \<Rightarrow> nat \<Rightarrow> fips_state \<Rightarrow> fips_state" where
  "fips_round data t s = (case s of (a, b, c, d, e) \<Rightarrow>
     (fips_rotl 5 a + fips_f t b c d + e + K_const t + fips_W data t, a, fips_rotl 30 b, c, d))"

definition fips_block :: "u8 list \<Rightarrow> fips_state \<Rightarrow> fips_state" where
  "fips_block data s =
     (case (s, fold (fips_round data) [0..<80] s) of ((a, b, c, d, e), (a', b', c', d', e')) \<Rightarrow>
        (a + a', b + b', c + c', d + d', e + e'))"

definition fips_pad :: "u8 list \<Rightarrow> u8 list" where
  "fips_pad m = m @ [0x80] @ replicate ((119 - length m mod 64) mod 64) 0
     @ be_bytes 8 (8 * length m)"

fun fips_blocks :: "u8 list \<Rightarrow> fips_state \<Rightarrow> fips_state" where
  "fips_blocks m s = (if 64 \<le> length m then fips_blocks (drop 64 m) (fips_block (take 64 m) s) else s)"

declare fips_blocks.simps [simp del]

definition fips_sha1 :: "u8 list \<Rightarrow> u8 list" where
  "fips_sha1 m =
     (case fips_blocks (fips_pad m) (0x67452301, 0xEFCDAB89, 0x98BADCFE, 0x10325476, 0xC3D2E1F0) of
        (a, b, c, d, e) \<Rightarrow> concat (map (be_bytes 4 \<circ> unat) [a, b, c, d, e]))"

section \<open>The low halves\<close>

definition low :: "u64 \<Rightarrow> u32" where
  "low x = ucast x"

named_theorems low_simps "the low half of an operation"

lemma take_bit_32_add: "take_bit 32 (x + y) = take_bit 32 (take_bit 64 x + take_bit 64 y)" for x y :: int
  using take_bit_add [of 32 x y] take_bit_add [of 32 "take_bit 64 x" "take_bit 64 y"] by simp

lemma low_add [low_simps]: "low (x + y) = low x + low y"
  unfolding low_def by transfer (simp add: take_bit_32_add [symmetric])

lemma low_and [low_simps]: "low (x AND y) = low x AND low y"
  unfolding low_def by (rule bit_word_eqI) (auto simp: bit_simps)

lemma low_or [low_simps]: "low (x OR y) = low x OR low y"
  unfolding low_def by (rule bit_word_eqI) (auto simp: bit_simps)

lemma low_xor [low_simps]: "low (x XOR y) = low x XOR low y"
  unfolding low_def by (rule bit_word_eqI) (auto simp: bit_simps)

lemma and_mask32: "x AND 0xFFFFFFFF = take_bit 32 (x :: u64)"
  by (simp add: take_bit_eq_mask mask_eq_exp_minus_1)

lemma low_rot [low_simps]: "0 < n \<Longrightarrow> n < 32 \<Longrightarrow> low (S_rot x n) = fips_rotl n (low x)"
  unfolding low_def S_rot_def fips_rotl_def and_mask32
  by (rule bit_word_eqI) (auto simp: bit_simps)

lemma low_K [low_simps]: "low (K_const t) = K_const t"
  by (simp add: low_def K_const_def)

lemma low_F [low_simps]: "low (F_sel t x y z) = F_sel t (low x) (low y) (low z)"
  by (simp add: F_sel_def low_simps)

lemma F_sel_fips: "F_sel t x y z = fips_f t x y z"
proof -
  have "z XOR (x AND (y XOR z)) = (x AND y) XOR (NOT x AND z)"
    by (rule bit_word_eqI) (auto simp: bit_simps)
  moreover have "(x AND y) OR (z AND (x OR y)) = (x AND y) XOR (x AND z) XOR (y AND z)"
    by (rule bit_word_eqI) (auto simp: bit_simps)
  ultimately show ?thesis by (simp add: F_sel_def fips_f_def)
qed

section \<open>Rounds\<close>

definition sched_rel :: "u8 list \<Rightarrow> nat \<Rightarrow> u64 list \<Rightarrow> bool" where
  "sched_rel data m W \<longleftrightarrow> length W = 16 \<and> 16 \<le> m
     \<and> (\<forall>s. s < m \<and> m \<le> s + 16 \<longrightarrow> low (W ! (s mod 16)) = fips_W data s)"

lemma sched_relD: "sched_rel data m W \<Longrightarrow> s < m \<Longrightarrow> m \<le> s + 16 \<Longrightarrow> low (W ! (s mod 16)) = fips_W data s"
  by (simp add: sched_rel_def)

lemma R_next_sched:
  assumes "sched_rel data t W"
  shows "sched_rel data (t + 1) (R_next t W)"
proof -
  have t: "16 \<le> t" "length W = 16" using assms by (auto simp: sched_rel_def)
  have "low (W ! (t mod 16)) = fips_W data (t - 16)"
    using sched_relD [OF assms, of "t - 16"] t by (simp add: le_mod_geq)
  moreover have "low (W ! ((t - 3) mod 16)) = fips_W data (t - 3)"
    "low (W ! ((t - 8) mod 16)) = fips_W data (t - 8)"
    "low (W ! ((t - 14) mod 16)) = fips_W data (t - 14)"
    using t by (auto intro!: sched_relD [OF assms])
  ultimately have new: "low (R_next t W ! (t mod 16)) = fips_W data t"
    using t by (subst fips_W.simps) (simp add: R_next_def low_simps)
  have "low (R_next t W ! (s mod 16)) = fips_W data s" if s: "s < t + 1" "t + 1 \<le> s + 16" for s
  proof (cases "s = t")
    case False
    have "s mod 16 \<noteq> t mod 16"
    proof
      assume "s mod 16 = t mod 16"
      then obtain q where "t = s + 16 * q" using s(1) False by (auto elim: mod_eq_nat2E)
      then show False using s False by (cases q) auto
    qed
    then have "R_next t W ! (s mod 16) = W ! (s mod 16)" by (simp add: R_next_def)
    then show ?thesis using sched_relD [OF assms, of s] s False by simp
  qed (simp add: new)
  then show ?thesis using t by (simp add: sched_rel_def R_next_def)
qed

lemma round_W_sched:
  assumes "sched_rel data (max 16 t) W"
  shows "sched_rel data (max 16 (Suc t)) (round_W t W)"
    and "low (round_W t W ! (t mod 16)) = fips_W data t"
proof -
  show r: "sched_rel data (max 16 (Suc t)) (round_W t W)"
  proof (cases "t < 16")
    case True
    then have "max 16 (Suc t) = 16" "max 16 t = 16" by auto
    then show ?thesis using assms True by (simp add: round_W_def)
  next
    case False
    then have "max 16 (Suc t) = t + 1" "max 16 t = t" by auto
    then show ?thesis using R_next_sched [of data t W] assms False by (simp add: round_W_def)
  qed
  show "low (round_W t W ! (t mod 16)) = fips_W data t" by (rule sched_relD [OF r]) auto
qed

lemma arg_place_less [simp]: "arg_place t i < 5"
  by (simp add: arg_place_def)

lemma arg_place_eq: "i < 5 \<Longrightarrow> j < 5 \<Longrightarrow> arg_place t i = arg_place t j \<longleftrightarrow> i = j"
proof -
  have "\<forall>r \<in> set [0..<5]. \<forall>i \<in> set [0..<5]. \<forall>j \<in> set [0..<5]. ((i + 4 * r) mod 5 = (j + 4 * r) mod 5) = (i = (j::nat))"
    by code_simp
  moreover have "arg_place t k = (k + 4 * (t mod 5)) mod 5" for k
    unfolding arg_place_def by (metis mod_add_right_eq mod_mult_right_eq)
  moreover assume "i < 5" "j < 5"
  ultimately show ?thesis by simp
qed

lemma arg_place_Suc: "arg_place (Suc t) (Suc i) = arg_place t i" "arg_place (Suc t) 0 = arg_place t 4"
proof -
  have "Suc i + 4 * Suc t = (i + 4 * t) + 5" by simp
  then show "arg_place (Suc t) (Suc i) = arg_place t i" by (simp only: arg_place_def mod_add_self2)
  show "arg_place (Suc t) 0 = arg_place t 4" by (simp add: arg_place_def add.commute)
qed

definition vars_rel :: "nat \<Rightarrow> u64 list \<Rightarrow> fips_state \<Rightarrow> bool" where
  "vars_rel t v s \<longleftrightarrow> (case s of (a, b, c, d, e) \<Rightarrow> length v = 5
     \<and> low (v ! arg_place t 0) = a \<and> low (v ! arg_place t 1) = b \<and> low (v ! arg_place t 2) = c
     \<and> low (v ! arg_place t 3) = d \<and> low (v ! arg_place t 4) = e)"

lemma P_round_vars:
  assumes "vars_rel t v s" "low x = fips_W data t"
  shows "vars_rel (Suc t) (P_round t (arg_place t 0) (arg_place t 1) (arg_place t 2) (arg_place t 3)
    (arg_place t 4) x v) (fips_round data t s)"
proof -
  obtain a b c d e where s: "s = (a, b, c, d, e)" by (cases s) auto
  have places: "arg_place (Suc t) 1 = arg_place t 0" "arg_place (Suc t) 2 = arg_place t 1"
    "arg_place (Suc t) 3 = arg_place t 2" "arg_place (Suc t) 4 = arg_place t 3"
    using arg_place_Suc(1) [of t 0] arg_place_Suc(1) [of t 1] arg_place_Suc(1) [of t 2]
      arg_place_Suc(1) [of t 3] by (simp_all add: numeral_eq_Suc)
  show ?thesis using assms
    by (simp add: s vars_rel_def P_round_def fips_round_def Let_def places arg_place_Suc
        arg_place_eq low_simps F_sel_fips add.assoc add.commute add.left_commute)
qed

lemma sha1_rounds:
  assumes "sched_rel data 16 W" "vars_rel 0 v s" "n \<le> 80"
  shows "sched_rel data (max 16 n) (fst (fold sha1_round [0..<n] (W, v)))
    \<and> vars_rel n (snd (fold sha1_round [0..<n] (W, v))) (fold (fips_round data) [0..<n] s)"
  using assms(3)
proof (induction n)
  case 0
  then show ?case using assms by simp
next
  case (Suc n)
  then have IH: "sched_rel data (max 16 n) (fst (fold sha1_round [0..<n] (W, v)))"
    "vars_rel n (snd (fold sha1_round [0..<n] (W, v))) (fold (fips_round data) [0..<n] s)" by auto
  note w = round_W_sched [OF IH(1)]
  obtain W' v' where f: "fold sha1_round [0..<n] (W, v) = (W', v')" by fastforce
  show ?case using w P_round_vars [OF IH(2) w(2)] by (simp add: f sha1_round_def [of n] Let_def)
qed

section \<open>One block\<close>

lemma horner_or: "(of_nat (256 * v + unat b) :: u32) = push_bit 8 (of_nat v) OR ucast (b :: u8)"
proof -
  have "(of_nat (256 * v + unat b) :: u32) = push_bit 8 (of_nat v) + ucast b"
    by (simp add: push_bit_eq_mult)
  also have "\<dots> = push_bit 8 (of_nat v) OR ucast b"
    by (rule disjunctive_add) (auto simp: bit_simps dest: bit_u8)
  finally show ?thesis .
qed

lemma low_push_ucast: "low (push_bit n (ucast b)) = push_bit n (ucast (b :: u8))"
  unfolding low_def by (rule bit_word_eqI) (auto simp: bit_simps dest: bit_u8)

lemma low_ucast: "low (ucast b) = ucast (b :: u8)"
  unfolding low_def by (rule bit_word_eqI) (auto simp: bit_simps dest: bit_u8)

lemma low_GET:
  assumes "4 * i + 3 < length data"
  shows "low (GET_UINT32_BE data (4 * i)) = fips_word data i"
proof -
  have seg: "seg data (4 * i) 4 = [data ! (4 * i), data ! (4 * i + 1), data ! (4 * i + 2), data ! (4 * i + 3)]"
    using assms by (simp add: seg_Suc numeral_eq_Suc)
  have "fips_word data i = push_bit 8 (push_bit 8 (push_bit 8 (ucast (data ! (4 * i)))
      OR ucast (data ! (4 * i + 1))) OR ucast (data ! (4 * i + 2))) OR ucast (data ! (4 * i + 3))"
    using horner_or [of 0 "data ! (4 * i)"]
    by (simp only: fips_word_def be_value_def seg fold.simps o_apply id_apply horner_or) simp
  also have "\<dots> = low (GET_UINT32_BE data (4 * i))"
    by (simp add: GET_UINT32_BE_def low_or low_push_ucast low_ucast push_bit_or or.assoc)
  finally show ?thesis by simp
qed

abbreviation state_rel :: "u64 list \<Rightarrow> fips_state \<Rightarrow> bool" where
  "state_rel \<equiv> vars_rel 0"

lemma vars_rel_80: "vars_rel 80 v s \<longleftrightarrow> state_rel v s"
  by (simp add: vars_rel_def arg_place_def)

lemma state_rel_iff: "state_rel v (a, b, c, d, e) \<longleftrightarrow> length v = 5
    \<and> low (v ! 0) = a \<and> low (v ! 1) = b \<and> low (v ! 2) = c \<and> low (v ! 3) = d \<and> low (v ! 4) = e"
  by (simp add: vars_rel_def arg_place_def)

lemma length_5_conv: "length v = 5 \<longleftrightarrow> (\<exists>A B C D E. v = [A, B, C, D, E])"
proof
  assume "length v = 5"
  then have "v = map ((!) v) [0..<5]" using map_nth [of v] by simp
  then have "v = [v ! 0, v ! Suc 0, v ! Suc (Suc 0), v ! Suc (Suc (Suc 0)), v ! Suc (Suc (Suc (Suc 0)))]"
    by (simp add: upt_rec)
  then show "\<exists>A B C D E. v = [A, B, C, D, E]" by blast
qed auto

lemma state_rel_list: "state_rel v (a, b, c, d, e) \<longleftrightarrow>
    (\<exists>A B C D E. v = [A, B, C, D, E] \<and> map low [A, B, C, D, E] = [a, b, c, d, e])"
  by (auto simp: state_rel_iff length_5_conv)

lemma sha1_process_block:
  assumes "state_rel (state ctx) s" "length data = 64"
  shows "state_rel (state (sha1_process ctx data)) (fips_block data s)"
proof -
  define W where "W = map (\<lambda>i. GET_UINT32_BE data (4 * i)) [0..<16]"
  have "low (W ! (i mod 16)) = fips_W data i" if "i < 16" for i
    using that low_GET [of i data] assms(2) by (subst fips_W.simps) (simp add: W_def del: upt_rec_numeral)
  then have "sched_rel data 16 W" by (simp add: sched_rel_def W_def del: upt_rec_numeral)
  then have r: "state_rel (snd (fold sha1_round [0..<80] (W, state ctx))) (fold (fips_round data) [0..<80] s)"
    using sha1_rounds [of data W "state ctx" s 80] assms(1)
    by (simp add: vars_rel_80 del: upt_rec_numeral)
  obtain a b c d e where s: "s = (a, b, c, d, e)" by (rule prod_cases5)
  obtain a' b' c' d' e' where s': "fold (fips_round data) [0..<80] s = (a', b', c', d', e')"
    by (rule prod_cases5)
  have st: "state (sha1_process ctx data) = map2 (+) (state ctx) (snd (fold sha1_round [0..<80] (W, state ctx)))"
    by (simp add: sha1_process_def W_def Let_def del: upt_rec_numeral)
  have fb: "fips_block data s = (a + a', b + b', c + c', d + d', e + e')"
    by (simp only: fips_block_def s' [unfolded s] s prod.case)
  from r [unfolded s' state_rel_list] assms(1) [unfolded s state_rel_list] show ?thesis
    unfolding st fb state_rel_list by (auto simp: low_add simp del: upt_rec_numeral)
qed

section \<open>Streams of blocks\<close>

text \<open>The bytes after the last whole block.\<close>

definition rest :: "u8 list \<Rightarrow> u8 list" where
  "rest m = drop (64 * (length m div 64)) m"

lemma length_rest [simp]: "length (rest m) = length m mod 64"
  by (simp add: rest_def minus_mult_div_eq_mod [symmetric])

lemma rest_short: "length m < 64 \<Longrightarrow> rest m = m"
  by (simp add: rest_def)

lemma rest_block: "64 \<le> length m \<Longrightarrow> rest m = rest (drop 64 m)"
proof -
  assume "64 \<le> length m"
  then have "64 * (length m div 64) = 64 * ((length m - 64) div 64) + 64" by (simp add: le_div_geq)
  then show ?thesis by (simp add: rest_def add.commute)
qed

lemma fips_blocks_step: "64 \<le> length m \<Longrightarrow> fips_blocks m s = fips_blocks (drop 64 m) (fips_block (take 64 m) s)"
  by (subst fips_blocks.simps) simp

lemma fips_blocks_short: "length m < 64 \<Longrightarrow> fips_blocks m s = s"
  by (subst fips_blocks.simps) simp

lemma stream_append:
  "fips_blocks (m @ n) s = fips_blocks (rest m @ n) (fips_blocks m s) \<and> rest (m @ n) = rest (rest m @ n)"
proof (induction m s rule: fips_blocks.induct)
  case (1 m s)
  show ?case
  proof (cases "64 \<le> length m")
    case True
    then have "fips_blocks (m @ n) s = fips_blocks (drop 64 m @ n) (fips_block (take 64 m) s)"
      using fips_blocks_step [of "m @ n" s] by simp
    moreover have "rest (m @ n) = rest (drop 64 m @ n)" using True rest_block [of "m @ n"] by simp
    ultimately show ?thesis
      using 1 True by (simp add: rest_block [of m] fips_blocks_step [of m s])
  qed (simp add: rest_short fips_blocks_short)
qed

lemma sha1_process_keeps [simp]:
  "total (sha1_process ctx data) = total ctx" "buffer (sha1_process ctx data) = buffer ctx"
  by (simp_all add: sha1_process_def Let_def del: upt_rec_numeral)

lemma sha1_blocks_run:
  assumes "state_rel (state ctx) s"
  shows "\<exists>ctx'. sha1_blocks ctx input = (ctx', rest input) \<and> state_rel (state ctx') (fips_blocks input s)
    \<and> total ctx' = total ctx \<and> buffer ctx' = buffer ctx"
  using assms
proof (induction ctx input arbitrary: s rule: sha1_blocks.induct)
  case (1 ctx input)
  show ?case
  proof (cases "64 \<le> length input")
    case True
    have "state_rel (state (sha1_process ctx (take 64 input))) (fips_block (take 64 input) s)"
      using sha1_process_block [OF 1(2), of "take 64 input"] True by simp
    from 1(1) [OF True this] show ?thesis using True
      by (subst sha1_blocks.simps) (simp add: rest_block fips_blocks_step)
  next
    case False
    then show ?thesis using 1(2)
      by (subst sha1_blocks.simps) (simp add: rest_short fips_blocks_short)
  qed
qed

text \<open>The context stands for the message \<open>m\<close> read so far.\<close>

definition fips_H0 :: fips_state where
  "fips_H0 = (0x67452301, 0xEFCDAB89, 0x98BADCFE, 0x10325476, 0xC3D2E1F0)"

definition ctx_rel :: "sha1_context \<Rightarrow> u8 list \<Rightarrow> bool" where
  "ctx_rel ctx m \<longleftrightarrow> state_rel (state ctx) (fips_blocks m fips_H0)
     \<and> total ctx = [of_nat (take_bit 32 (length m)), of_nat (drop_bit 32 (length m))]
     \<and> length (buffer ctx) = 64 \<and> take (length m mod 64) (buffer ctx) = rest m"

lemma ctx_rel_starts: "length buf = 64 \<Longrightarrow> ctx_rel (sha1_starts buf) []"
  by (simp add: ctx_rel_def sha1_starts_def state_rel_iff fips_blocks_short fips_H0_def low_def rest_def)

lemma total_left: "unat (of_nat (take_bit 32 n) AND 0x3F :: u64) = n mod 64"
proof -
  have "(of_nat (take_bit 32 n) AND 0x3F :: u64) = take_bit 6 (of_nat (take_bit 32 n))"
    by (simp add: take_bit_eq_mask mask_eq_exp_minus_1)
  also have "unat \<dots> = take_bit 6 n"
    by (simp add: unsigned_take_bit_eq unsigned_of_nat)
  finally show ?thesis by (simp add: take_bit_eq_mod)
qed

lemma carry_nat:
  fixes M :: nat
  assumes "k < M"
  shows "(n + k) mod M < k \<longleftrightarrow> M \<le> n mod M + k"
    and "(n + k) div M = n div M + (if M \<le> n mod M + k then 1 else 0)"
proof -
  define r where "r = n mod M"
  have r: "r < M" using assms by (simp add: r_def)
  have m: "(n + k) mod M = (r + k) mod M" unfolding r_def by (rule mod_add_left_eq [symmetric])
  have d: "(n + k) div M = n div M + (r + k) div M"
    using div_add1_eq [of n k M] assms by (simp add: r_def)
  have "(r + k) mod M = (if M \<le> r + k then r + k - M else r + k)
      \<and> (r + k) div M = (if M \<le> r + k then 1 else 0)"
  proof (cases "M \<le> r + k")
    case True
    then obtain q where q: "r + k = M + q" by (auto simp: le_iff_add)
    then have "q < M" using r assms by linarith
    then show ?thesis using q assms div_add_self1 [of M q] by simp
  qed simp
  then show "(n + k) mod M < k \<longleftrightarrow> M \<le> n mod M + k"
    "(n + k) div M = n div M + (if M \<le> n mod M + k then 1 else 0)"
    unfolding m d r_def [symmetric] using r assms by auto
qed

lemma add_total_run:
  assumes "k < 2 ^ 32"
  shows "add_total [of_nat (take_bit 32 n), of_nat (drop_bit 32 n)] k
    = [of_nat (take_bit 32 (n + k)), of_nat (drop_bit 32 (n + k))]"
proof -
  have "(of_nat (take_bit 32 n) + of_nat k :: u64) AND 0xFFFFFFFF = take_bit 32 (of_nat (take_bit 32 n + k))"
    by (simp add: and_mask32)
  also have "\<dots> = of_nat (take_bit 32 (take_bit 32 n + k))"
    by (simp only: take_bit_of_nat)
  also have "take_bit 32 (take_bit 32 n + k) = take_bit 32 (n + k)"
    unfolding take_bit_eq_mod by (rule mod_add_left_eq)
  finally have t0: "(of_nat (take_bit 32 n) + of_nat k :: u64) AND 0xFFFFFFFF = of_nat (take_bit 32 (n + k))" .
  have "unat (of_nat (take_bit 32 (n + k)) :: u64) = take_bit 32 (n + k)" by (simp add: unsigned_of_nat)
  moreover have "unat (of_nat k :: u64) = k"
    using assms by (simp add: unsigned_of_nat take_bit_nat_eq_self)
  ultimately have "(of_nat (take_bit 32 (n + k)) < (of_nat k :: u64)) = (2 ^ 32 \<le> take_bit 32 n + k)"
    using carry_nat(1) [OF assms, of n] unfolding word_less_nat_alt take_bit_eq_mod by simp
  moreover have "drop_bit 32 (n + k) = drop_bit 32 n + (if 2 ^ 32 \<le> take_bit 32 n + k then 1 else 0)"
    unfolding drop_bit_eq_div take_bit_eq_mod by (rule carry_nat(2) [OF assms])
  ultimately show ?thesis unfolding add_total_def Let_def nth_Cons_0 t0 by simp
qed

lemma buf_put_run:
  "left + length bs \<le> length (buffer ctx) \<Longrightarrow> buf_put ctx left bs = Some (ctx\<lparr>buffer := put_seg (buffer ctx) left bs\<rparr>)"
  by (simp add: buf_put_def)

lemma take_put_seg: "left \<le> length b \<Longrightarrow> take (left + length bs) (put_seg b left bs) = take left b @ bs"
  by (simp add: put_seg_def)

text \<open>The part of \<^verbatim>\<open>sha1_update\<close> after the buffer has been dealt with.\<close>

lemma update_tail:
  assumes "state_rel (state c) s" "length (buffer c) = 64" "left = length p" "take left (buffer c) = p"
    "left + length input mod 64 < 64" "left \<noteq> 0 \<Longrightarrow> length input < 64"
  shows "\<exists>c'. (let (ctx3, input3) = sha1_blocks c input
      in if length input3 > 0 then buf_put ctx3 left input3 else Some ctx3) = Some c'
    \<and> state_rel (state c') (fips_blocks (p @ input) s) \<and> total c' = total c
    \<and> length (buffer c') = 64 \<and> take (length (p @ input) mod 64) (buffer c') = rest (p @ input)"
proof -
  obtain c' where c': "sha1_blocks c input = (c', rest input)" "state_rel (state c') (fips_blocks input s)"
    "total c' = total c" "buffer c' = buffer c"
    using sha1_blocks_run [OF assms(1), of input] by blast
  have u: "fips_blocks (p @ input) s = fips_blocks input s \<and> rest (p @ input) = p @ rest input
      \<and> length (p @ input) mod 64 = left + length (rest input)"
  proof (cases "left = 0")
    case True
    then show ?thesis using assms(3) by simp
  next
    case False
    then have "length input < 64" "length (p @ input) < 64" using assms(3,5,6) by auto
    then show ?thesis using assms(3) by (simp add: fips_blocks_short rest_short)
  qed
  show ?thesis
  proof (cases "rest input = []")
    case True
    then show ?thesis using c' u assms(2,4) by simp
  next
    case False
    have "left + length (rest input) \<le> length (buffer c')" using assms(2,5) c'(4) by simp
    then show ?thesis using False c' u assms(2,4) take_put_seg [of left "buffer c" "rest input"]
      by (simp add: buf_put_run)
  qed
qed

lemma sha1_update_run:
  assumes rel: "ctx_rel ctx m" and "length input < 2 ^ 32"
  shows "\<exists>ctx'. sha1_update ctx input = Some ctx' \<and> ctx_rel ctx' (m @ input)"
proof (cases "input = []")
  case True
  then show ?thesis using rel by (simp add: sha1_update_def)
next
  case False
  define left fill s where "left = length m mod 64" and "fill = 64 - left" and "s = fips_blocks m fips_H0"
  define c1 where "c1 = ctx\<lparr>total := add_total (total ctx) (length input)\<rparr>"
  have c: "state_rel (state ctx) s" "total ctx = [of_nat (take_bit 32 (length m)), of_nat (drop_bit 32 (length m))]"
    "length (buffer ctx) = 64" "take left (buffer ctx) = rest m"
    using rel by (simp_all add: ctx_rel_def left_def s_def)
  have left: "unat (total ctx ! 0 AND 0x3F) = left" "left < 64" "length (rest m) = left"
    using total_left [of "length m"] by (simp_all add: c(2) left_def)
  have tot: "total c1 = [of_nat (take_bit 32 (length (m @ input))), of_nat (drop_bit 32 (length (m @ input)))]"
    using add_total_run [OF assms(2), of "length m"] by (simp add: c1_def c(2))
  have upd: "sha1_update ctx input = do { (c2, input2, left2) \<leftarrow>
      (if left \<noteq> 0 \<and> length input \<ge> fill
       then do { c \<leftarrow> buf_put c1 left (take fill input); Some (sha1_process c (buffer c), drop fill input, 0) }
       else Some (c1, input, left));
      let (ctx3, input3) = sha1_blocks c2 input2;
      if length input3 > 0 then buf_put ctx3 left2 input3 else Some ctx3 }"
    using False unfolding sha1_update_def left(1) Let_def c1_def [symmetric] fill_def [symmetric] by simp
  have "\<exists>c'. sha1_update ctx input = Some c' \<and> state_rel (state c') (fips_blocks (rest m @ input) s)
    \<and> total c' = total c1 \<and> length (buffer c') = 64
    \<and> take (length (rest m @ input) mod 64) (buffer c') = rest (rest m @ input)"
  proof (cases "left \<noteq> 0 \<and> length input \<ge> fill")
    case True
    define blk where "blk = rest m @ take fill input"
    define c2 where "c2 = sha1_process (c1\<lparr>buffer := blk\<rparr>) blk"
    have len: "length blk = 64" using True left by (simp add: blk_def fill_def)
    have "put_seg (buffer ctx) left (take fill input) = blk"
      using True left c(3,4) by (simp add: put_seg_def fill_def blk_def)
    then have b: "buf_put c1 left (take fill input) = Some (c1\<lparr>buffer := blk\<rparr>)"
      using True left c(3) by (simp add: buf_put_run c1_def fill_def)
    have st: "state_rel (state c2) (fips_block blk s)"
      using sha1_process_block [of "c1\<lparr>buffer := blk\<rparr>" s blk] c(1) len by (simp add: c2_def c1_def)
    have u: "take 64 (rest m @ input) = blk" "drop 64 (rest m @ input) = drop fill input" "64 \<le> length (rest m @ input)"
      using True left by (auto simp: blk_def fill_def)
    have "fips_blocks (rest m @ input) s = fips_blocks (drop fill input) (fips_block blk s)"
      "rest (rest m @ input) = rest (drop fill input)"
      "length (rest m @ input) mod 64 = length (drop fill input) mod 64"
      using fips_blocks_step [OF u(3), of s] rest_block [OF u(3)] u length_rest [of "rest m @ input"]
        length_rest [of "drop fill input"] by simp_all
    moreover have "sha1_update ctx input = (let (ctx3, input3) = sha1_blocks c2 (drop fill input)
        in if length input3 > 0 then buf_put ctx3 0 input3 else Some ctx3)"
      unfolding upd b c2_def using True by simp
    moreover have "length (buffer c2) = 64" "total c2 = total c1" using len by (simp_all add: c2_def)
    ultimately show ?thesis using update_tail [OF st, of 0 "[]" "drop fill input"] by simp
  next
    case sh: False
    have "left + length input mod 64 < 64" "left \<noteq> 0 \<Longrightarrow> length input < 64"
      using sh left by (auto simp: fill_def)
    moreover have "sha1_update ctx input = (let (ctx3, input3) = sha1_blocks c1 input
        in if length input3 > 0 then buf_put ctx3 left input3 else Some ctx3)"
      unfolding upd using sh by auto
    moreover have "state_rel (state c1) s" "length (buffer c1) = 64" "take left (buffer c1) = rest m"
      using c by (simp_all add: c1_def)
    ultimately show ?thesis using update_tail [of c1 s left "rest m" input] left(3) by simp
  qed
  moreover have "fips_blocks (m @ input) fips_H0 = fips_blocks (rest m @ input) s"
    "rest (m @ input) = rest (rest m @ input)"
    using stream_append [of m input fips_H0] by (simp_all add: s_def)
  moreover from this have "length (m @ input) mod 64 = length (rest m @ input) mod 64"
    using length_rest [of "m @ input"] length_rest [of "rest m @ input"] by simp
  ultimately show ?thesis unfolding ctx_rel_def using tot by metis
qed

section \<open>The digest\<close>

lemma be_bytes_append: "be_bytes (m + n) v = be_bytes m (drop_bit (8 * n) v) @ be_bytes n v"
proof (rule nth_equalityI)
  fix i assume "i < length (be_bytes (m + n) v)"
  then have i: "i < m + n" by (simp add: be_bytes_def)
  show "be_bytes (m + n) v ! i = (be_bytes m (drop_bit (8 * n) v) @ be_bytes n v) ! i"
  proof (cases "i < m")
    case True
    then have "8 * (m + n - 1 - i) = 8 * (m - 1 - i) + 8 * n" by simp
    then show ?thesis using True i by (simp add: be_bytes_def nth_append drop_bit_drop_bit)
  next
    case False
    then have "i - m < n" "m + n - 1 - i = n - 1 - (i - m)" using i by auto
    then show ?thesis using False i by (simp add: be_bytes_def nth_append)
  qed
qed (simp add: be_bytes_def)

lemma be_bytes_take_bit: "8 * n \<le> k \<Longrightarrow> be_bytes n (take_bit k v) = be_bytes n v"
proof -
  assume k: "8 * n \<le> k"
  have "of_nat (drop_bit (8 * (n - 1 - i)) (take_bit k v)) = (of_nat (drop_bit (8 * (n - 1 - i)) v) :: u8)"
    if "i < n" for i
    by (rule bit_word_eqI) (use k that in \<open>auto simp: bit_simps\<close>)
  then show ?thesis by (simp add: be_bytes_def)
qed

lemma ucast_drop_bit: "(ucast (drop_bit k x) :: u8) = of_nat (drop_bit k (unat x))" for x :: u64
  by (rule bit_word_eqI) (auto simp: bit_simps)

lemma PUT_be_bytes: "PUT_UINT32_BE x = be_bytes 4 (unat x)"
  using ucast_drop_bit [of 0 x] by (simp add: PUT_UINT32_BE_def be_bytes_def upt_rec ucast_drop_bit)

lemma PUT_low: "PUT_UINT32_BE x = be_bytes 4 (unat (low x))"
proof -
  have "unat (low x) = take_bit 32 (unat x)" by (simp add: low_def unsigned_ucast_eq)
  then show ?thesis by (simp add: PUT_be_bytes be_bytes_take_bit)
qed

text \<open>The eight bytes of the length that \<^verbatim>\<open>sha1_finish\<close> writes.\<close>

definition msglen :: "u64 list \<Rightarrow> u8 list" where
  "msglen tot = PUT_UINT32_BE (drop_bit 29 (tot ! 0) OR push_bit 3 (tot ! 1)) @ PUT_UINT32_BE (push_bit 3 (tot ! 0))"

lemma msglen_run:
  assumes "n < 2 ^ 61"
  shows "msglen [of_nat (take_bit 32 n), of_nat (drop_bit 32 n)] = be_bytes 8 (8 * n)"
proof -
  have n: "i < 61" if "bit n i" for i
    using assms that by (metis bit_take_bit_iff take_bit_nat_eq_self_iff)
  let ?t0 = "of_nat (take_bit 32 n) :: u64" and ?t1 = "of_nat (drop_bit 32 n) :: u64"
  have "be_bytes 4 (unat (drop_bit 29 ?t0 OR push_bit 3 ?t1)) = be_bytes 4 (drop_bit 32 (8 * n))"
  proof -
    have "unat (drop_bit 29 ?t0 OR push_bit 3 ?t1) = drop_bit 32 (push_bit 3 n)"
      by (rule bit_eqI) (auto simp: bit_simps dest: n)
    then show ?thesis by (simp add: push_bit_eq_mult mult.commute)
  qed
  moreover have "be_bytes 4 (unat (push_bit 3 ?t0)) = be_bytes 4 (8 * n)"
  proof -
    have "unat (push_bit 3 ?t0) = take_bit 35 (push_bit 3 n)"
      by (rule bit_eqI) (auto simp: bit_simps)
    then show ?thesis by (simp add: be_bytes_take_bit push_bit_eq_mult mult.commute)
  qed
  moreover have "be_bytes 8 (8 * n) = be_bytes 4 (drop_bit 32 (8 * n)) @ be_bytes 4 (8 * n)"
    using be_bytes_append [of 4 4 "8 * n"] by simp
  ultimately show ?thesis by (simp add: msglen_def PUT_be_bytes)
qed

lemma length_be_bytes [simp]: "length (be_bytes n v) = n"
  by (simp add: be_bytes_def)

lemma padding_run:
  assumes "l < 64"
  shows "take (if l < 56 then 56 - l else 120 - l) sha1_padding = [0x80] @ replicate ((119 - l) mod 64) 0"
proof -
  have "\<forall>l \<in> set [0..<64]. (119 - l) mod 64 = (if l < 56 then 55 - l else 119 - l :: nat)" by code_simp
  then have "(119 - l) mod 64 = (if l < 56 then 55 - l else 119 - l)" using assms by simp
  moreover have "56 - l = Suc (55 - l)" if "l < 56" using that by simp
  moreover have "120 - l = Suc (119 - l)" "119 - l \<le> 63" if "\<not> l < 56" using that assms by auto
  moreover have "55 - l \<le> 63" by simp
  ultimately show ?thesis by (simp add: sha1_padding_def min_def)
qed

lemma sha1_finish_run:
  assumes rel: "ctx_rel ctx m" and "length m < 2 ^ 61"
  shows "\<exists>ctx'. sha1_finish ctx = Some (ctx', fips_sha1 m) \<and> length (buffer ctx') = 64"
proof -
  define l where "l = length m mod 64"
  define pad where "pad = [0x80] @ replicate ((119 - l) mod 64) (0 :: u8)"
  have l: "l < 64" by (simp add: l_def)
  have tot: "total ctx = [of_nat (take_bit 32 (length m)), of_nat (drop_bit 32 (length m))]"
    using rel by (simp add: ctx_rel_def)
  have last: "unat (total ctx ! 0 AND 0x3F) = l" using total_left [of "length m"] by (simp add: tot l_def)
  have fin: "sha1_finish ctx = do { c1 \<leftarrow> sha1_update ctx pad; c2 \<leftarrow> sha1_update c1 (msglen (total ctx));
      Some (c2, concat (map PUT_UINT32_BE (state c2))) }"
    unfolding sha1_finish_def Let_def last padding_run [OF l] pad_def msglen_def ..
  have len: "length pad < 2 ^ 32" "length (be_bytes 8 (8 * length m)) < 2 ^ 32"
    using l by (auto simp: pad_def)
  obtain c1 where c1: "sha1_update ctx pad = Some c1" "ctx_rel c1 (m @ pad)"
    using sha1_update_run [OF rel len(1)] by blast
  obtain c2 where c2: "sha1_update c1 (be_bytes 8 (8 * length m)) = Some c2"
    "ctx_rel c2 ((m @ pad) @ be_bytes 8 (8 * length m))"
    using sha1_update_run [OF c1(2) len(2)] by blast
  have pm: "(m @ pad) @ be_bytes 8 (8 * length m) = fips_pad m"
    by (simp add: fips_pad_def pad_def l_def)
  obtain a b c d e where h: "fips_blocks (fips_pad m) fips_H0 = (a, b, c, d, e)" by (rule prod_cases5)
  have "state_rel (state c2) (a, b, c, d, e)" using c2(2) [unfolded pm] by (simp add: ctx_rel_def h)
  then have "concat (map PUT_UINT32_BE (state c2)) = fips_sha1 m"
    using h by (auto simp: state_rel_list fips_sha1_def fips_H0_def PUT_low)
  moreover have "length (buffer c2) = 64" using c2(2) by (simp add: ctx_rel_def)
  ultimately show ?thesis using c1(1) c2(1) msglen_run [OF assms(2)] by (simp add: fin tot)
qed

lemma sha1_csum_run:
  assumes "length buf = 64" "length input < 2 ^ 32"
  shows "sha1_csum buf input = Some (fips_sha1 input)"
proof -
  obtain c where c: "sha1_update (sha1_starts buf) input = Some c" "ctx_rel c ([] @ input)"
    using sha1_update_run [OF ctx_rel_starts [OF assms(1)] assms(2)] by blast
  have "length input < 2 ^ 61" using assms(2) by (rule less_trans) simp
  then show ?thesis using c sha1_finish_run [of c input] by (auto simp: sha1_csum_def)
qed

text \<open> C17. The SHA-1 of U-Boot, which computes in 64-bit variables whose high halves are never cleared,
  is the SHA-1 of FIPS 180 on 32-bit words: for every input of less than 2^32 bytes, whatever the
  uninitialised buffer of the context holds, \<^verbatim>\<open>sha1_csum\<close> never writes outside the 64-byte
  buffer and its 20 bytes are the digest of the padded message.
\<close>

theorem sha1_csum_fips:
  assumes "length buf = 64" "length input < 2 ^ 32"
  shows "sha1_csum buf input = Some (fips_sha1 input)"
  using assms by (rule sha1_csum_run)

theorem sha1_csum_fips_witness:
  "sha1_csum (replicate 64 0) [97, 98, 99] = Some (fips_sha1 [97, 98, 99])"
  by (rule sha1_csum_fips) simp_all

section \<open>HMAC\<close>

definition hmac_spec :: "u8 list \<Rightarrow> u8 list \<Rightarrow> u8 list" where
  "hmac_spec key m =
     (let k0 = key @ replicate (64 - length key) 0
      in fips_sha1 (map (\<lambda>k. k XOR 0x5C) k0 @ fips_sha1 (map (\<lambda>k. k XOR 0x36) k0 @ m)))"

lemma xor_key_run:
  "length key \<le> 64 \<Longrightarrow> xor_key (replicate 64 p) key = map (\<lambda>k. k XOR p) (key @ replicate (64 - length key) 0)"
  by (rule nth_equalityI) (auto simp: xor_key_def nth_append xor.commute)

lemma length_fips_sha1: "length (fips_sha1 m) = 20"
  by (simp add: fips_sha1_def split: prod.splits)

text \<open> For a key of at most 64 bytes \<^verbatim>\<open>sha1_hmac\<close> is HMAC-SHA-1: the outer digest over the key
  xored with 0x5C and the inner digest, the inner one over the key xored with 0x36 and the input.
\<close>

theorem sha1_hmac_correct:
  assumes "length buf = 64" "length key \<le> 64" "length input < 2 ^ 32"
  shows "sha1_hmac buf key input = Some (hmac_spec key input)"
proof -
  define ik ok where "ik = map (\<lambda>k. k XOR 0x36) (key @ replicate (64 - length key) 0)"
    and "ok = map (\<lambda>k. k XOR 0x5C) (key @ replicate (64 - length key) (0 :: u8))"
  have len: "length ik < 2 ^ 32" "length ok < 2 ^ 32" "length ik = 64" "length ok = 64"
    using assms(2) by (simp_all add: ik_def ok_def)
  obtain c1 where c1: "sha1_update (sha1_starts buf) ik = Some c1" "ctx_rel c1 ik"
    using sha1_update_run [OF ctx_rel_starts [OF assms(1)] len(1)] by auto
  obtain c2 where c2: "sha1_update c1 input = Some c2" "ctx_rel c2 (ik @ input)"
    using sha1_update_run [OF c1(2) assms(3)] by auto
  have "length (ik @ input) < 2 ^ 61" using assms(3) len(3) by simp
  then obtain c3 where c3: "sha1_finish c2 = Some (c3, fips_sha1 (ik @ input))" "length (buffer c3) = 64"
    using sha1_finish_run [OF c2(2)] by auto
  obtain c4 where c4: "sha1_update (sha1_starts (buffer c3)) ok = Some c4" "ctx_rel c4 ok"
    using sha1_update_run [OF ctx_rel_starts [OF c3(2)] len(2)] by auto
  have l: "length (fips_sha1 (ik @ input)) < 2 ^ 32" by (simp add: length_fips_sha1)
  obtain c5 where c5: "sha1_update c4 (fips_sha1 (ik @ input)) = Some c5"
    "ctx_rel c5 (ok @ fips_sha1 (ik @ input))"
    using sha1_update_run [OF c4(2) l] by auto
  have "length (ok @ fips_sha1 (ik @ input)) < 2 ^ 61" using len(4) by (simp add: length_fips_sha1)
  then obtain c6 where "sha1_finish c5 = Some (c6, fips_sha1 (ok @ fips_sha1 (ik @ input)))"
    using sha1_finish_run [OF c5(2)] by auto
  then show ?thesis using c1 c2 c3 c4 c5 xor_key_run [OF assms(2)]
    unfolding sha1_hmac_def hmac_spec_def Let_def ik_def [symmetric] ok_def [symmetric] xor_key_run [OF assms(2)]
    by simp
qed

theorem sha1_hmac_correct_witness:
  "sha1_hmac (replicate 64 0) [1, 2] [3] = Some (hmac_spec [1, 2] [3])"
  by (rule sha1_hmac_correct) simp_all

end
