(* ===== verification/C_Strto.thy ===== *)
theory C_Strto
  imports C_String
begin

text \<open>
  Number parsing, \<^verbatim>\<open>lib/strto.c\<close>, over byte memory.  An \<^verbatim>\<open>unsigned long\<close> is
  a 64-bit word, so the accumulation wraps as the code's does; the end pointer is returned beside
  the value.  \<^const>\<open>None\<close> is a read outside the region.
\<close>

section \<open>Definitions\<close>

definition parse_integer_fixup_radix :: "mem \<Rightarrow> ptr \<Rightarrow> nat \<Rightarrow> (ptr \<times> nat) option" where
  "parse_integer_fixup_radix m s base =
     do { base' \<leftarrow> (if base = 0 then
            do { c0 \<leftarrow> rd m s;
                 if c0 = 48 then
                   do { c1 \<leftarrow> rd m (s + 1);
                        if tolower c1 = 120
                        then do { c2 \<leftarrow> rd m (s + 2); Some (if isxdigit c2 then 16 else 8) }
                        else Some 8 }
                 else Some 10 }
          else Some base);
          if base' = 16 then
            do { c0 \<leftarrow> rd m s;
                 if c0 = 48
                 then do { c1 \<leftarrow> rd m (s + 1); Some (if tolower c1 = 120 then s + 2 else s, base') }
                 else Some (s, base') }
          else Some (s, base') }"

text \<open>\<^verbatim>\<open>value = isdigit(*cp) ? *cp-'0' : (islower(*cp) ? toupper(*cp) : *cp)-'A'+10\<close>\<close>

definition digit_value :: "u8 \<Rightarrow> u64" where
  "digit_value c =
     (if isdigit c then ucast c - 48 else ucast (if islower c then toupper c else c) - 65 + 10)"

function strtoul_loop :: "mem \<Rightarrow> ptr \<Rightarrow> nat \<Rightarrow> u64 \<Rightarrow> (u64 \<times> ptr) option" where
  "strtoul_loop m cp base result =
     (if cp < length m
      then (if isxdigit (m ! cp) \<and> unat (digit_value (m ! cp)) < base
            then strtoul_loop m (cp + 1) base (result * of_nat base + digit_value (m ! cp))
            else Some (result, cp))
      else None)"
  by pat_completeness auto
termination
  by (relation "measure (\<lambda>(m, cp, b, r). length m - cp)") auto

declare strtoul_loop.simps [simp del]

definition simple_strtoul :: "mem \<Rightarrow> ptr \<Rightarrow> nat \<Rightarrow> (u64 \<times> ptr) option" where
  "simple_strtoul m cp base =
     do { (cp', base') \<leftarrow> parse_integer_fixup_radix m cp base; strtoul_loop m cp' base' 0 }"

definition EINVAL :: int where "EINVAL = 22"

text \<open>The returned pair is the return value and \<^verbatim>\<open>*res\<close>.\<close>

definition strict_strtoul :: "mem \<Rightarrow> ptr \<Rightarrow> nat \<Rightarrow> (int \<times> u64) option" where
  "strict_strtoul m cp base =
     do { len \<leftarrow> strlen m cp;
          if len = 0 then Some (- EINVAL, 0)
          else do { (val, tail) \<leftarrow> simple_strtoul m cp base;
                    if tail = cp then Some (- EINVAL, 0)
                    else do { c \<leftarrow> rd m tail;
                              if c = 0 \<or> len = tail - cp + 1 \<and> c = 10 then Some (0, val)
                              else Some (- EINVAL, 0) } } }"

definition simple_strtol :: "mem \<Rightarrow> ptr \<Rightarrow> nat \<Rightarrow> (u64 \<times> ptr) option" where
  "simple_strtol m cp base =
     do { c \<leftarrow> rd m cp;
          if c = 45 then map_option (\<lambda>(r, e). (- r, e)) (simple_strtoul m (cp + 1) base)
          else simple_strtoul m cp base }"

text \<open>The suffix switch of \<^verbatim>\<open>ustrtoul\<close>: the case labels fall through.\<close>

definition unit_suffix :: "mem \<Rightarrow> u64 \<Rightarrow> ptr \<Rightarrow> (u64 \<times> ptr) option" where
  "unit_suffix m result endp =
     do { c \<leftarrow> rd m endp;
          if c = 71 \<or> c = 77 \<or> c = 75 \<or> c = 107 then
            do { let r1 = (if c = 71 then result * 1024 else result);
                 let r2 = (if c = 71 \<or> c = 77 then r1 * 1024 else r1);
                 let r3 = r2 * 1024;
                 c1 \<leftarrow> rd m (endp + 1);
                 if c1 = 105
                 then do { c2 \<leftarrow> rd m (endp + 2); Some (r3, if c2 = 66 then endp + 3 else endp + 2) }
                 else Some (r3, endp) }
          else Some (result, endp) }"

definition ustrtoul :: "mem \<Rightarrow> ptr \<Rightarrow> nat \<Rightarrow> (u64 \<times> ptr) option" where
  "ustrtoul m cp base = do { (r, e) \<leftarrow> simple_strtoul m cp base; unit_suffix m r e }"

text \<open>\<^verbatim>\<open>unsigned long long\<close> has the same 64 bits.\<close>

definition simple_strtoull :: "mem \<Rightarrow> ptr \<Rightarrow> nat \<Rightarrow> (u64 \<times> ptr) option" where
  "simple_strtoull m cp base =
     do { (cp', base') \<leftarrow> parse_integer_fixup_radix m cp base; strtoul_loop m cp' base' 0 }"

definition ustrtoull :: "mem \<Rightarrow> ptr \<Rightarrow> nat \<Rightarrow> (u64 \<times> ptr) option" where
  "ustrtoull m cp base = do { (r, e) \<leftarrow> simple_strtoull m cp base; unit_suffix m r e }"

text \<open>The loop \<^verbatim>\<open>for (p = end - 1; p > str; p--)\<close>, with \<open>p = str + k\<close>.\<close>

fun trailing_loop :: "mem \<Rightarrow> ptr \<Rightarrow> nat \<Rightarrow> u64 option" where
  "trailing_loop m str 0 = Some (- 1)"
| "trailing_loop m str (Suc k) =
     do { c \<leftarrow> rd m (str + Suc k);
          if \<not> isdigit c then map_option fst (simple_strtoul m (str + Suc k + 1) 10)
          else trailing_loop m str k }"

definition trailing_strtoln :: "mem \<Rightarrow> ptr \<Rightarrow> ptr option \<Rightarrow> u64 option" where
  "trailing_strtoln m str ende =
     do { e \<leftarrow> (case ende of Some e \<Rightarrow> Some e | None \<Rightarrow> map_option ((+) str) (strlen m str));
          if e = 0 then None
          else do { c \<leftarrow> rd m (e - 1);
                    if isdigit c then trailing_loop m str (e - 1 - str) else Some (- 1) } }"

definition trailing_strtol :: "mem \<Rightarrow> ptr \<Rightarrow> u64 option" where
  "trailing_strtol m str = trailing_strtoln m str None"

section \<open>Reading digits\<close>

text \<open>A string of digits of the base, and its value.\<close>

definition digit_of :: "nat \<Rightarrow> u8 \<Rightarrow> bool" where
  "digit_of base c \<longleftrightarrow> isxdigit c \<and> unat (digit_value c) < base"

definition digits_value :: "nat \<Rightarrow> u8 list \<Rightarrow> nat" where
  "digits_value base ds = foldl (\<lambda>v c. v * base + unat (digit_value c)) 0 ds"

text \<open>The decimal numeral of a number, most significant digit first.\<close>

fun decimal :: "nat \<Rightarrow> u8 list" where
  "decimal n = (if n < 10 then [of_nat (48 + n)] else decimal (n div 10) @ [of_nat (48 + n mod 10)])"

declare decimal.simps [simp del]

lemma strtoul_loop_digits:
  "\<lbrakk>\<forall>c \<in> set ds. digit_of base c; cp + length ds < length m; seg m cp (length ds) = ds;
    \<not> digit_of base (m ! (cp + length ds))\<rbrakk> \<Longrightarrow>
   strtoul_loop m cp base r =
     Some (foldl (\<lambda>v c. v * of_nat base + digit_value c) r ds, cp + length ds)"
proof (induction ds arbitrary: cp r)
  case Nil
  then show ?case by (auto simp: strtoul_loop.simps [of m cp] digit_of_def)
next
  case (Cons c ds)
  then have "m ! cp = c" "seg m (cp + 1) (length ds) = ds" by (auto simp: seg_Suc)
  then show ?case
    using Cons by (auto simp: strtoul_loop.simps [of m cp] digit_of_def)
qed

lemma foldl_digits_of_nat:
  "foldl (\<lambda>v c. v * of_nat base + digit_value c) (of_nat r) ds =
     of_nat (foldl (\<lambda>v c. v * base + unat (digit_value c)) r ds)"
proof (induction ds arbitrary: r)
  case (Cons c ds)
  have "of_nat r * of_nat base + digit_value c = of_nat (r * base + unat (digit_value c))" by simp
  then show ?case using Cons.IH by (simp del: of_nat_add of_nat_mult)
qed simp

lemma decimal_digit:
  assumes "d < 10"
  shows "digit_of b (of_nat (48 + d)) \<longleftrightarrow> d < b" "digit_value (of_nat (48 + d)) = of_nat d"
proof -
  have "d \<in> {0, 1, 2, 3, 4, 5, 6, 7, 8, 9}" using assms by auto
  then show "digit_of b (of_nat (48 + d)) \<longleftrightarrow> d < b" "digit_value (of_nat (48 + d)) = of_nat d"
    by (auto simp: digit_of_def isxdigit_iff digit_value_def isdigit_iff)
qed

lemma decimal_set: "c \<in> set (decimal n) \<Longrightarrow> \<exists>d < 10. c = of_nat (48 + d)"
proof (induction n rule: decimal.induct)
  case (1 n)
  show ?case
  proof (cases "n < 10")
    case True
    then show ?thesis using 1 by (intro exI [of _ n]) (simp add: decimal.simps [of n])
  next
    case False
    then have "c \<in> set (decimal (n div 10)) \<or> c = of_nat (48 + n mod 10)"
      using 1 by (auto simp: decimal.simps [of n])
    moreover have "n mod 10 < 10" by simp
    ultimately show ?thesis using 1 False by blast
  qed
qed

lemma digits_value_snoc:
  "digits_value b (ds @ [c]) = digits_value b ds * b + unat (digit_value c)"
  by (simp add: digits_value_def)

lemma digits_value_decimal: "digits_value 10 (decimal n) = n"
proof (induction n rule: decimal.induct)
  case (1 n)
  have [simp]: "unat (of_nat d :: u64) = d" if "d < 10" for d
    using that by (simp add: unat_of_nat)
  show ?case
  proof (cases "n < 10")
    case True
    then show ?thesis
      using decimal_digit(2) [of n] by (simp add: decimal.simps [of n] digits_value_def del: of_nat_add)
  next
    case False
    then show ?thesis
      using 1 decimal_digit(2) [of "n mod 10"]
      by (simp add: decimal.simps [of n] digits_value_snoc del: of_nat_add)
  qed
qed

lemma simple_strtoul_digits:
  assumes "base \<notin> {0, 16}" "\<forall>c \<in> set ds. digit_of base c" "cp + length ds < length m"
    "seg m cp (length ds) = ds" "\<not> digit_of base (m ! (cp + length ds))"
  shows "simple_strtoul m cp base = Some (of_nat (digits_value base ds), cp + length ds)"
  using strtoul_loop_digits [OF assms(2-5), of 0] foldl_digits_of_nat [of base 0 ds] assms(1)
  by (simp add: simple_strtoul_def parse_integer_fixup_radix_def digits_value_def)

text \<open> \<^verbatim>\<open>simple_strtoul\<close> in base 10 reads back the decimal numeral of any number below
  \<^verbatim>\<open>2^64\<close> and leaves the end pointer at the first character that is no digit.
\<close>

theorem simple_strtoul_decimal:
  assumes "n < 2 ^ 64" and "cp + length (decimal n) < length m"
    and "seg m cp (length (decimal n)) = decimal n" and "\<not> digit_of 10 (m ! (cp + length (decimal n)))"
  shows "\<exists>r. simple_strtoul m cp 10 = Some (r, cp + length (decimal n)) \<and> unat r = n"
proof -
  have "\<forall>c \<in> set (decimal n). digit_of 10 c"
    using decimal_set decimal_digit(1) by fastforce
  from simple_strtoul_digits [OF _ this assms(2-4)] show ?thesis
    using assms(1) by (simp add: digits_value_decimal unat_of_nat)
qed

theorem simple_strtoul_decimal_witness:
  "\<exists>r. simple_strtoul [49, 49, 53, 50, 48, 48, 110, 0] 0 10 = Some (r, 6) \<and> unat r = 115200"
proof -
  have d: "decimal 115200 = [49, 49, 53, 50, 48, 48]" by (simp add: decimal.simps)
  have "\<not> digit_of 10 110" by code_simp
  moreover have "seg [49, 49, 53, 50, 48, 48, 110, 0 :: u8] 0 6 = [49, 49, 53, 50, 48, 48]"
    by (simp add: seg_def)
  moreover have l: "length (decimal 115200) = 6" by (simp add: d)
  ultimately show ?thesis
    using simple_strtoul_decimal
      [of 115200 0 "[49, 49, 53, 50, 48, 48, 110, 0]", unfolded l, unfolded d] by simp
qed

text \<open>The bare prefix \<^verbatim>\<open>0x\<close> passes \<^verbatim>\<open>strict_strtoul\<close> as the number 0: the tail
  is past the prefix, so it differs from the start of the string.\<close>

lemma strict_strtoul_bare_0x: "strict_strtoul [48, 120, 0] 0 16 = Some (0, 0)"
  by code_simp

end
