(* ===== verification/Board_Gpio.thy ===== *)
theory Board_Gpio
  imports UBoot_Prelude
begin

text \<open>
  The GPIO driver of the Firebox T20/T40 boards, \<^verbatim>\<open>board/freescale/ls1043aqds_t40/gpio.c\<close>.
  The memory-mapped registers are a function from address to value; \<open>bus\<close> is the sequence of
  register writes as the hardware sees it.  A GPIO number is \<open>100 * group + pin\<close>; a number whose
  group or pin is out of range makes the C code index outside \<^verbatim>\<open>gpio_support\<close> or shift by
  more than 31, which is \<^const>\<open>None\<close> here.
\<close>

section \<open>Definitions\<close>

record gpio_hw =
  regs :: "u32 \<Rightarrow> u32"
  bus :: "(u32 \<times> u32) list"

definition GPIO_BASE :: u32 where "GPIO_BASE = 0x2300000"

definition gpio_direction :: "u32 list" where
  "gpio_direction = [GPIO_BASE, GPIO_BASE + 0x10000, GPIO_BASE + 0x20000, GPIO_BASE + 0x30000]"

definition gpio_data :: "u32 list" where
  "gpio_data = [GPIO_BASE + 8, GPIO_BASE + 0x10000 + 8, GPIO_BASE + 0x20000 + 8, GPIO_BASE + 0x30000 + 8]"

text \<open>The masks of \<^verbatim>\<open>include/configs/ls1043aqds_t40.h\<close>.\<close>

definition gpio_support :: "u32 list" where
  "gpio_support =
     [push_bit 13 3 OR push_bit 23 0x1ff,
      push_bit 0 0x1ff OR push_bit 11 0x1f,
      push_bit 15 0x1fff,
      push_bit 2 3 OR push_bit 12 3 OR push_bit 29 3]"

definition BYTE_SWAP :: "nat \<Rightarrow> nat" where
  "BYTE_SWAP x = (x div 8) * 16 + 7 - x"

definition grp_of :: "nat \<Rightarrow> nat" where "grp_of gpio = gpio div 100"
definition pos_of :: "nat \<Rightarrow> nat" where "pos_of gpio = gpio mod 100"

text \<open>\<^verbatim>\<open>is_support\<close> returns 0 when the pin is supported.\<close>

definition is_support :: "nat \<Rightarrow> int option" where
  "is_support gpio =
     (let grp = grp_of gpio; pos = pos_of gpio in
      if 1 \<le> grp \<and> grp \<le> 4 \<and> pos < 32
      then Some (if drop_bit pos (gpio_support ! (grp - 1)) AND 1 = 0 then 1 else 0)
      else None)"

definition gpio_request :: "nat \<Rightarrow> int option" where
  "gpio_request gpio = map_option (\<lambda>s. if s = 0 then 0 else - 1) (is_support gpio)"

definition gpio_free :: "nat \<Rightarrow> int" where
  "gpio_free gpio = 0"

text \<open>One read-modify-write of a register.\<close>

definition rmw :: "u32 \<Rightarrow> (u32 \<Rightarrow> u32) \<Rightarrow> gpio_hw \<Rightarrow> gpio_hw" where
  "rmw addr f h = (let val = f (regs h addr)
     in h\<lparr>regs := (regs h)(addr := val), bus := bus h @ [(addr, val)]\<rparr>)"

definition set_pos :: "nat \<Rightarrow> u32 \<Rightarrow> u32" where "set_pos pos val = val OR push_bit pos 1"
definition clr_pos :: "nat \<Rightarrow> u32 \<Rightarrow> u32" where "clr_pos pos val = val AND NOT (push_bit pos 1)"

definition dir_reg :: "nat \<Rightarrow> u32" where "dir_reg gpio = gpio_direction ! (grp_of gpio - 1)"
definition data_reg :: "nat \<Rightarrow> u32" where "data_reg gpio = gpio_data ! (grp_of gpio - 1)"
definition pin_pos :: "nat \<Rightarrow> nat" where "pin_pos gpio = BYTE_SWAP (pos_of gpio)"

definition gpio_direction_input :: "nat \<Rightarrow> gpio_hw \<Rightarrow> (int \<times> gpio_hw) option" where
  "gpio_direction_input gpio h =
     (case is_support gpio of None \<Rightarrow> None
      | Some s \<Rightarrow> if s \<noteq> 0 then Some (- 1, h)
                 else Some (0, rmw (dir_reg gpio) (clr_pos (pin_pos gpio)) h))"

definition gpio_set_value :: "nat \<Rightarrow> int \<Rightarrow> gpio_hw \<Rightarrow> (int \<times> gpio_hw) option" where
  "gpio_set_value gpio value h =
     (case is_support gpio of None \<Rightarrow> None
      | Some s \<Rightarrow> if s \<noteq> 0 then Some (- 1, h)
                 else Some (0, rmw (data_reg gpio)
                   (if value \<noteq> 0 then set_pos (pin_pos gpio) else clr_pos (pin_pos gpio)) h))"

definition gpio_direction_output :: "nat \<Rightarrow> int \<Rightarrow> gpio_hw \<Rightarrow> (int \<times> gpio_hw) option" where
  "gpio_direction_output gpio value h =
     (case is_support gpio of None \<Rightarrow> None
      | Some s \<Rightarrow> if s \<noteq> 0 then Some (- 1, h)
                 else do { (_, h') \<leftarrow> gpio_set_value gpio value h;
                           Some (0, rmw (dir_reg gpio) (set_pos (pin_pos gpio)) h') })"

definition gpio_get_value :: "nat \<Rightarrow> gpio_hw \<Rightarrow> int option" where
  "gpio_get_value gpio h =
     (case is_support gpio of None \<Rightarrow> None
      | Some s \<Rightarrow> if s \<noteq> 0 then Some (- 1)
                 else Some (uint (drop_bit (pin_pos gpio) (regs h (data_reg gpio)) AND 1)))"

section \<open>Bits and registers\<close>

definition supported :: "nat \<Rightarrow> bool" where
  "supported gpio \<longleftrightarrow> is_support gpio = Some 0"

text \<open>The level and the direction of a pin, read off the registers.\<close>

definition pin_level :: "(u32 \<Rightarrow> u32) \<Rightarrow> nat \<Rightarrow> bool" where
  "pin_level r gpio = bit (r (data_reg gpio)) (pin_pos gpio)"

definition pin_output :: "(u32 \<Rightarrow> u32) \<Rightarrow> nat \<Rightarrow> bool" where
  "pin_output r gpio = bit (r (dir_reg gpio)) (pin_pos gpio)"

lemma supportedD: "supported gpio \<Longrightarrow> 1 \<le> grp_of gpio \<and> grp_of gpio \<le> 4 \<and> pos_of gpio < 32"
  by (auto simp: supported_def is_support_def Let_def split: if_splits)

lemma supported_grp: "supported gpio \<Longrightarrow> grp_of gpio - 1 < 4"
  using supportedD [of gpio] by arith

lemma BYTE_SWAP_table: "\<forall>x \<in> set [0..<32]. BYTE_SWAP x < 32 \<and> BYTE_SWAP (BYTE_SWAP x) = x"
  by code_simp

lemma BYTE_SWAP_less: "x < 32 \<Longrightarrow> BYTE_SWAP x < 32"
  using BYTE_SWAP_table by simp

lemma BYTE_SWAP_involutive: "x < 32 \<Longrightarrow> BYTE_SWAP (BYTE_SWAP x) = x"
  using BYTE_SWAP_table by simp

lemma pin_pos_less: "supported gpio \<Longrightarrow> pin_pos gpio < 32"
  using supportedD by (simp add: pin_pos_def BYTE_SWAP_less)

lemma bit_set_pos: "pos < 32 \<Longrightarrow> bit (set_pos pos w) n \<longleftrightarrow> n = pos \<or> bit w n"
  by (auto simp: set_pos_def bit_simps)

lemma bit_clr_pos: "bit (clr_pos pos w) n \<longleftrightarrow> n \<noteq> pos \<and> bit w n"
  by (cases "n < 32") (auto simp: clr_pos_def bit_simps dest: bit_imp_le_length)

lemma regs_distinct:
  assumes "i < 4" "j < 4"
  shows "gpio_data ! i = gpio_data ! j \<longleftrightarrow> i = j" "gpio_direction ! i = gpio_direction ! j \<longleftrightarrow> i = j"
    "gpio_data ! i \<noteq> gpio_direction ! j"
proof -
  have "i \<in> {0, 1, 2, 3}" "j \<in> {0, 1, 2, 3}" using assms by auto
  then show "gpio_data ! i = gpio_data ! j \<longleftrightarrow> i = j" "gpio_direction ! i = gpio_direction ! j \<longleftrightarrow> i = j"
    "gpio_data ! i \<noteq> gpio_direction ! j"
    by (auto simp: gpio_data_def gpio_direction_def GPIO_BASE_def)
qed

lemma data_dir_distinct [simp]:
  "supported g \<Longrightarrow> supported h \<Longrightarrow> data_reg g \<noteq> dir_reg h"
  "supported g \<Longrightarrow> supported h \<Longrightarrow> dir_reg h \<noteq> data_reg g"
  using regs_distinct(3) [OF supported_grp supported_grp, of g h]
  by (simp_all add: data_reg_def dir_reg_def eq_commute)

text \<open>Two supported pins share a register bit only when they are the same pin.\<close>

lemma pin_unique:
  assumes "supported g" "supported h" "pin_pos g = pin_pos h"
    "data_reg g = data_reg h \<or> dir_reg g = dir_reg h"
  shows "g = h"
proof -
  have "grp_of g - 1 = grp_of h - 1"
    using assms(4) regs_distinct(1,2) [OF supported_grp supported_grp, OF assms(1,2)]
    by (auto simp: data_reg_def dir_reg_def)
  then have "grp_of g = grp_of h"
    using supportedD [OF assms(1)] supportedD [OF assms(2)] by arith
  moreover have "pos_of g = pos_of h"
  proof -
    have "BYTE_SWAP (BYTE_SWAP (pos_of g)) = BYTE_SWAP (BYTE_SWAP (pos_of h))"
      by (simp only: assms(3) [unfolded pin_pos_def])
    then show ?thesis
      by (simp only: BYTE_SWAP_involutive supportedD [OF assms(1)] supportedD [OF assms(2)])
  qed
  ultimately have "g div 100 = h div 100" "g mod 100 = h mod 100"
    by (simp_all add: grp_of_def pos_of_def)
  then have "100 * (g div 100) + g mod 100 = 100 * (h div 100) + h mod 100" by simp
  then show "g = h" by (simp only: mult_div_mod_eq)
qed

lemma gpio_direction_output_run:
  assumes "supported g"
  shows "gpio_direction_output g v h =
    Some (0, rmw (dir_reg g) (set_pos (pin_pos g))
      (rmw (data_reg g) (if v \<noteq> 0 then set_pos (pin_pos g) else clr_pos (pin_pos g)) h))"
  using assms by (simp add: gpio_direction_output_def gpio_set_value_def supported_def)

lemma rmw_regs [simp]: "regs (rmw a f h) = (regs h)(a := f (regs h a))"
  by (simp add: rmw_def Let_def)

lemma rmw_bus [simp]: "bus (rmw a f h) = bus h @ [(a, f (regs h a))]"
  by (simp add: rmw_def Let_def)

text \<open> Driving a supported pin (\<^verbatim>\<open>gpio_direction_output\<close>) succeeds, makes it an output,
  puts it at the requested level, which \<^verbatim>\<open>gpio_get_value\<close> then reads back, and leaves the
  level and direction of every other supported pin as they were; no other register changes.
\<close>

theorem gpio_direction_output_correct:
  assumes "supported g"
  shows "\<exists>h'. gpio_direction_output g v h = Some (0, h')
    \<and> pin_output (regs h') g \<and> pin_level (regs h') g = (v \<noteq> 0)
    \<and> gpio_get_value g h' = Some (if v \<noteq> 0 then 1 else 0)
    \<and> (\<forall>p. supported p \<longrightarrow> p \<noteq> g \<longrightarrow>
         pin_level (regs h') p = pin_level (regs h) p \<and> pin_output (regs h') p = pin_output (regs h) p)
    \<and> (\<forall>a. a \<noteq> data_reg g \<longrightarrow> a \<noteq> dir_reg g \<longrightarrow> regs h' a = regs h a)"
proof -
  define h' where "h' = rmw (dir_reg g) (set_pos (pin_pos g))
    (rmw (data_reg g) (if v \<noteq> 0 then set_pos (pin_pos g) else clr_pos (pin_pos g)) h)"
  note pos = pin_pos_less [OF assms]
  have lvl: "pin_level (regs h') g = (v \<noteq> 0)" and out: "pin_output (regs h') g"
    using assms pos by (auto simp: h'_def pin_level_def pin_output_def bit_set_pos bit_clr_pos)
  have "drop_bit (pin_pos g) (regs h' (data_reg g)) AND 1 = (if v \<noteq> 0 then 1 else 0)"
    using lvl by (simp add: pin_level_def bit_iff_odd_drop_bit and_one_eq mod_2_eq_odd)
  then have get: "gpio_get_value g h' = Some (if v \<noteq> 0 then 1 else 0)"
    using assms by (simp add: gpio_get_value_def supported_def)
  have frame: "pin_level (regs h') p = pin_level (regs h) p \<and> pin_output (regs h') p = pin_output (regs h) p"
    if "supported p" "p \<noteq> g" for p
    using assms that pos pin_unique [of p g]
    by (auto simp: h'_def pin_level_def pin_output_def bit_set_pos bit_clr_pos)
  have "regs h' a = regs h a" if "a \<noteq> data_reg g" "a \<noteq> dir_reg g" for a
    using that by (simp add: h'_def)
  then show ?thesis
    using gpio_direction_output_run [OF assms, of v h] lvl out get frame
    by (auto simp: h'_def [symmetric])
qed

theorem gpio_direction_output_correct_witness:
  "\<exists>h'. gpio_direction_output 127 1 \<lparr>regs = \<lambda>_. 0, bus = []\<rparr> = Some (0, h')
    \<and> pin_output (regs h') 127 \<and> pin_level (regs h') 127 \<and> gpio_get_value 127 h' = Some 1"
proof -
  have "supported 127" by code_simp
  from gpio_direction_output_correct [OF this, of 1 "\<lparr>regs = \<lambda>_. 0, bus = []\<rparr>"]
  show ?thesis by auto
qed

end
