(* ===== verification/Board_Led.thy ===== *)
theory Board_Led
  imports Board_Gpio C_Strto
begin

text \<open>
  The front-panel LEDs of the T20/T40: \<^verbatim>\<open>sn74lv164a.c\<close>, which bit-bangs a serial-in
  parallel-out shift register through three GPIO pins, and \<^verbatim>\<open>led.c\<close>, the
  \<^verbatim>\<open>led\<close> command on top of it.  The chip is not code of the repository: the locale
  \<open>shift_register\<close> states what its data sheet promises, and the results hold for every device that
  keeps those promises.  A line that no pin drives is taken as low.
\<close>

section \<open>The shift register\<close>

text \<open>The three lines: clear (active low), clock and serial data.\<close>

record lines =
  l_clr :: bool
  l_clk :: bool
  l_ina :: bool

locale shift_register =
  fixes obs :: "lines \<Rightarrow> lines \<Rightarrow> 'd \<Rightarrow> 'd"
    and outs :: "'d \<Rightarrow> bool list"
  assumes outs_length: "length (outs d) = 8"
    and clear: "\<not> l_clr l' \<Longrightarrow> outs (obs l l' d) = replicate 8 False"
    and shift: "l_clr l' \<Longrightarrow> \<not> l_clk l \<Longrightarrow> l_clk l' \<Longrightarrow>
      outs (obs l l' d) = l_ina l' # butlast (outs d)"
    and hold: "l_clr l' \<Longrightarrow> \<not> (\<not> l_clk l \<and> l_clk l') \<Longrightarrow> outs (obs l l' d) = outs d"

section \<open>Definitions\<close>

definition SN74LV164A_CLR_GPIO :: nat where "SN74LV164A_CLR_GPIO = 205"
definition SN74LV164A_CLK_GPIO :: nat where "SN74LV164A_CLK_GPIO = 127"
definition SN74LV164A_INA_GPIO :: nat where "SN74LV164A_INA_GPIO = 128"
definition SN74LV164A_OUT_NUM :: nat where "SN74LV164A_OUT_NUM = 8"
definition SN74LV164A_OUT_HIGH :: int where "SN74LV164A_OUT_HIGH = 1"
definition SN74LV164A_OUT_LOW :: int where "SN74LV164A_OUT_LOW = 0"

record board =
  hw :: gpio_hw
  SN74LV164A_OUT_VAL :: "int list"

definition drive_pin :: "nat \<Rightarrow> int \<Rightarrow> gpio_hw \<Rightarrow> gpio_hw option" where
  "drive_pin gpio v h = map_option snd (gpio_direction_output gpio v h)"

definition SN74LV164A_CLR :: "int \<Rightarrow> gpio_hw \<Rightarrow> gpio_hw option" where
  "SN74LV164A_CLR v h = drive_pin SN74LV164A_CLR_GPIO v h"

definition SN74LV164A_CLK :: "int \<Rightarrow> gpio_hw \<Rightarrow> gpio_hw option" where
  "SN74LV164A_CLK v h = drive_pin SN74LV164A_CLK_GPIO v h"

definition SN74LV164A_INA :: "int \<Rightarrow> gpio_hw \<Rightarrow> gpio_hw option" where
  "SN74LV164A_INA v h = drive_pin SN74LV164A_INA_GPIO v h"

text \<open>The loop body of \<^verbatim>\<open>sn74lv164a_set\<close>, for one value of \<^verbatim>\<open>i\<close>.\<close>

definition send_bit :: "int \<Rightarrow> gpio_hw \<Rightarrow> gpio_hw option" where
  "send_bit v h = do { h1 \<leftarrow> SN74LV164A_INA v h; h2 \<leftarrow> SN74LV164A_CLK 1 h1; SN74LV164A_CLK 0 h2 }"

fun send_bits :: "nat \<Rightarrow> nat \<Rightarrow> int list \<Rightarrow> gpio_hw \<Rightarrow> gpio_hw option" where
  "send_bits i 0 vals h = Some h"
| "send_bits i (Suc k) vals h =
     do { h' \<leftarrow> send_bit (vals ! (SN74LV164A_OUT_NUM - (i + 1))) h; send_bits (i + 1) k vals h' }"

definition sn74lv164a_set :: "board \<Rightarrow> board option" where
  "sn74lv164a_set b =
     map_option (\<lambda>h. b\<lparr>hw := h\<rparr>) (send_bits 0 SN74LV164A_OUT_NUM (SN74LV164A_OUT_VAL b) (hw b))"

definition sn74lv164a_clear :: "board \<Rightarrow> board option" where
  "sn74lv164a_clear b =
     do { h1 \<leftarrow> SN74LV164A_CLR 1 (hw b); h2 \<leftarrow> SN74LV164A_CLR 0 h1; h3 \<leftarrow> SN74LV164A_CLR 1 h2;
          Some (b\<lparr>hw := h3\<rparr>) }"

text \<open>A pin outside the array is a store outside it.\<close>

definition sn74lv164a_set_value :: "nat \<Rightarrow> int \<Rightarrow> board \<Rightarrow> board option" where
  "sn74lv164a_set_value pin val b =
     (if pin < length (SN74LV164A_OUT_VAL b)
      then sn74lv164a_set (b\<lparr>SN74LV164A_OUT_VAL := (SN74LV164A_OUT_VAL b)[pin := val]\<rparr>) else None)"

definition sn74lv164a_set_value_all_high :: "board \<Rightarrow> board option" where
  "sn74lv164a_set_value_all_high b =
     sn74lv164a_set (b\<lparr>SN74LV164A_OUT_VAL := replicate SN74LV164A_OUT_NUM SN74LV164A_OUT_HIGH\<rparr>)"

definition sn74lv164a_set_value_all_low :: "board \<Rightarrow> board option" where
  "sn74lv164a_set_value_all_low b =
     sn74lv164a_set (b\<lparr>SN74LV164A_OUT_VAL := replicate SN74LV164A_OUT_NUM SN74LV164A_OUT_LOW\<rparr>)"

definition CMD_RET_USAGE :: int where "CMD_RET_USAGE = - 1"
definition CMD_RET_SUCCESS :: int where "CMD_RET_SUCCESS = 0"

definition str_bytes :: "string \<Rightarrow> u8 list" where
  "str_bytes s = map of_char s"

text \<open>The pin names of the \<^verbatim>\<open>74lv164\<close> command, in the order of the code's tests.\<close>

definition pin_names :: "(string \<times> nat) list" where
  "pin_names = [(''qa'', 0), (''qb'', 1), (''qc'', 2), (''qd'', 3), (''qe'', 4), (''qf'', 5),
     (''qg'', 6), (''qh'', 7)]"

text \<open>\<^verbatim>\<open>val\<close> is an \<^verbatim>\<open>int\<close>, so the parsed number is cut to 32 bits.\<close>

definition do_74lv164 :: "string list \<Rightarrow> board \<Rightarrow> (int \<times> board) option" where
  "do_74lv164 argv b =
     (if length argv = 2 then
        (if argv ! 1 = ''clear'' then map_option (Pair CMD_RET_SUCCESS) (sn74lv164a_clear b)
         else if argv ! 1 = ''high''
         then map_option (Pair CMD_RET_SUCCESS) (sn74lv164a_set_value_all_high b)
         else if argv ! 1 = ''low''
         then map_option (Pair CMD_RET_SUCCESS) (sn74lv164a_set_value_all_low b)
         else Some (CMD_RET_USAGE, b))
      else if length argv = 3 then
        (case map_of pin_names (argv ! 1) of
           None \<Rightarrow> Some (CMD_RET_USAGE, b)
         | Some pin \<Rightarrow>
             do { (r, _) \<leftarrow> simple_strtoul (str_bytes (argv ! 2) @ [0]) 0 10;
                  map_option (Pair CMD_RET_SUCCESS)
                    (sn74lv164a_set_value pin (sint (ucast r :: u32)) b) })
      else Some (CMD_RET_USAGE, b))"

definition LED_FAIL :: nat where "LED_FAIL = 0"
definition LED_ATTN :: nat where "LED_ATTN = 1"
definition LED_STAT :: nat where "LED_STAT = 2"
definition LED_MODE :: nat where "LED_MODE = 3"
definition LED_WAP0 :: nat where "LED_WAP0 = 4"
definition LED_WAP1 :: nat where "LED_WAP1 = 5"
definition LED_ON :: int where "LED_ON = 0"
definition LED_OFF :: int where "LED_OFF = 1"

definition do_led :: "string list \<Rightarrow> board \<Rightarrow> (int \<times> board) option" where
  "do_led argv b =
     (if length argv \<noteq> 2 then Some (CMD_RET_USAGE, b)
      else if argv ! 1 = ''on'' then map_option (Pair 0) (sn74lv164a_set_value_all_low b)
      else if argv ! 1 = ''off'' then map_option (Pair 0) (sn74lv164a_set_value_all_high b)
      else if argv ! 1 = ''reset'' then map_option (Pair 0) (sn74lv164a_clear b)
      else if argv ! 1 = ''fail'' then map_option (Pair 0) (sn74lv164a_set_value LED_FAIL LED_ON b)
      else if argv ! 1 = ''attn'' then map_option (Pair 0) (sn74lv164a_set_value LED_ATTN LED_ON b)
      else if argv ! 1 = ''stat'' then map_option (Pair 0) (sn74lv164a_set_value LED_STAT LED_ON b)
      else if argv ! 1 = ''mode'' then map_option (Pair 0) (sn74lv164a_set_value LED_MODE LED_ON b)
      else if argv ! 1 = ''2g'' then
        do { b' \<leftarrow> sn74lv164a_set_value LED_WAP1 LED_OFF b;
             map_option (Pair 0) (sn74lv164a_set_value LED_WAP0 LED_ON b') }
      else if argv ! 1 = ''5g'' then
        do { b' \<leftarrow> sn74lv164a_set_value LED_WAP1 LED_ON b;
             map_option (Pair 0) (sn74lv164a_set_value LED_WAP0 LED_OFF b') }
      else Some (CMD_RET_USAGE, b))"

section \<open>What the chip sees\<close>

definition wire :: "(u32 \<Rightarrow> u32) \<Rightarrow> nat \<Rightarrow> bool" where
  "wire r g \<longleftrightarrow> pin_output r g \<and> pin_level r g"

definition lines_of :: "(u32 \<Rightarrow> u32) \<Rightarrow> lines" where
  "lines_of r = \<lparr>l_clr = wire r SN74LV164A_CLR_GPIO, l_clk = wire r SN74LV164A_CLK_GPIO,
     l_ina = wire r SN74LV164A_INA_GPIO\<rparr>"

text \<open>The device after the register writes of the bus, one observation per write.\<close>

fun replay :: "(lines \<Rightarrow> lines \<Rightarrow> 'd \<Rightarrow> 'd) \<Rightarrow> (u32 \<Rightarrow> u32) \<Rightarrow> (u32 \<times> u32) list \<Rightarrow> 'd \<Rightarrow> 'd" where
  "replay obs r [] d = d"
| "replay obs r ((a, v) # ws) d =
     replay obs (r(a := v)) ws (obs (lines_of r) (lines_of (r(a := v))) d)"

fun after_writes :: "(u32 \<Rightarrow> u32) \<Rightarrow> (u32 \<times> u32) list \<Rightarrow> (u32 \<Rightarrow> u32)" where
  "after_writes r [] = r"
| "after_writes r ((a, v) # ws) = after_writes (r(a := v)) ws"

text \<open>The hardware has run from registers \<open>r\<close>.\<close>

definition run_from :: "(u32 \<Rightarrow> u32) \<Rightarrow> gpio_hw \<Rightarrow> bool" where
  "run_from r h \<longleftrightarrow> regs h = after_writes r (bus h)"

lemma replay_snoc:
  "replay obs r (ws @ [(a, v)]) d =
     obs (lines_of (after_writes r ws)) (lines_of ((after_writes r ws)(a := v))) (replay obs r ws d)"
  by (induction ws arbitrary: r d) auto

lemma after_writes_snoc: "after_writes r (ws @ [(a, v)]) = (after_writes r ws)(a := v)"
  by (induction ws arbitrary: r) auto

lemma led_pins_supported [simp]:
  "supported SN74LV164A_CLR_GPIO" "supported SN74LV164A_CLK_GPIO" "supported SN74LV164A_INA_GPIO"
  by code_simp+

lemma led_pins_distinct [simp]:
  "SN74LV164A_CLR_GPIO \<noteq> SN74LV164A_CLK_GPIO" "SN74LV164A_CLR_GPIO \<noteq> SN74LV164A_INA_GPIO"
  "SN74LV164A_CLK_GPIO \<noteq> SN74LV164A_INA_GPIO" "SN74LV164A_CLK_GPIO \<noteq> SN74LV164A_CLR_GPIO"
  "SN74LV164A_INA_GPIO \<noteq> SN74LV164A_CLR_GPIO" "SN74LV164A_INA_GPIO \<noteq> SN74LV164A_CLK_GPIO"
  by (simp_all add: SN74LV164A_CLR_GPIO_def SN74LV164A_CLK_GPIO_def SN74LV164A_INA_GPIO_def)

text \<open>The registers after the first and after the second write of \<^verbatim>\<open>gpio_direction_output\<close>.\<close>

definition mid_regs :: "nat \<Rightarrow> int \<Rightarrow> (u32 \<Rightarrow> u32) \<Rightarrow> (u32 \<Rightarrow> u32)" where
  "mid_regs g v r = r(data_reg g :=
     (if v \<noteq> 0 then set_pos (pin_pos g) else clr_pos (pin_pos g)) (r (data_reg g)))"

definition end_regs :: "nat \<Rightarrow> int \<Rightarrow> (u32 \<Rightarrow> u32) \<Rightarrow> (u32 \<Rightarrow> u32)" where
  "end_regs g v r = (mid_regs g v r)(dir_reg g := set_pos (pin_pos g) (mid_regs g v r (dir_reg g)))"

lemma wire_mid:
  assumes "supported g" "supported p"
  shows "wire (mid_regs g v r) p = (if p = g then pin_output r g \<and> v \<noteq> 0 else wire r p)"
  using assms pin_pos_less [OF assms(1)] pin_unique [OF assms(2,1)]
  by (auto simp: wire_def mid_regs_def pin_level_def pin_output_def bit_set_pos bit_clr_pos)

lemma wire_end:
  assumes "supported g" "supported p"
  shows "wire (end_regs g v r) p = (if p = g then v \<noteq> 0 else wire r p)"
  using assms pin_pos_less [OF assms(1)] pin_unique [OF assms(2,1)]
  by (auto simp: wire_def end_regs_def mid_regs_def pin_level_def pin_output_def bit_set_pos
      bit_clr_pos)

lemma drive_pin_run:
  assumes "supported g" "run_from r h"
  shows "\<exists>h'. drive_pin g v h = Some h' \<and> run_from r h' \<and> regs h' = end_regs g v (regs h)
    \<and> replay obs r (bus h') d = obs (lines_of (mid_regs g v (regs h))) (lines_of (end_regs g v (regs h)))
        (obs (lines_of (regs h)) (lines_of (mid_regs g v (regs h))) (replay obs r (bus h) d))"
proof -
  let ?f = "if v \<noteq> 0 then set_pos (pin_pos g) else clr_pos (pin_pos g)"
  let ?h1 = "rmw (data_reg g) ?f h"
  let ?h2 = "rmw (dir_reg g) (set_pos (pin_pos g)) ?h1"
  have r: "after_writes r (bus h) = regs h" using assms(2) by (simp add: run_from_def)
  have m: "(regs h)(data_reg g := ?f (regs h (data_reg g))) = mid_regs g v (regs h)"
    by (simp add: mid_regs_def)
  have e: "regs ?h2 = end_regs g v (regs h)" by (simp add: end_regs_def mid_regs_def)
  have b1: "bus ?h1 = bus h @ [(data_reg g, ?f (regs h (data_reg g)))]" by simp
  have b2: "bus ?h2 = bus ?h1 @ [(dir_reg g, set_pos (pin_pos g) (regs ?h1 (dir_reg g)))]"
    by (simp only: rmw_bus)
  have m1: "regs ?h1 = mid_regs g v (regs h)" using m by simp
  have a1: "after_writes r (bus ?h1) = mid_regs g v (regs h)"
    by (simp only: b1 after_writes_snoc r m)
  have a2: "after_writes r (bus ?h2) = end_regs g v (regs h)"
    by (simp only: b2 after_writes_snoc a1 m1 end_regs_def)
  have "replay obs r (bus ?h1) d =
      obs (lines_of (regs h)) (lines_of (mid_regs g v (regs h))) (replay obs r (bus h) d)"
    by (simp only: b1 replay_snoc r m)
  then have "replay obs r (bus ?h2) d =
      obs (lines_of (mid_regs g v (regs h))) (lines_of (end_regs g v (regs h)))
        (obs (lines_of (regs h)) (lines_of (mid_regs g v (regs h))) (replay obs r (bus h) d))"
    by (simp only: b2 replay_snoc a1 m1 end_regs_def)
  moreover have "drive_pin g v h = Some ?h2"
    using gpio_direction_output_run [OF assms(1)] by (simp add: drive_pin_def)
  moreover have "run_from r ?h2" using a2 e by (simp add: run_from_def)
  ultimately show ?thesis using e by blast
qed


text \<open>The driver's standing state: the chip is out of clear and the clock is low.\<close>

definition bus_idle :: "(u32 \<Rightarrow> u32) \<Rightarrow> gpio_hw \<Rightarrow> bool" where
  "bus_idle r h \<longleftrightarrow> run_from r h \<and> wire (regs h) SN74LV164A_CLR_GPIO
     \<and> \<not> wire (regs h) SN74LV164A_CLK_GPIO"

definition led_ready :: "(u32 \<Rightarrow> u32) \<Rightarrow> board \<Rightarrow> bool" where
  "led_ready r b \<longleftrightarrow> bus_idle r (hw b) \<and> length (SN74LV164A_OUT_VAL b) = SN74LV164A_OUT_NUM"

section \<open>The protocol, for any chip\<close>

context shift_register
begin

lemma set_data:
  assumes "bus_idle r h"
  shows "\<exists>h'. SN74LV164A_INA v h = Some h' \<and> bus_idle r h' \<and> wire (regs h') SN74LV164A_INA_GPIO = (v \<noteq> 0)
    \<and> outs (replay obs r (bus h') d) = outs (replay obs r (bus h) d)"
proof -
  obtain h' where h': "drive_pin SN74LV164A_INA_GPIO v h = Some h'" "run_from r h'"
    "regs h' = end_regs SN74LV164A_INA_GPIO v (regs h)"
    and rp: "replay obs r (bus h') d =
      obs (lines_of (mid_regs SN74LV164A_INA_GPIO v (regs h))) (lines_of (end_regs SN74LV164A_INA_GPIO v (regs h)))
        (obs (lines_of (regs h)) (lines_of (mid_regs SN74LV164A_INA_GPIO v (regs h))) (replay obs r (bus h) d))"
    using drive_pin_run [of SN74LV164A_INA_GPIO r h v obs d] assms by (auto simp: bus_idle_def)
  have "outs (replay obs r (bus h') d) = outs (replay obs r (bus h) d)"
    unfolding rp using assms by (simp add: hold lines_of_def wire_mid wire_end bus_idle_def)
  then show ?thesis using h' assms by (auto simp: SN74LV164A_INA_def bus_idle_def wire_end)
qed

lemma clock_high:
  assumes "bus_idle r h"
  shows "\<exists>h'. SN74LV164A_CLK 1 h = Some h' \<and> run_from r h' \<and> wire (regs h') SN74LV164A_CLR_GPIO
    \<and> outs (replay obs r (bus h') d) =
        wire (regs h) SN74LV164A_INA_GPIO # butlast (outs (replay obs r (bus h) d))"
proof -
  obtain h' where h': "drive_pin SN74LV164A_CLK_GPIO 1 h = Some h'" "run_from r h'"
    "regs h' = end_regs SN74LV164A_CLK_GPIO 1 (regs h)"
    and rp: "replay obs r (bus h') d =
      obs (lines_of (mid_regs SN74LV164A_CLK_GPIO 1 (regs h))) (lines_of (end_regs SN74LV164A_CLK_GPIO 1 (regs h)))
        (obs (lines_of (regs h)) (lines_of (mid_regs SN74LV164A_CLK_GPIO 1 (regs h))) (replay obs r (bus h) d))"
    using drive_pin_run [of SN74LV164A_CLK_GPIO r h 1 obs d] assms by (auto simp: bus_idle_def)
  have "outs (replay obs r (bus h') d) =
      wire (regs h) SN74LV164A_INA_GPIO # butlast (outs (replay obs r (bus h) d))"
    unfolding rp using assms
    by (cases "pin_output (regs h) SN74LV164A_CLK_GPIO")
      (simp_all add: hold shift lines_of_def wire_mid wire_end bus_idle_def)
  then show ?thesis using h' assms by (auto simp: SN74LV164A_CLK_def bus_idle_def wire_end)
qed

lemma clock_low:
  assumes "run_from r h" "wire (regs h) SN74LV164A_CLR_GPIO"
  shows "\<exists>h'. SN74LV164A_CLK 0 h = Some h' \<and> bus_idle r h'
    \<and> outs (replay obs r (bus h') d) = outs (replay obs r (bus h) d)"
proof -
  obtain h' where h': "drive_pin SN74LV164A_CLK_GPIO 0 h = Some h'" "run_from r h'"
    "regs h' = end_regs SN74LV164A_CLK_GPIO 0 (regs h)"
    and rp: "replay obs r (bus h') d =
      obs (lines_of (mid_regs SN74LV164A_CLK_GPIO 0 (regs h))) (lines_of (end_regs SN74LV164A_CLK_GPIO 0 (regs h)))
        (obs (lines_of (regs h)) (lines_of (mid_regs SN74LV164A_CLK_GPIO 0 (regs h))) (replay obs r (bus h) d))"
    using drive_pin_run [of SN74LV164A_CLK_GPIO r h 0 obs d] assms by auto
  have "outs (replay obs r (bus h') d) = outs (replay obs r (bus h) d)"
    unfolding rp using assms by (simp add: hold lines_of_def wire_mid wire_end)
  then show ?thesis using h' assms by (auto simp: SN74LV164A_CLK_def bus_idle_def wire_end)
qed

lemma send_bit_run:
  assumes "bus_idle r h"
  shows "\<exists>h'. send_bit v h = Some h' \<and> bus_idle r h'
    \<and> outs (replay obs r (bus h') d) = (v \<noteq> 0) # butlast (outs (replay obs r (bus h) d))"
proof -
  obtain h1 where h1: "SN74LV164A_INA v h = Some h1" "bus_idle r h1"
    "wire (regs h1) SN74LV164A_INA_GPIO = (v \<noteq> 0)"
    "outs (replay obs r (bus h1) d) = outs (replay obs r (bus h) d)"
    using set_data [OF assms] by blast
  obtain h2 where h2: "SN74LV164A_CLK 1 h1 = Some h2" "run_from r h2"
    "wire (regs h2) SN74LV164A_CLR_GPIO"
    "outs (replay obs r (bus h2) d) = (v \<noteq> 0) # butlast (outs (replay obs r (bus h) d))"
    using clock_high [OF h1(2), of d] h1(3,4) by auto
  show ?thesis using clock_low [OF h2(2,3), of d] h1(1) h2 by (auto simp: send_bit_def)
qed

lemma send_bits_run:
  "\<lbrakk>bus_idle r h; i + k \<le> 8\<rbrakk> \<Longrightarrow>
   \<exists>h'. send_bits i k vals h = Some h' \<and> bus_idle r h'
     \<and> outs (replay obs r (bus h') d) =
         map (\<lambda>j. vals ! (7 - j) \<noteq> 0) (rev [i..<i + k]) @ take (8 - k) (outs (replay obs r (bus h) d))"
proof (induction k arbitrary: i h)
  case 0
  then show ?case by (simp add: outs_length)
next
  case (Suc k)
  obtain h1 where h1: "send_bit (vals ! (7 - i)) h = Some h1" "bus_idle r h1"
    "outs (replay obs r (bus h1) d) = (vals ! (7 - i) \<noteq> 0) # butlast (outs (replay obs r (bus h) d))"
    using send_bit_run [OF Suc.prems(1)] by blast
  obtain h2 where h2: "send_bits (i + 1) k vals h1 = Some h2" "bus_idle r h2"
    "outs (replay obs r (bus h2) d) = map (\<lambda>j. vals ! (7 - j) \<noteq> 0) (rev [i + 1..<i + 1 + k])
       @ take (8 - k) (outs (replay obs r (bus h1) d))"
    using Suc.IH [OF h1(2), of "i + 1"] Suc.prems(2) by auto
  have "take (8 - k) (x # butlast xs) = x # take (8 - Suc k) xs" if "length xs = 8" for x and xs :: "bool list"
    using that Suc.prems(2) by (simp add: take_butlast Suc_diff_Suc [symmetric] take_Cons')
  then have "outs (replay obs r (bus h2) d) = map (\<lambda>j. vals ! (7 - j) \<noteq> 0) (rev [i..<i + Suc k])
       @ take (8 - Suc k) (outs (replay obs r (bus h) d))"
    using h2(3) h1(3) by (simp add: outs_length upt_conv_Cons del: upt_Suc)
  then show ?case using h1(1) h2 by (auto simp: SN74LV164A_OUT_NUM_def)
qed

lemma set_run:
  assumes "led_ready r b"
  shows "\<exists>b'. sn74lv164a_set b = Some b' \<and> led_ready r b' \<and> SN74LV164A_OUT_VAL b' = SN74LV164A_OUT_VAL b
    \<and> outs (replay obs r (bus (hw b')) d) = map (\<lambda>v. v \<noteq> 0) (SN74LV164A_OUT_VAL b)"
proof -
  let ?vals = "SN74LV164A_OUT_VAL b"
  have len: "length ?vals = 8" using assms by (simp add: led_ready_def SN74LV164A_OUT_NUM_def)
  obtain h' where h': "send_bits 0 8 ?vals (hw b) = Some h'" "bus_idle r h'"
    "outs (replay obs r (bus h') d) = map (\<lambda>j. ?vals ! (7 - j) \<noteq> 0) (rev [0..<8])"
    using send_bits_run [of r "hw b" 0 8 ?vals d] assms by (auto simp: led_ready_def)
  have "map (\<lambda>j. ?vals ! (7 - j) \<noteq> 0) (rev [0..<8]) = map (\<lambda>v. v \<noteq> 0) ?vals"
    by (rule nth_equalityI) (use len in \<open>auto simp: rev_nth\<close>)
  then show ?thesis
    using h' assms by (auto simp: sn74lv164a_set_def SN74LV164A_OUT_NUM_def led_ready_def)
qed

end

section \<open>A chip\<close>

text \<open>The data sheet's shift register, as a list of the eight outputs.\<close>

definition chip_outs :: "bool list \<Rightarrow> bool list" where
  "chip_outs d = take 8 (d @ replicate 8 False)"

definition chip_obs :: "lines \<Rightarrow> lines \<Rightarrow> bool list \<Rightarrow> bool list" where
  "chip_obs l l' d =
     (if \<not> l_clr l' then [] else if \<not> l_clk l \<and> l_clk l' then l_ina l' # butlast (chip_outs d) else d)"

interpretation chip: shift_register chip_obs chip_outs
  by unfold_locales (auto simp: chip_obs_def chip_outs_def)


section \<open>Properties\<close>

text \<open> \<^verbatim>\<open>sn74lv164a_set\<close> shows the eight values on the chip: for every shift register
  that behaves as its data sheet says, from a state with the chip out of clear and the clock low,
  the 48 register writes leave output \<open>QA\<close> to \<open>QH\<close> at \<^verbatim>\<open>SN74LV164A_OUT_VAL[0..7]\<close>, and
  the driver is again in such a state.
\<close>

theorem sn74lv164a_set_shows:
  assumes "shift_register obs outs" and "led_ready r b"
  shows "\<exists>b'. sn74lv164a_set b = Some b' \<and> led_ready r b' \<and> SN74LV164A_OUT_VAL b' = SN74LV164A_OUT_VAL b
    \<and> outs (replay obs r (bus (hw b')) d) = map (\<lambda>v. v \<noteq> 0) (SN74LV164A_OUT_VAL b)"
  by (rule shift_register.set_run [OF assms])

text \<open>What each \<^verbatim>\<open>led\<close> command leaves in \<^verbatim>\<open>SN74LV164A_OUT_VAL\<close>; a LED is lit
  by a low output.\<close>

definition led_effect :: "string \<Rightarrow> int list \<Rightarrow> int list option" where
  "led_effect cmd vals = map_of
     [(''on'', replicate 8 0), (''off'', replicate 8 1),
      (''fail'', vals[0 := 0]), (''attn'', vals[1 := 0]), (''stat'', vals[2 := 0]),
      (''mode'', vals[3 := 0]), (''2g'', vals[5 := 1, 4 := 0]), (''5g'', vals[5 := 0, 4 := 1])] cmd"

lemmas led_consts = LED_FAIL_def LED_ATTN_def LED_STAT_def LED_MODE_def LED_WAP0_def LED_WAP1_def
  LED_ON_def LED_OFF_def SN74LV164A_OUT_NUM_def SN74LV164A_OUT_HIGH_def SN74LV164A_OUT_LOW_def

lemma led_ready_vals:
  "led_ready r b \<Longrightarrow> length vals = SN74LV164A_OUT_NUM \<Longrightarrow>
   led_ready r (b\<lparr>SN74LV164A_OUT_VAL := vals\<rparr>)"
  by (simp add: led_ready_def)

lemma set_vals_shows:
  assumes "shift_register obs outs" "led_ready r b" "length vals = 8"
  shows "\<exists>b'. sn74lv164a_set (b\<lparr>SN74LV164A_OUT_VAL := vals\<rparr>) = Some b' \<and> led_ready r b'
    \<and> SN74LV164A_OUT_VAL b' = vals \<and> outs (replay obs r (bus (hw b')) d) = map (\<lambda>v. v \<noteq> 0) vals"
  using shift_register.set_run [OF assms(1) led_ready_vals [OF assms(2)], of vals d] assms(3)
  by (simp add: SN74LV164A_OUT_NUM_def)

lemma set_value_shows:
  assumes "shift_register obs outs" "led_ready r b" "pin < 8"
  shows "\<exists>b'. sn74lv164a_set_value pin v b = Some b' \<and> led_ready r b'
    \<and> SN74LV164A_OUT_VAL b' = (SN74LV164A_OUT_VAL b)[pin := v]
    \<and> outs (replay obs r (bus (hw b')) d) = map (\<lambda>v. v \<noteq> 0) ((SN74LV164A_OUT_VAL b)[pin := v])"
proof -
  have "length (SN74LV164A_OUT_VAL b) = 8"
    using assms(2) by (simp add: led_ready_def SN74LV164A_OUT_NUM_def)
  then show ?thesis
    using set_vals_shows [OF assms(1,2), of "(SN74LV164A_OUT_VAL b)[pin := v]" d] assms(3)
    by (simp add: sn74lv164a_set_value_def)
qed

lemma set_two_values_shows:
  assumes "shift_register obs outs" "led_ready r b" "pin < 8" "pin' < 8"
  shows "\<exists>b1 b'. sn74lv164a_set_value pin v b = Some b1 \<and> sn74lv164a_set_value pin' v' b1 = Some b'
    \<and> led_ready r b' \<and> SN74LV164A_OUT_VAL b' = (SN74LV164A_OUT_VAL b)[pin := v, pin' := v']
    \<and> outs (replay obs r (bus (hw b')) d) =
        map (\<lambda>v. v \<noteq> 0) ((SN74LV164A_OUT_VAL b)[pin := v, pin' := v'])"
proof -
  obtain b1 where b1: "sn74lv164a_set_value pin v b = Some b1" "led_ready r b1"
    "SN74LV164A_OUT_VAL b1 = (SN74LV164A_OUT_VAL b)[pin := v]"
    using set_value_shows [OF assms(1-3)] by blast
  then show ?thesis using set_value_shows [OF assms(1) b1(2) assms(4), of v' d] by auto
qed


definition lit_board :: board where
  "lit_board = \<lparr>hw = \<lparr>regs = (\<lambda>_. 0xffffffff)(data_reg SN74LV164A_CLK_GPIO := 0), bus = []\<rparr>,
     SN74LV164A_OUT_VAL = [0, 0, 0, 0, 0, 0, 0, 0]\<rparr>"

lemma lit_board_ready: "led_ready (regs (hw lit_board)) lit_board"
proof -
  have "wire (regs (hw lit_board)) SN74LV164A_CLR_GPIO" "\<not> wire (regs (hw lit_board)) SN74LV164A_CLK_GPIO"
    by code_simp+
  then show ?thesis
    by (simp add: led_ready_def bus_idle_def run_from_def lit_board_def SN74LV164A_OUT_NUM_def)
qed

theorem sn74lv164a_set_shows_witness:
  "\<exists>b'. sn74lv164a_set lit_board = Some b'
    \<and> chip_outs (replay chip_obs (regs (hw lit_board)) (bus (hw b')) [True]) = replicate 8 False"
  using sn74lv164a_set_shows [OF chip.shift_register_axioms lit_board_ready, of "[True]"]
  by (auto simp: lit_board_def numeral_eq_Suc)


end
