(* ===== verification/Wg_Boot.thy ===== *)
theory Wg_Boot
  imports Wg_Menu Sha1 C_Strto Board_Led
begin

text \<open>
  From \<^verbatim>\<open>main_loop\<close> to the boot command or the shell: \<^verbatim>\<open>common/main.c\<close>,
  \<^verbatim>\<open>common/autoboot.c\<close> and the functions of \<^verbatim>\<open>common/cli.c\<close> they call, as configured for
  the T40 (boot menu, device tree, no pre-boot command, no silent console).

  The user and the clock are input: \<open>keys\<close> is what \<^verbatim>\<open>getc\<close> will return, and each element of
  \<open>polls\<close> is one round of the countdown loop, with the answer of \<^verbatim>\<open>tstc\<close> and the
  milliseconds \<^verbatim>\<open>get_timer\<close> reports at the end of the round.  A run that needs more input is
  \<open>Blocked\<close>.  Messages other than the menu are not kept.  Commands are run by a parameter, which tells whether the command comes back and what
  it leaves in the environment.

  A value of the environment is a block of the heap, because \<^verbatim>\<open>env_get\<close> returns a pointer to
  it: setting a variable frees the block of the old value and allocates one for the new value.
\<close>

section \<open>The environment as its callers see it\<close>

record benv =
  vars :: "string \<Rightarrow> nat option"
  heap :: "nat \<Rightarrow> string option"

definition benv_get :: "benv \<Rightarrow> string \<Rightarrow> nat option" where
  "benv_get e name = vars e name"

definition benv_set :: "((nat \<Rightarrow> string option) \<Rightarrow> nat) \<Rightarrow> string \<Rightarrow> string \<Rightarrow> benv \<Rightarrow> benv" where
  "benv_set malloc name val e =
     (let h = (case vars e name of None \<Rightarrow> heap e | Some old \<Rightarrow> (heap e)(old := None));
          new = malloc h
      in e\<lparr>vars := (vars e)(name := Some new), heap := h(new := Some val)\<rparr>)"

text \<open>The text of a variable.\<close>

definition benv_text :: "benv \<Rightarrow> string \<Rightarrow> string option" where
  "benv_text e name = (case vars e name of None \<Rightarrow> None | Some a \<Rightarrow> heap e a)"

section \<open>State\<close>

record boot =
  env :: benv
  menu :: wgmenu
  stored_bootdelay :: int
  keys :: "int list"
  polls :: "(bool \<times> u64) list"
  samples :: "u32 list"

text \<open>
  What is outside the two files: the allocator, \<^verbatim>\<open>cli_readline\<close> (its return value, the bytes
  of \<^verbatim>\<open>console_buffer\<close> and the number of characters it took), the stack garbage in the buffer
  of the digest, the command interpreter (\<^const>\<open>None\<close> when a command starts an operating system),
  the command table as \<^verbatim>\<open>cli_secure_boot_cmd\<close> uses it, the \<^verbatim>\<open>/config\<close> node of the device tree, and the version texts.
\<close>

record platform =
  malloc :: "(nat \<Rightarrow> string option) \<Rightarrow> nat"
  cli_readline :: "int list \<Rightarrow> (int \<times> u8 list \<times> nat) option"
  stack_garbage :: "u8 list"
  interpreter :: "string \<Rightarrow> benv \<Rightarrow> benv option"
  find_cmd :: "string \<Rightarrow> (benv \<Rightarrow> benv option) option"
  fdt_int :: "string \<Rightarrow> int option"
  fdt_string :: "string \<Rightarrow> string option"
  menu_version :: string
  U_BOOT_VERSION_STRING :: string

datatype 'a res = Blocked | Fault | Gone boot | Ret 'a boot

section \<open>The password and the menu keys\<close>

definition wg_pw_hash :: "u8 list" where
  "wg_pw_hash = [0xe5, 0x97, 0x30, 0x1a, 0x1d, 0x89, 0xff, 0x3f, 0x6d, 0x31,
     0x8d, 0xbf, 0x4d, 0xba, 0x0a, 0x5a, 0xbc, 0x5e, 0xcb, 0xea]"

text \<open>What follows CTRL+C: the value tells whether the password was good.\<close>

definition read_password :: "platform \<Rightarrow> boot \<Rightarrow> bool res" where
  "read_password pf b =
     (let b1 = b\<lparr>menu := wgmenu_exit (menu b)\<rparr>
      in case cli_readline pf (keys b1) of None \<Rightarrow> Blocked
         | Some (wg_pw_len, console_buffer, used) \<Rightarrow>
             (let b2 = b1\<lparr>keys := drop used (keys b1)\<rparr>
              in if wg_pw_len > 0 then
                   (case sha1_csum (stack_garbage pf) (take (nat wg_pw_len) console_buffer) of
                      None \<Rightarrow> Fault
                    | Some wg_csum_output \<Rightarrow> Ret (wg_csum_output = wg_pw_hash) b2)
                 else Ret False b2))"

lemma read_password_keys: "read_password pf b = Ret r b' \<Longrightarrow> length (keys b') \<le> length (keys b)"
  by (auto simp: read_password_def Let_def split: option.splits if_splits)

text \<open>The loop \<^verbatim>\<open>while (wg_keypress != 13)\<close>; the value is \<^verbatim>\<open>abort\<close> and
  \<^verbatim>\<open>wg_selected\<close>.\<close>

function key_loop :: "platform \<Rightarrow> int \<Rightarrow> int \<Rightarrow> boot \<Rightarrow> (int \<times> int) res" where
  "key_loop pf wg_keypress wg_selected b =
     (if wg_keypress = 13 then Ret (0, wg_selected) b
      else (case keys b of [] \<Rightarrow> Blocked
            | k # ks \<Rightarrow>
                (case wgmenu_hook k (menu b) of None \<Rightarrow> Fault
                 | Some (_, m) \<Rightarrow>
                     (let b1 = b\<lparr>keys := ks, menu := m\<rparr>; sel = wgmenu_selected m
                      in if k = 3 then
                           (case read_password pf b1 of Blocked \<Rightarrow> Blocked | Fault \<Rightarrow> Fault | Gone b2 \<Rightarrow> Gone b2
                            | Ret good b2 \<Rightarrow> if good then Ret (1, sel) b2 else key_loop pf k sel b2)
                         else key_loop pf k sel b1))))"
  by pat_completeness auto
termination
  by (relation "measure (\<lambda>(pf, k, s, b). length (keys b))") (auto dest!: read_password_keys)

declare key_loop.simps [simp del]

text \<open>The loop \<^verbatim>\<open>do ... while (!abort && get_timer(ts) < 1000)\<close> of one second.  The value is
  \<^const>\<open>None\<close> when the second passed, and \<^verbatim>\<open>abort\<close> and \<^verbatim>\<open>wg_selected\<close> when a key
  ended the countdown.\<close>

fun poll_loop :: "platform \<Rightarrow> (bool \<times> u64) list \<Rightarrow> int \<Rightarrow> boot \<Rightarrow> (int \<times> int) option res" where
  "poll_loop pf [] wg_selected b = Blocked"
| "poll_loop pf ((tstc, elapsed) # ps) wg_selected b =
     (if tstc then
        (case key_loop pf 0 wg_selected (b\<lparr>polls := ps\<rparr>) of
           Blocked \<Rightarrow> Blocked | Fault \<Rightarrow> Fault | Gone b' \<Rightarrow> Gone b'
         | Ret r b' \<Rightarrow> Ret (Some r) (b'\<lparr>menu := wgmenu_exit (menu b')\<rparr>))
      else if elapsed < 1000 then poll_loop pf ps wg_selected b
      else Ret None (b\<lparr>polls := ps\<rparr>))"

section \<open>Running commands\<close>

text \<open>\<^verbatim>\<open>run_command\<close> and \<^verbatim>\<open>run_command_list\<close> on a pointer: reading a freed block is
  \<open>Fault\<close>.\<close>

definition run_text :: "platform \<Rightarrow> string \<Rightarrow> boot \<Rightarrow> unit res" where
  "run_text pf txt b = (case interpreter pf txt (env b) of None \<Rightarrow> Gone b | Some e \<Rightarrow> Ret () (b\<lparr>env := e\<rparr>))"

definition run_command :: "platform \<Rightarrow> nat option \<Rightarrow> boot \<Rightarrow> unit res" where
  "run_command pf s b =
     (case s of None \<Rightarrow> Fault
      | Some a \<Rightarrow> (case heap (env b) a of None \<Rightarrow> Fault | Some txt \<Rightarrow> run_text pf txt b))"

definition set_env :: "platform \<Rightarrow> string \<Rightarrow> string \<Rightarrow> boot \<Rightarrow> boot" where
  "set_env pf name val b = b\<lparr>env := benv_set (malloc pf) name val (env b)\<rparr>"

definition sysb_default :: string where
  "sysb_default = ''setenv bootargs console=ttyS0,115200 root=/dev/sda2 earlycon=uart8250,mmio,0x21c0500; scsi scan; ext4load scsi 0:2 0x82000000 kernel_T20_T40.itb; bootm 0x82000000''"

definition sysa_default :: string where
  "sysa_default = ''setenv bootargs console=ttyS0,115200 root=/dev/sda3 earlycon=uart8250,mmio,0x21c0500; scsi scan; ext4load scsi 0:3 0x82000000 kernel_T20_T40.itb; bootm 0x82000000''"

text \<open>The switch on \<^verbatim>\<open>wg_selected\<close> and what follows it.\<close>

definition boot_selected :: "platform \<Rightarrow> int \<Rightarrow> boot \<Rightarrow> unit res" where
  "boot_selected pf wg_selected b =
     (let sysb = (wg_selected = 1);
          name = (if sysb then ''wgBootSysB'' else ''wgBootSysA'');
          not_found = (benv_get (env b) name = None);
          b1 = (if not_found then set_env pf name (if sysb then sysb_default else sysa_default) b else b);
          b2 = set_env pf ''bootcmd'' (if sysb then ''run wgBootSysB'' else ''run wgBootSysA'') b1
      in if not_found then run_command pf (benv_get (env b2) ''bootcmd'') b2 else Ret () b2)"

section \<open>The countdown\<close>

text \<open>The outer loop; \<open>n\<close> is \<^verbatim>\<open>bootdelay\<close> and the value is \<^verbatim>\<open>abort\<close>.\<close>

definition after_second :: "platform \<Rightarrow> nat \<Rightarrow> int \<Rightarrow> int \<Rightarrow> boot \<Rightarrow> unit res" where
  "after_second pf bootdelay abort wg_selected b =
     (if benv_get (env b) ''Burn_In_Time'' = None \<and> bootdelay = 0 \<and> abort \<noteq> 1 \<and> wg_selected \<ge> 0
      then boot_selected pf wg_selected b else Ret () b)"

fun countdown :: "platform \<Rightarrow> nat \<Rightarrow> int \<Rightarrow> boot \<Rightarrow> int res" where
  "countdown pf 0 wg_selected b = Ret 0 b"
| "countdown pf (Suc bootdelay) wg_selected b =
     (case poll_loop pf (polls b) wg_selected b of
        Blocked \<Rightarrow> Blocked | Fault \<Rightarrow> Fault | Gone b' \<Rightarrow> Gone b'
      | Ret None b1 \<Rightarrow>
          (case after_second pf bootdelay 0 wg_selected b1 of
             Blocked \<Rightarrow> Blocked | Fault \<Rightarrow> Fault | Gone b' \<Rightarrow> Gone b'
           | Ret _ b2 \<Rightarrow> countdown pf bootdelay wg_selected b2)
      | Ret (Some (abort, sel)) b1 \<Rightarrow>
          (case after_second pf 0 abort sel b1 of
             Blocked \<Rightarrow> Blocked | Fault \<Rightarrow> Fault | Gone b' \<Rightarrow> Gone b'
           | Ret _ b2 \<Rightarrow> Ret abort b2))"

definition abortboot_normal :: "platform \<Rightarrow> int \<Rightarrow> boot \<Rightarrow> int res" where
  "abortboot_normal pf bootdelay b =
     (case wgmenu_show (menu_version pf) (menu b) of None \<Rightarrow> Fault
      | Some m \<Rightarrow> countdown pf (nat bootdelay) 0 (b\<lparr>menu := m\<rparr>))"

definition abortboot :: "platform \<Rightarrow> int \<Rightarrow> boot \<Rightarrow> int res" where
  "abortboot pf bootdelay b = (if bootdelay \<ge> 0 then abortboot_normal pf bootdelay b else Ret 0 b)"

definition autoboot_command :: "platform \<Rightarrow> nat option \<Rightarrow> boot \<Rightarrow> unit res" where
  "autoboot_command pf s b =
     (if stored_bootdelay b \<noteq> - 1 \<and> s \<noteq> None then
        (case abortboot pf (stored_bootdelay b) b of
           Blocked \<Rightarrow> Blocked | Fault \<Rightarrow> Fault | Gone b' \<Rightarrow> Gone b'
         | Ret abort b' \<Rightarrow> if abort = 0 then run_command pf s b' else Ret () b')
      else Ret () b)"

section \<open>Reading the configuration\<close>

definition CONFIG_BOOTDELAY :: int where "CONFIG_BOOTDELAY = 3"
definition CONFIG_SYS_TEXT_BASE :: u64 where "CONFIG_SYS_TEXT_BASE = 0x40100000"

definition fdtdec_get_config_int :: "platform \<Rightarrow> string \<Rightarrow> int \<Rightarrow> int" where
  "fdtdec_get_config_int pf name dflt = (case fdt_int pf name of None \<Rightarrow> dflt | Some v \<Rightarrow> v)"

text \<open>\<^verbatim>\<open>sprintf(str, "%lx", value)\<close>.\<close>

definition hex_digit :: "nat \<Rightarrow> char" where
  "hex_digit d = ''0123456789abcdef'' ! d"

fun hex_text :: "nat \<Rightarrow> string" where
  "hex_text n = (if n < 16 then [hex_digit n] else hex_text (n div 16) @ [hex_digit (n mod 16)])"

declare hex_text.simps [simp del]

definition env_set_addr :: "platform \<Rightarrow> string \<Rightarrow> u64 \<Rightarrow> boot \<Rightarrow> boot" where
  "env_set_addr pf name addr b = set_env pf name (hex_text (unat addr)) b"

definition process_fdt_option :: "platform \<Rightarrow> string \<Rightarrow> string \<Rightarrow> boot \<Rightarrow> boot" where
  "process_fdt_option pf offset name b =
     (let addr = (of_int (fdtdec_get_config_int pf offset 0) :: u64)
      in if addr \<noteq> 0 then env_set_addr pf name (CONFIG_SYS_TEXT_BASE + addr) b else b)"

definition process_fdt_options :: "platform \<Rightarrow> boot \<Rightarrow> boot" where
  "process_fdt_options pf b =
     process_fdt_option pf ''rootdisk-offset'' ''rootaddr''
       (process_fdt_option pf ''kernel-offset'' ''kernaddr'' b)"

text \<open>The \<^verbatim>\<open>(int)simple_strtol(s, NULL, 10)\<close> of a text of the environment.\<close>

definition text_int :: "string \<Rightarrow> int option" where
  "text_int txt = map_option (\<lambda>(v, _). sint (ucast v :: u32)) (simple_strtol (str_bytes txt @ [0]) 0 10)"

definition bootdelay_process :: "platform \<Rightarrow> boot \<Rightarrow> nat option res" where
  "bootdelay_process pf b =
     (case (case benv_get (env b) ''bootdelay'' of None \<Rightarrow> Some CONFIG_BOOTDELAY
            | Some a \<Rightarrow> (case heap (env b) a of None \<Rightarrow> None | Some txt \<Rightarrow> text_int txt)) of
        None \<Rightarrow> Fault
      | Some d \<Rightarrow>
          (let bootdelay = fdtdec_get_config_int pf ''bootdelay'' d;
               s = benv_get (env b) ''bootcmd'';
               b1 = process_fdt_options pf b
           in Ret s (b1\<lparr>stored_bootdelay := bootdelay\<rparr>)))"

section \<open>The reset button and \<^verbatim>\<open>main_loop\<close>\<close>

definition RESET_BUTTON_GPIO_ADDR :: u32 where "RESET_BUTTON_GPIO_ADDR = 0x2330008"
definition BUTTON_RESET :: nat where "BUTTON_RESET = 12"

text \<open>\<open>reg_val\<close> is what the register reads.\<close>

definition read_btn_status :: "nat \<Rightarrow> u32 \<Rightarrow> int" where
  "read_btn_status btn reg_val = (if reg_val AND push_bit (31 - btn - 8) 1 \<noteq> 0 then 0 else 1)"

text \<open>\<open>n\<close> rounds are left; each takes one sample of the register.\<close>

fun detect_loop :: "nat \<Rightarrow> boot \<Rightarrow> int res" where
  "detect_loop 0 b = Ret 0 b"
| "detect_loop (Suc n) b =
     (case samples b of [] \<Rightarrow> Blocked
      | v # vs \<Rightarrow> (let b1 = b\<lparr>samples := vs\<rparr>
                  in if read_btn_status BUTTON_RESET v \<noteq> 0 then Ret 1 b1 else detect_loop n b1))"

definition detect_SYSB_keypress :: "boot \<Rightarrow> int res" where
  "detect_SYSB_keypress b = detect_loop 3 b"

datatype stop = Shell | Hang

text \<open>The branch for the pressed button.  \<^verbatim>\<open>cli_loop\<close> does not return.\<close>

definition sysb_request :: "platform \<Rightarrow> boot \<Rightarrow> (stop + nat option) res" where
  "sysb_request pf b =
     (if benv_get (env b) ''Burn_In_Time'' = None \<and> benv_get (env b) ''wgBootSysB'' = None then
        (case run_text pf ''print wgBootSysB'' b of
           Blocked \<Rightarrow> Blocked | Fault \<Rightarrow> Fault | Gone b' \<Rightarrow> Gone b' | Ret _ b1 \<Rightarrow> Ret (Inl Shell) b1)
      else
        (let b1 = set_env pf ''bootcmd''
               (if benv_get (env b) ''Burn_In_Time'' \<noteq> None then ''run wgBootODMOS'' else ''run wgBootSysB'') b;
             s = benv_get (env b1) ''bootcmd''
         in case run_command pf s b1 of
              Blocked \<Rightarrow> Blocked | Fault \<Rightarrow> Fault | Gone b' \<Rightarrow> Gone b' | Ret _ b2 \<Rightarrow> Ret (Inr s) b2))"

text \<open>The pointer that \<^verbatim>\<open>cli_process_fdt\<close> stores is a block of its own, for the text in the
  device tree.\<close>

definition cli_process_fdt :: "platform \<Rightarrow> nat option \<Rightarrow> boot \<Rightarrow> bool \<times> nat option \<times> boot" where
  "cli_process_fdt pf s b =
     (let secure = (fdtdec_get_config_int pf ''bootsecure'' 0 \<noteq> 0)
      in case fdt_string pf ''bootcmd'' of None \<Rightarrow> (secure, s, b)
         | Some txt \<Rightarrow>
             (let a = malloc pf (heap (env b))
              in (secure, Some a, b\<lparr>env := (env b)\<lparr>heap := (heap (env b))(a := Some txt)\<rparr>\<rparr>)))"

text \<open>It ends in \<^verbatim>\<open>hang()\<close> unless the command starts an operating system.\<close>

definition cli_secure_boot_cmd :: "platform \<Rightarrow> nat option \<Rightarrow> boot \<Rightarrow> stop res" where
  "cli_secure_boot_cmd pf s b =
     (case s of None \<Rightarrow> Ret Hang b
      | Some a \<Rightarrow>
          (case heap (env b) a of None \<Rightarrow> Fault
           | Some cmd \<Rightarrow>
               (case find_cmd pf cmd of None \<Rightarrow> Ret Hang b
                | Some f \<Rightarrow> (case f (env b) of None \<Rightarrow> Gone b | Some e \<Rightarrow> Ret Hang (b\<lparr>env := e\<rparr>)))))"

definition boot_args :: "platform \<Rightarrow> string" where
  "boot_args pf = take 1022 (''uboot_ver='' @ [CHR 0x27] @ U_BOOT_VERSION_STRING pf @ [CHR 0x27])"

definition main_loop :: "platform \<Rightarrow> boot \<Rightarrow> stop res" where
  "main_loop pf b =
     (let b0 = set_env pf ''othbootargs'' (boot_args pf) b
      in case bootdelay_process pf b0 of
           Blocked \<Rightarrow> Blocked | Fault \<Rightarrow> Fault | Gone b' \<Rightarrow> Gone b'
         | Ret s b1 \<Rightarrow>
             (case cli_process_fdt pf s b1 of (secure, s1, b2) \<Rightarrow>
                if secure then cli_secure_boot_cmd pf s1 b2
                else (case detect_SYSB_keypress b2 of
                        Blocked \<Rightarrow> Blocked | Fault \<Rightarrow> Fault | Gone b' \<Rightarrow> Gone b'
                      | Ret sysbReq b3 \<Rightarrow>
                          (case (if sysbReq = 1 then sysb_request pf b3 else Ret (Inr s1) b3) of
                             Blocked \<Rightarrow> Blocked | Fault \<Rightarrow> Fault | Gone b' \<Rightarrow> Gone b'
                           | Ret (Inl st) b4 \<Rightarrow> Ret st b4
                           | Ret (Inr s2) b4 \<Rightarrow>
                               (case autoboot_command pf s2 b4 of
                                  Blocked \<Rightarrow> Blocked | Fault \<Rightarrow> Fault | Gone b' \<Rightarrow> Gone b'
                                | Ret _ b5 \<Rightarrow> Ret Shell b5)))))"

section \<open>The password\<close>

text \<open>What the sources promise of the two parameters the digest depends on: the context has a
  64-byte buffer, and \<^verbatim>\<open>console_buffer\<close> has \<^verbatim>\<open>CONFIG_SYS_CBSIZE + 1\<close> bytes.\<close>

definition platform_ok :: "platform \<Rightarrow> bool" where
  "platform_ok pf \<longleftrightarrow> length (stack_garbage pf) = 64
     \<and> (\<forall>ks n buf u. cli_readline pf ks = Some (n, buf, u) \<longrightarrow> length buf \<le> 513)"

text \<open>The line typed next is the password.\<close>

definition password_typed :: "platform \<Rightarrow> int list \<Rightarrow> bool" where
  "password_typed pf ks \<longleftrightarrow> (\<exists>n buf u. cli_readline pf ks = Some (n, buf, u) \<and> 0 < n
     \<and> fips_sha1 (take (nat n) buf) = wg_pw_hash)"

text \<open>Somewhere in the input the password follows CTRL+C.\<close>

definition unlocks :: "platform \<Rightarrow> int list \<Rightarrow> bool" where
  "unlocks pf ks \<longleftrightarrow> (\<exists>pre rest. ks = pre @ 3 # rest \<and> password_typed pf rest)"

lemma unlocks_Cons: "unlocks pf ks \<Longrightarrow> unlocks pf (k # ks)"
  unfolding unlocks_def by (metis append_Cons)

lemma unlocks_drop: "unlocks pf (drop n ks) \<Longrightarrow> unlocks pf ks"
  unfolding unlocks_def by (metis append.assoc append_take_drop_id)

lemma csum_run:
  assumes "platform_ok pf" "cli_readline pf ks = Some (n, buf, u)"
  shows "sha1_csum (stack_garbage pf) (take (nat n) buf) = Some (fips_sha1 (take (nat n) buf))"
proof -
  have "length buf \<le> 513" using assms by (auto simp: platform_ok_def)
  then have "length (take (nat n) buf) \<le> 513" by simp
  also have "(513 :: nat) < 2 ^ 32" by simp
  finally show ?thesis using assms(1) by (intro sha1_csum_run) (simp_all add: platform_ok_def)
qed

lemma read_password_ret:
  assumes "platform_ok pf" "read_password pf b = Ret good b'"
  shows "(good \<longrightarrow> password_typed pf (keys b)) \<and> (\<exists>n. keys b' = drop n (keys b)) \<and> env b' = env b
    \<and> polls b' = polls b \<and> wgmenu_option_pos (menu b') = wgmenu_option_pos (menu b)
    \<and> stored_bootdelay b' = stored_bootdelay b"
  using assms csum_run [OF assms(1), of "keys b"]
  by (auto simp: read_password_def password_typed_def wgmenu_exit_def Let_def split: option.splits if_splits)
    blast+

lemma hook_pos: "wgmenu_hook k m = Some (h, m') \<Longrightarrow> 0 \<le> wgmenu_option_pos m \<Longrightarrow> 0 \<le> wgmenu_option_pos m'"
  by (auto simp: wgmenu_hook_def wgmenu_wg_display_menu_def wgmenu_print_option_def move_pos_def emit_def
      Let_def split: if_splits)

lemma key_loop_ret:
  assumes "platform_ok pf" "key_loop pf kp sel b = Ret (a, s) b'"
    and "kp = 13 \<longrightarrow> sel = wgmenu_option_pos (menu b)"
  shows "(a = 0 \<or> a = 1 \<and> unlocks pf (keys b)) \<and> env b' = env b \<and> s = wgmenu_option_pos (menu b')
    \<and> stored_bootdelay b' = stored_bootdelay b
    \<and> (0 \<le> wgmenu_option_pos (menu b) \<longrightarrow> 0 \<le> wgmenu_option_pos (menu b'))"
  using assms
proof (induction pf kp sel b rule: key_loop.induct)
  case (1 pf kp sel b)
  show ?case
  proof (cases "kp = 13")
    case True
    then show ?thesis using 1(4,5) by (auto simp: key_loop.simps)
  next
    case False
    then obtain k ks where ks: "keys b = k # ks"
      using 1(4) by (cases "keys b") (auto simp: key_loop.simps)
    then obtain h m where m: "wgmenu_hook k (menu b) = Some (h, m)"
      using 1(4) False by (cases "wgmenu_hook k (menu b)") (auto simp: key_loop.simps)
    define b1 where "b1 = b\<lparr>keys := ks, menu := m\<rparr>"
    have b1: "keys b1 = ks" "env b1 = env b" "menu b1 = m" "stored_bootdelay b1 = stored_bootdelay b"
      "0 \<le> wgmenu_option_pos (menu b) \<longrightarrow> 0 \<le> wgmenu_option_pos m"
      using hook_pos [OF m] by (simp_all add: b1_def)
    show ?thesis
    proof (cases "k = 3")
      case nk: False
      have "key_loop pf k (wgmenu_selected m) b1 = Ret (a, s) b'"
        using 1(4) False ks m nk by (subst (asm) key_loop.simps) (simp add: b1_def Let_def)
      from 1(2) [OF False ks m refl b1_def refl nk 1(3) this] show ?thesis
        using b1 ks by (auto simp: wgmenu_selected_def intro: unlocks_Cons)
    next
      case k: True
      obtain good b2 where rp: "read_password pf b1 = Ret good b2"
        using 1(4) False ks m k
        by (cases "read_password pf b1") (auto simp: key_loop.simps b1_def Let_def)
      note p = read_password_ret [OF 1(3) rp]
      show ?thesis
      proof (cases good)
        case True
        then have "password_typed pf ks" using p b1 by simp
        then have "unlocks pf (keys b)" unfolding unlocks_def ks k by (metis append_Nil)
        moreover have "a = 1" "s = wgmenu_option_pos m" "b' = b2"
          using 1(4) False ks m k rp True
          by (auto simp: key_loop.simps [of pf kp] b1_def Let_def wgmenu_selected_def)
        ultimately show ?thesis using p b1 by simp
      next
        case bad: False
        have "key_loop pf k (wgmenu_selected m) b2 = Ret (a, s) b'"
          using 1(4) False ks m k rp bad by (subst (asm) key_loop.simps) (simp add: b1_def Let_def)
        from 1(1) [OF False ks m refl b1_def refl k rp bad 1(3) this]
        have "(a = 0 \<or> a = 1 \<and> unlocks pf (keys b2)) \<and> env b' = env b2 \<and> s = wgmenu_option_pos (menu b')
          \<and> stored_bootdelay b' = stored_bootdelay b2
          \<and> (0 \<le> wgmenu_option_pos (menu b2) \<longrightarrow> 0 \<le> wgmenu_option_pos (menu b'))" using k by simp
        moreover have "unlocks pf (keys b)" if "unlocks pf (keys b2)"
          using that p b1 unlocks_drop [of pf _ ks] unlocks_Cons [of pf ks k] unfolding ks by metis
        ultimately show ?thesis using p b1 by auto
      qed
    qed
  qed
qed

section \<open>The countdown\<close>

lemma wgmenu_exit_pos [simp]: "wgmenu_option_pos (wgmenu_exit m) = wgmenu_option_pos m"
  by (simp add: wgmenu_exit_def)

lemma poll_loop_ret:
  assumes "platform_ok pf" "poll_loop pf ps sel b = Ret r b'"
  shows "env b' = env b \<and> stored_bootdelay b' = stored_bootdelay b
    \<and> (0 \<le> wgmenu_option_pos (menu b) \<longrightarrow> 0 \<le> wgmenu_option_pos (menu b'))
    \<and> (case r of None \<Rightarrow> keys b' = keys b \<and> menu b' = menu b
       | Some (a, s) \<Rightarrow> (a = 0 \<or> a = 1 \<and> unlocks pf (keys b)) \<and> s = wgmenu_option_pos (menu b'))"
  using assms
proof (induction pf ps sel b rule: poll_loop.induct)
  case (2 pf tstc elapsed ps sel b)
  show ?case
  proof (cases tstc)
    case True
    then obtain a s b1 where k: "key_loop pf 0 sel (b\<lparr>polls := ps\<rparr>) = Ret (a, s) b1"
      and r: "r = Some (a, s)" "b' = b1\<lparr>menu := wgmenu_exit (menu b1)\<rparr>"
      using 2(3) by (auto split: res.splits)
    show ?thesis using key_loop_ret [OF 2(2) k] by (simp add: r)
  next
    case False
    then show ?thesis using 2 by (auto split: if_splits)
  qed
qed simp

text \<open>A variable that is set reads back, whatever address the allocator gives.\<close>

lemma benv_text_set [simp]: "benv_text (benv_set mal n v e) n = Some v"
  by (simp add: benv_text_def benv_set_def Let_def)

lemma vars_set: "vars (benv_set mal n v e) n' = None \<longleftrightarrow> n \<noteq> n' \<and> vars e n' = None"
  by (simp add: benv_set_def Let_def)

lemma set_env_simps [simp]:
  "menu (set_env pf n v b) = menu b" "keys (set_env pf n v b) = keys b" "polls (set_env pf n v b) = polls b"
  "samples (set_env pf n v b) = samples b" "stored_bootdelay (set_env pf n v b) = stored_bootdelay b"
  "env (set_env pf n v b) = benv_set (malloc pf) n v (env b)"
  by (simp_all add: set_env_def)

lemma run_command_ret: "run_command pf s b = Ret u b' \<Longrightarrow>
    keys b' = keys b \<and> menu b' = menu b \<and> stored_bootdelay b' = stored_bootdelay b
    \<and> (\<exists>txt e. interpreter pf txt e \<noteq> None)"
  by (auto simp: run_command_def run_text_def split: option.splits)

lemma boot_selected_ret: "boot_selected pf s b = Ret u b' \<Longrightarrow>
    keys b' = keys b \<and> menu b' = menu b \<and> stored_bootdelay b' = stored_bootdelay b"
  by (auto simp: boot_selected_def Let_def dest!: run_command_ret split: if_splits)

lemma after_second_ret: "after_second pf n a s b = Ret u b' \<Longrightarrow>
    keys b' = keys b \<and> menu b' = menu b \<and> stored_bootdelay b' = stored_bootdelay b"
  by (auto simp: after_second_def dest!: boot_selected_ret split: if_splits)

lemma countdown_ret:
  assumes "platform_ok pf" "countdown pf n sel b = Ret a b'"
  shows "a = 0 \<or> a = 1 \<and> unlocks pf (keys b)"
  using assms
proof (induction n arbitrary: b)
  case (Suc n)
  obtain r b1 where p: "poll_loop pf (polls b) sel b = Ret r b1"
    using Suc.prems(2) by (auto split: res.splits)
  note q = poll_loop_ret [OF Suc.prems(1) p]
  show ?case
  proof (cases r)
    case None
    then obtain u b2 where "after_second pf n 0 sel b1 = Ret u b2" "countdown pf n sel b2 = Ret a b'"
      using Suc.prems(2) p by (auto split: res.splits)
    then show ?thesis using Suc.IH [OF Suc.prems(1), of b2] q None by (auto dest!: after_second_ret)
  next
    case (Some as)
    then show ?thesis using Suc.prems(2) p q by (auto split: res.splits prod.splits)
  qed
qed simp

lemma abortboot_ret:
  assumes "platform_ok pf" "abortboot pf d b = Ret a b'"
  shows "a = 0 \<or> a = 1 \<and> unlocks pf (keys b)"
  using assms countdown_ret [OF assms(1)]
  by (fastforce simp: abortboot_def abortboot_normal_def split: if_splits option.splits)

definition menu_command :: "int \<Rightarrow> string" where
  "menu_command s = (if s = 1 then ''run wgBootSysB'' else ''run wgBootSysA'')"

text \<open>The two boot variables are there and the box is not in its burn-in test.\<close>

definition boot_vars :: "benv \<Rightarrow> bool" where
  "boot_vars e \<longleftrightarrow> vars e ''wgBootSysA'' \<noteq> None \<and> vars e ''wgBootSysB'' \<noteq> None \<and> vars e ''Burn_In_Time'' = None"

lemma after_second_vars:
  assumes "boot_vars (env b)" "0 \<le> s"
  shows "after_second pf n 0 s b = (if n = 0 then Ret () (set_env pf ''bootcmd'' (menu_command s) b) else Ret () b)"
  using assms by (auto simp: after_second_def boot_selected_def boot_vars_def benv_get_def menu_command_def Let_def)

lemma countdown_selects:
  assumes "platform_ok pf" "boot_vars (env b)" "0 < n" "sel = wgmenu_option_pos (menu b)" "0 \<le> sel"
    and "countdown pf n sel b = Ret 0 b'"
  shows "env b' = benv_set (malloc pf) ''bootcmd'' (menu_command (wgmenu_option_pos (menu b'))) (env b)"
  using assms
proof (induction n arbitrary: b)
  case (Suc n)
  obtain r b1 where p: "poll_loop pf (polls b) sel b = Ret r b1"
    using Suc.prems(6) by (auto split: res.splits)
  note q = poll_loop_ret [OF Suc.prems(1) p]
  have v: "boot_vars (env b1)" using q Suc.prems(2) by simp
  show ?case
  proof (cases r)
    case None
    then have m: "menu b1 = menu b" using q by simp
    show ?thesis
    proof (cases n)
      case 0
      then show ?thesis using Suc.prems p q None m after_second_vars [OF v Suc.prems(5), of pf n]
        by auto
    next
      case (Suc k)
      then have "countdown pf n sel b1 = Ret 0 b'"
        using Suc.prems p None after_second_vars [OF v Suc.prems(5), of pf n] by auto
      then show ?thesis using Suc.IH [of b1] Suc.prems q m v \<open>n = Suc k\<close> by simp
    qed
  next
    case (Some as)
    then obtain s where s: "as = (0, s)" "s = wgmenu_option_pos (menu b1)"
      using Suc.prems(6) p q by (cases as) (auto split: res.splits)
    then have "0 \<le> s" using q Suc.prems(4,5) by simp
    then show ?thesis
      using Suc.prems(6) p Some s q after_second_vars [OF v, of s pf 0] by auto
  qed
qed simp

lemma show_options_pos: "show_options k n m = Some m' \<Longrightarrow> wgmenu_option_pos m' = wgmenu_option_pos m"
  by (induction k n m rule: show_options.induct)
    (auto simp: wgmenu_print_option_def emit_def split: option.splits if_splits)

lemma wgmenu_show_pos: "wgmenu_show v m = Some m' \<Longrightarrow> wgmenu_option_pos m' = wgmenu_option_pos m"
  by (auto simp: wgmenu_show_def wgmenu_add_def wgmenu_show_bootmenu_def wgmenu_show_bootmenu_table_def emit_def
      bind_eq_Some_conv dest!: show_options_pos split: if_splits)

lemma abortboot_selects:
  assumes "platform_ok pf" "boot_vars (env b)" "0 < d" "wgmenu_option_pos (menu b) = 0"
    and "abortboot pf d b = Ret 0 b'"
  shows "env b' = benv_set (malloc pf) ''bootcmd'' (menu_command (wgmenu_option_pos (menu b'))) (env b)"
proof -
  obtain m where m: "wgmenu_show (menu_version pf) (menu b) = Some m"
    "countdown pf (nat d) 0 (b\<lparr>menu := m\<rparr>) = Ret 0 b'"
    using assms(3,5) by (auto simp: abortboot_def abortboot_normal_def split: option.splits)
  then show ?thesis
    using countdown_selects [OF assms(1), of "b\<lparr>menu := m\<rparr>" "nat d" 0 b'] wgmenu_show_pos [OF m(1)] assms
    by simp
qed

subsection \<open>Without a key\<close>

definition seconds :: "(bool \<times> u64) list \<Rightarrow> nat" where
  "seconds ps = length (filter (\<lambda>p. 1000 \<le> snd p) ps)"

lemma poll_quiet:
  assumes "\<forall>p \<in> set ps. \<not> fst p" "Suc n \<le> seconds ps"
  shows "\<exists>ps'. poll_loop pf ps sel b = Ret None (b\<lparr>polls := ps'\<rparr>) \<and> set ps' \<subseteq> set ps \<and> n \<le> seconds ps'"
  using assms
proof (induction ps)
  case (Cons p ps)
  obtain r e where p: "p = (r, e)" by (cases p)
  show ?case
  proof (cases "e < 1000")
    case True
    then have "\<not> 1000 \<le> e" by (simp add: not_le)
    then have "Suc n \<le> seconds ps" using Cons.prems(2) by (simp add: p seconds_def)
    then obtain ps' where "poll_loop pf ps sel b = Ret None (b\<lparr>polls := ps'\<rparr>)" "set ps' \<subseteq> set ps" "n \<le> seconds ps'"
      using Cons.IH Cons.prems(1) by auto
    then show ?thesis using True Cons.prems(1) by (auto simp: p)
  next
    case False
    then show ?thesis using Cons.prems by (intro exI [of _ ps]) (auto simp: p seconds_def split: if_splits)
  qed
qed (simp add: seconds_def)

lemma countdown_quiet:
  assumes "boot_vars (env b)" "\<forall>p \<in> set (polls b). \<not> fst p" "Suc n \<le> seconds (polls b)"
  shows "\<exists>b'. countdown pf (Suc n) 0 b = Ret 0 b' \<and> env b' = benv_set (malloc pf) ''bootcmd'' (menu_command 0) (env b)"
  using assms
proof (induction n arbitrary: b)
  case 0
  obtain ps' where "poll_loop pf (polls b) 0 b = Ret None (b\<lparr>polls := ps'\<rparr>)"
    using poll_quiet [OF 0(2,3), of pf 0 b] by auto
  then show ?case using after_second_vars [of "b\<lparr>polls := ps'\<rparr>" 0 pf 0] 0(1) by simp
next
  case (Suc n)
  obtain ps' where ps: "poll_loop pf (polls b) 0 b = Ret None (b\<lparr>polls := ps'\<rparr>)" "set ps' \<subseteq> set (polls b)"
    "Suc n \<le> seconds ps'"
    using poll_quiet [OF Suc.prems(2,3), of pf 0 b] by auto
  have "\<exists>b'. countdown pf (Suc n) 0 (b\<lparr>polls := ps'\<rparr>) = Ret 0 b'
    \<and> env b' = benv_set (malloc pf) ''bootcmd'' (menu_command 0) (env b)"
    using Suc.IH [of "b\<lparr>polls := ps'\<rparr>"] Suc.prems ps by auto
  then show ?case using ps(1) after_second_vars [of "b\<lparr>polls := ps'\<rparr>" 0 pf "Suc n"] Suc.prems(1)
    by (simp del: countdown.simps add: countdown.simps(2) [of pf "Suc n"])
qed

subsection \<open>The way to the shell\<close>

lemma process_fdt_option_keeps:
  "keys (process_fdt_option pf o1 n b) = keys b" "samples (process_fdt_option pf o1 n b) = samples b"
  "vars (env b) v \<noteq> None \<Longrightarrow> vars (env (process_fdt_option pf o1 n b)) v \<noteq> None"
  by (simp_all add: process_fdt_option_def env_set_addr_def Let_def vars_set del: not_None_eq)

lemma bootdelay_process_ret:
  assumes "bootdelay_process pf b = Ret s b1"
  shows "keys b1 = keys b \<and> s = vars (env b) ''bootcmd''
    \<and> (\<forall>v. vars (env b) v \<noteq> None \<longrightarrow> vars (env b1) v \<noteq> None)
    \<and> (vars (env b) ''bootdelay'' = None \<longrightarrow> stored_bootdelay b1 = fdtdec_get_config_int pf ''bootdelay'' CONFIG_BOOTDELAY)"
  using assms process_fdt_option_keeps
  by (auto simp: bootdelay_process_def process_fdt_options_def benv_get_def Let_def split: option.splits)

lemma cli_process_fdt_keeps:
  assumes "cli_process_fdt pf s b = (sec, s1, b1)"
  shows "keys b1 = keys b \<and> vars (env b1) = vars (env b) \<and> stored_bootdelay b1 = stored_bootdelay b
    \<and> (s \<noteq> None \<longrightarrow> s1 \<noteq> None)"
  using assms by (auto simp: cli_process_fdt_def Let_def split: option.splits)

lemma detect_keeps: "detect_loop n b = Ret r b1 \<Longrightarrow> b1 = b\<lparr>samples := samples b1\<rparr>"
  by (induction n b rule: detect_loop.induct) (auto simp: Let_def split: list.splits if_splits)

lemma detect_SYSB_keeps: "detect_SYSB_keypress b = Ret r b1 \<Longrightarrow>
    keys b1 = keys b \<and> env b1 = env b \<and> stored_bootdelay b1 = stored_bootdelay b"
  unfolding detect_SYSB_keypress_def by (drule detect_keeps) (metis boot.simps(1-6) boot.update_convs(6) boot.surjective)

lemma run_command_boots: "\<forall>txt e. interpreter pf txt e = None \<Longrightarrow> run_command pf s b \<noteq> Ret u b'"
  by (auto dest!: run_command_ret)

lemma autoboot_command_ret:
  assumes "platform_ok pf" "\<forall>txt e. interpreter pf txt e = None" "stored_bootdelay b \<noteq> - 1" "s \<noteq> None"
    and "autoboot_command pf s b = Ret u b'"
  shows "unlocks pf (keys b)"
proof -
  obtain a b1 where a: "abortboot pf (stored_bootdelay b) b = Ret a b1"
    using assms(3-5) by (auto simp: autoboot_command_def split: res.splits)
  have "a \<noteq> 0"
    using assms(3-5) a run_command_boots [OF assms(2)] by (auto simp: autoboot_command_def split: if_splits)
  then show ?thesis using abortboot_ret [OF assms(1) a] by simp
qed

section \<open>Properties\<close>

text \<open> C1. Only the password stops the boot.  Whatever is typed and however long it takes, when the
  countdown of \<^verbatim>\<open>abortboot\<close> returns, its value is 0 (boot) or 1 (prompt), and it is 1 only
  if somewhere in the input a CTRL+C is followed by a line whose SHA-1 of FIPS 180 is the digest in
  \<^verbatim>\<open>wg_pw_hash\<close>.
\<close>

theorem abortboot_needs_password:
  assumes "platform_ok pf" and "abortboot pf d b = Ret abort b'"
  shows "abort = 0 \<or> abort = 1 \<and> unlocks pf (keys b)"
  using assms by (rule abortboot_ret)

text \<open>A machine for the witnesses: the countdown of one second runs out, or enter is pressed.\<close>

definition test_platform :: platform where
  "test_platform = \<lparr>malloc = (\<lambda>h. 7), cli_readline = (\<lambda>ks. Some (1, [0], length ks)), stack_garbage = replicate 64 0,
     interpreter = (\<lambda>txt e. None), find_cmd = (\<lambda>txt. None), fdt_int = (\<lambda>n. None), fdt_string = (\<lambda>n. None),
     menu_version = ''v'', U_BOOT_VERSION_STRING = ''v''\<rparr>"

definition test_env :: benv where
  "test_env = \<lparr>vars = [''wgBootSysA'' \<mapsto> 1, ''wgBootSysB'' \<mapsto> 2, ''bootcmd'' \<mapsto> 3],
     heap = [1 \<mapsto> ''a'', 2 \<mapsto> ''b'', 3 \<mapsto> ''run wgBootSysA'']\<rparr>"

definition test_boot :: boot where
  "test_boot = \<lparr>env = test_env, menu = wgmenu_static, stored_bootdelay = 1, keys = [66, 13],
     polls = [(False, 10), (True, 0)], samples = [- 1, - 1, - 1]\<rparr>"

lemma test_platform_ok: "platform_ok test_platform"
  by (simp add: platform_ok_def test_platform_def)

lemma test_boot_vars: "boot_vars (env test_boot)"
  by (simp add: boot_vars_def test_boot_def test_env_def)

lemma test_boot_returns: "\<exists>b'. abortboot test_platform 1 test_boot = Ret 0 b' \<and> wgmenu_option_pos (menu b') = 1"
proof -
  have "case abortboot test_platform 1 test_boot of Ret a b' \<Rightarrow> a = 0 \<and> wgmenu_option_pos (menu b') = 1 | _ \<Rightarrow> False"
    by code_simp
  then show ?thesis by (auto split: res.splits)
qed

theorem abortboot_needs_password_witness:
  "\<exists>b'. abortboot test_platform 1 test_boot = Ret 0 b' \<and> \<not> unlocks test_platform (keys test_boot)
     \<and> ((0::int) = 0 \<or> (0::int) = 1 \<and> unlocks test_platform (keys test_boot))"
proof -
  obtain b' where b': "abortboot test_platform 1 test_boot = Ret 0 b'" using test_boot_returns by blast
  have "\<not> unlocks test_platform (keys test_boot)"
    by (auto simp: unlocks_def test_boot_def Cons_eq_append_conv)
  then show ?thesis using abortboot_needs_password [OF test_platform_ok b'] b' by blast
qed



text \<open> C4. \<^verbatim>\<open>autoboot_command\<close> runs the pointer it got before the countdown, whose block the
  countdown has freed: the chosen command is run exactly when the allocator hands the freed block
  out again for the new value, and otherwise freed memory is read.
\<close>

theorem autoboot_runs_freed_block:
  assumes "platform_ok pf" and "boot_vars (env b)" and "0 < stored_bootdelay b"
    and "wgmenu_option_pos (menu b) = 0" and "vars (env b) ''bootcmd'' = Some s"
    and "abortboot pf (stored_bootdelay b) b = Ret 0 b'"
  shows "autoboot_command pf (Some s) b =
    (if malloc pf ((heap (env b))(s := None)) = s
     then run_text pf (menu_command (wgmenu_option_pos (menu b'))) b' else Fault)"
proof -
  have "env b' = benv_set (malloc pf) ''bootcmd'' (menu_command (wgmenu_option_pos (menu b'))) (env b)"
    by (rule abortboot_selects [OF assms(1-4,6)])
  then have "heap (env b') s = (if malloc pf ((heap (env b))(s := None)) = s
      then Some (menu_command (wgmenu_option_pos (menu b'))) else None)"
    using assms(5) by (simp add: benv_set_def Let_def)
  then show ?thesis using assms(3,6) by (auto simp: autoboot_command_def run_command_def)
qed

theorem autoboot_runs_freed_block_witness:
  "autoboot_command test_platform (Some 3) test_boot = Fault"
proof -
  obtain b' where b': "abortboot test_platform 1 test_boot = Ret 0 b'" using test_boot_returns by blast
  then show ?thesis
    using autoboot_runs_freed_block [OF test_platform_ok test_boot_vars, of 3 b']
    by (simp add: test_boot_def wgmenu_static_def test_env_def) (simp add: test_platform_def)
qed





text \<open> The reset button is pin 12 of the fourth GPIO port, active low: \<^verbatim>\<open>main_loop\<close> reads it
  pressed exactly when the board's GPIO driver reads pin 412 as 0 from the same registers.
\<close>

theorem reset_button_is_gpio_412:
  "read_btn_status BUTTON_RESET (regs h RESET_BUTTON_GPIO_ADDR) = 1 \<longleftrightarrow> gpio_get_value 412 h = Some 0"
proof -
  have s: "is_support 412 = Some 0" "data_reg 412 = RESET_BUTTON_GPIO_ADDR" "pin_pos 412 = 11" by code_simp+
  have "(v AND push_bit 11 1 = 0) = (\<not> bit v 11)" for v :: u32
    using and_exp_eq_0_iff_not_bit [of v 11] by simp
  moreover have "(drop_bit 11 v AND 1 = 0) = (\<not> bit v 11)" for v :: u32
    by (simp add: and_one_eq mod_2_eq_odd bit_iff_odd_drop_bit)
  moreover have "uint (x :: u32) = 0 \<longleftrightarrow> x = 0" for x by (simp add: word_uint_eq_iff)
  ultimately show ?thesis by (simp add: gpio_get_value_def s read_btn_status_def BUTTON_RESET_def)
qed

end
