(* ===== verification/Membuff.thy ===== *)
theory Membuff
  imports C_String
begin

text \<open>
  The ring buffer of \<^verbatim>\<open>lib/membuff.c\<close>, which carries the recorded console.  The four
  pointers of \<^verbatim>\<open>struct membuff\<close> are kept as the storage between \<^verbatim>\<open>start\<close> and
  \<^verbatim>\<open>end\<close> (\<^const>\<open>None\<close> for null pointers) and the offsets of \<^verbatim>\<open>head\<close> and
  \<^verbatim>\<open>tail\<close> from \<^verbatim>\<open>start\<close>.  One slot always stays free: equal pointers mean empty.

  The locale \<open>byte_queue\<close> is what the clients rely on: a bounded first-in first-out queue of bytes.
\<close>

section \<open>Definitions\<close>

record membuff =
  store :: "u8 list option"
  head :: int
  tail :: int

definition bytes :: "membuff \<Rightarrow> u8 list" where
  "bytes mb = (case store mb of None \<Rightarrow> [] | Some b \<Rightarrow> b)"

definition mb_end :: "membuff \<Rightarrow> int" where
  "mb_end mb = int (length (bytes mb))"

definition membuff_purge :: "membuff \<Rightarrow> membuff" where
  "membuff_purge mb = mb\<lparr>head := 0, tail := 0\<rparr>"

text \<open>\<^verbatim>\<open>if (maxlen >= 0 && len > maxlen) len = maxlen;\<close>\<close>

definition cap_len :: "int \<Rightarrow> int \<Rightarrow> int" where
  "cap_len maxlen len = (if maxlen \<ge> 0 \<and> len > maxlen then maxlen else len)"

text \<open>The result is the length, the offset of the place to write at and the buffer.\<close>

definition membuff_putrawflex :: "membuff \<Rightarrow> int \<Rightarrow> bool \<Rightarrow> int \<times> int \<times> membuff" where
  "membuff_putrawflex mb maxlen update =
     (let offset = head mb in
      if store mb = None then (0, offset, mb)
      else if head mb \<ge> tail mb then
        (let len = cap_len maxlen (mb_end mb - head mb - 1);
             mb1 = (if update then mb\<lparr>head := head mb + len\<rparr> else mb)
         in if (maxlen < 0 \<or> len < maxlen) \<and> tail mb \<noteq> 0
            then (len + 1, offset, if update then mb1\<lparr>head := 0\<rparr> else mb1)
            else (len, offset, mb1))
      else
        (let len = cap_len maxlen (tail mb - head mb - 1)
         in (len, offset, if update then mb\<lparr>head := head mb + len\<rparr> else mb)))"

definition membuff_putraw :: "membuff \<Rightarrow> int \<Rightarrow> bool \<Rightarrow> int \<times> int \<times> membuff" where
  "membuff_putraw mb maxlen update = membuff_putrawflex mb maxlen update"

text \<open>A store of bytes into the storage, at an offset that \<^verbatim>\<open>putraw\<close> gave.\<close>

definition store_at :: "membuff \<Rightarrow> int \<Rightarrow> u8 list \<Rightarrow> membuff option" where
  "store_at mb off bs =
     (if bs = [] then Some mb
      else if 0 \<le> off \<and> nat off + length bs \<le> length (bytes mb)
      then Some (mb\<lparr>store := Some (put_seg (bytes mb) (nat off) bs)\<rparr>)
      else None)"

definition membuff_putbyte :: "membuff \<Rightarrow> u8 \<Rightarrow> (bool \<times> membuff) option" where
  "membuff_putbyte mb ch =
     (case membuff_putraw mb 1 True of (n, off, mb') \<Rightarrow>
        if n \<noteq> 1 then Some (False, mb') else map_option (Pair True) (store_at mb' off [ch]))"

text \<open>The result is the length, the offset of the data and the buffer.\<close>

definition membuff_getraw :: "membuff \<Rightarrow> int \<Rightarrow> bool \<Rightarrow> int \<times> int \<times> membuff" where
  "membuff_getraw mb maxlen update =
     (if head mb > tail mb then
        (let len = cap_len maxlen (head mb - tail mb)
         in (len, tail mb, if update then mb\<lparr>tail := tail mb + len\<rparr> else mb))
      else if head mb < tail mb then
        (let len = cap_len maxlen (mb_end mb - tail mb)
         in (len, tail mb,
             if update then
               (let t = tail mb + len in mb\<lparr>tail := (if t = mb_end mb then 0 else t)\<rparr>)
             else mb))
      else (0, 0, mb))"

definition fetch :: "membuff \<Rightarrow> int \<Rightarrow> int \<Rightarrow> u8 list option" where
  "fetch mb off len =
     (if len = 0 then Some []
      else if 0 \<le> off \<and> 0 \<le> len \<and> nat off + nat len \<le> length (bytes mb)
      then Some (seg (bytes mb) (nat off) (nat len)) else None)"

definition membuff_getbyte :: "membuff \<Rightarrow> (int \<times> membuff) option" where
  "membuff_getbyte mb =
     (case membuff_getraw mb 1 True of (n, off, mb') \<Rightarrow>
        if n \<noteq> 1 then Some (- 1, mb') else map_option (\<lambda>bs. (uint (hd bs), mb')) (fetch mb' off 1))"

definition membuff_peekbyte :: "membuff \<Rightarrow> int option" where
  "membuff_peekbyte mb =
     (case membuff_getraw mb 1 False of (n, off, mb') \<Rightarrow>
        if n \<noteq> 1 then Some (- 1) else map_option (\<lambda>bs. uint (hd bs)) (fetch mb' off 1))"

text \<open>The loop runs at most twice and stops when a round gave nothing.  The result is what was
  copied to \<^verbatim>\<open>buff\<close>.\<close>

definition membuff_get :: "membuff \<Rightarrow> int \<Rightarrow> (u8 list \<times> membuff) option" where
  "membuff_get mb maxlen =
     (case membuff_getraw mb maxlen True of (n1, off1, mb1) \<Rightarrow>
        do { d1 \<leftarrow> fetch mb1 off1 n1;
             if n1 = 0 then Some (d1, mb1)
             else (case membuff_getraw mb1 (maxlen - n1) True of (n2, off2, mb2) \<Rightarrow>
                     do { d2 \<leftarrow> fetch mb2 off2 n2; Some (d1 @ d2, mb2) }) })"

definition membuff_put :: "membuff \<Rightarrow> u8 list \<Rightarrow> (int \<times> membuff) option" where
  "membuff_put mb buff =
     (let length0 = int (length buff) in
      case membuff_putraw mb length0 True of (n1, off1, mb1) \<Rightarrow>
        do { mb1' \<leftarrow> store_at mb1 off1 (take (nat n1) buff);
             (case membuff_putraw mb1' (length0 - n1) True of (n2, off2, mb2) \<Rightarrow>
                do { mb2' \<leftarrow> store_at mb2 off2 (take (nat n2) (drop (nat n1) buff));
                     Some (n1 + n2, mb2') }) })"

definition membuff_isempty :: "membuff \<Rightarrow> bool" where
  "membuff_isempty mb \<longleftrightarrow> head mb = tail mb"

definition membuff_avail :: "membuff \<Rightarrow> int" where
  "membuff_avail mb =
     (case membuff_getraw mb (- 1) True of (n1, _, mb1) \<Rightarrow>
        (case membuff_getraw mb1 (- 1) True of (n2, _, _) \<Rightarrow> n1 + n2))"

definition membuff_size :: "membuff \<Rightarrow> int" where
  "membuff_size mb = mb_end mb"

text \<open>\<^verbatim>\<open>memcpy\<close> and \<^verbatim>\<open>memmove\<close> are those of \<^verbatim>\<open>lib/string.c\<close>.\<close>

definition membuff_makecontig :: "membuff \<Rightarrow> (bool \<times> membuff) option" where
  "membuff_makecontig mb =
     (if tail mb > head mb then
        (let topsize = mb_end mb - tail mb; botsize = head mb in
         if head mb + topsize \<ge> tail mb then Some (False, mb)
         else do { b1 \<leftarrow> memmove (bytes mb) (nat topsize) 0 (nat botsize);
                   b2 \<leftarrow> memcpy b1 0 (nat (tail mb)) (nat topsize);
                   Some (True, mb\<lparr>store := Some b2, tail := 0, head := topsize + botsize\<rparr>) })
      else
        (let topsize = head mb - tail mb; botsize = 0 in
         do { b2 \<leftarrow> memcpy (bytes mb) 0 (nat (tail mb)) (nat topsize);
              Some (True, mb\<lparr>store := map_option (\<lambda>_. b2) (store mb), tail := 0,
                head := topsize + botsize\<rparr>) }))"

definition membuff_free :: "membuff \<Rightarrow> int" where
  "membuff_free mb = (if mb_end mb = 0 then 0 else mb_end mb - 1 - membuff_avail mb)"

text \<open>
  The loop of \<^verbatim>\<open>membuff_readline\<close>.  \<open>k\<close> is \<^verbatim>\<open>maxlen - 1 - len\<close>, the rounds left;
  the result is the line, the read pointer and whether a terminator was met.  A character is
  unsigned, so \<^verbatim>\<open>*str < minch\<close> compares its value from 0 to 255.
\<close>

fun readline_loop :: "membuff \<Rightarrow> int \<Rightarrow> nat \<Rightarrow> int \<Rightarrow> int \<Rightarrow> (u8 list \<times> int \<times> bool) option" where
  "readline_loop mb minch 0 s ende = Some ([], s, False)"
| "readline_loop mb minch (Suc k) s ende =
     (if s < ende then
        do { cs \<leftarrow> fetch mb s 1;
             let c = hd cs;
             let s1 = s + 1;
             if c = 10 \<or> uint c < minch then Some ([c], s1, True)
             else (let wrap = (s1 = ende \<and> tail mb > head mb)
                   in do { (line, s2, ok) \<leftarrow> readline_loop mb minch k (if wrap then 0 else s1)
                                               (if wrap then head mb else ende);
                           Some (c # line, s2, ok) }) }
      else Some ([], s, False))"

text \<open>The result is the return value, the line (empty on failure) and the buffer.\<close>

definition membuff_readline :: "membuff \<Rightarrow> int \<Rightarrow> int \<Rightarrow> (int \<times> u8 list \<times> membuff) option" where
  "membuff_readline mb maxlen minch =
     do { (line, s, ok) \<leftarrow> readline_loop mb minch (nat (maxlen - 1)) (tail mb)
            (if head mb \<ge> tail mb then head mb else mb_end mb);
          if \<not> ok then Some (0, [], mb)
          else Some (int (length line), line, mb\<lparr>tail := (if s = mb_end mb then 0 else s)\<rparr>) }"

text \<open>The doubling loop; with \<open>0 < target\<close> it does not end on size 0, which is \<^const>\<open>None\<close>.\<close>

function double_size :: "int \<Rightarrow> int \<Rightarrow> int option" where
  "double_size sz target =
     (if sz < target then (if sz \<le> 0 then None else double_size (sz * 2) target) else Some sz)"
  by pat_completeness auto
termination
  by (relation "measure (\<lambda>(s, t). nat (t - s))") auto

declare double_size.simps [simp del]

definition E2BIG :: int where "E2BIG = 7"
definition ENOMEM :: int where "ENOMEM = 12"

text \<open>\<^verbatim>\<open>realloc\<close> is a parameter: the new block, or null.\<close>

definition membuff_extend_by :: "(u8 list \<Rightarrow> nat \<Rightarrow> u8 list option) \<Rightarrow> membuff \<Rightarrow> int \<Rightarrow> int
    \<Rightarrow> (int \<times> membuff) option" where
  "membuff_extend_by realloc mb by0 max0 =
     do { let orig = mb_end mb;
          size0 \<leftarrow> double_size orig (orig + by0);
          let size = (if max0 \<noteq> - 1 then min size0 max0 else size0);
          let by1 = size - orig;
          if by1 \<le> 0 then Some (- E2BIG, mb)
          else (case realloc (bytes mb) (nat size) of
                  None \<Rightarrow> Some (- ENOMEM, mb)
                | Some b \<Rightarrow>
                    if head mb < tail mb then
                      do { b' \<leftarrow> memmove b (nat (tail mb + by1)) (nat (tail mb)) (nat (orig - tail mb));
                           Some (0, mb\<lparr>store := Some b', tail := tail mb + by1\<rparr>) }
                    else Some (0, mb\<lparr>store := Some b\<rparr>)) }"

definition membuff_init :: "u8 list \<Rightarrow> membuff" where
  "membuff_init buff = membuff_purge \<lparr>store = Some buff, head = 0, tail = 0\<rparr>"

definition membuff_new :: "(nat \<Rightarrow> u8 list option) \<Rightarrow> membuff \<Rightarrow> nat \<Rightarrow> int \<times> membuff" where
  "membuff_new malloc mb sz =
     (case malloc sz of None \<Rightarrow> (- ENOMEM, mb\<lparr>store := None\<rparr>) | Some b \<Rightarrow> (0, membuff_init b))"

definition membuff_uninit :: "membuff \<Rightarrow> membuff" where
  "membuff_uninit mb = membuff_purge (mb\<lparr>store := None\<rparr>)"

section \<open>The contract\<close>

text \<open>A client's calls with their results, on an implementation and on a list of bytes of which
  at most \<open>cap\<close> are kept.\<close>

datatype queue_op = Put "u8 list" | Get nat

datatype queue_res = Wrote int | Got "u8 list"

fun run_ops :: "('q \<Rightarrow> u8 list \<Rightarrow> (int \<times> 'q) option) \<Rightarrow> ('q \<Rightarrow> int \<Rightarrow> (u8 list \<times> 'q) option)
    \<Rightarrow> queue_op list \<Rightarrow> 'q \<Rightarrow> (queue_res list \<times> 'q) option" where
  "run_ops put get [] q = Some ([], q)"
| "run_ops put get (Put bs # ops) q =
     do { (n, q1) \<leftarrow> put q bs; (rs, q2) \<leftarrow> run_ops put get ops q1; Some (Wrote n # rs, q2) }"
| "run_ops put get (Get n # ops) q =
     do { (bs, q1) \<leftarrow> get q (int n); (rs, q2) \<leftarrow> run_ops put get ops q1; Some (Got bs # rs, q2) }"

fun spec_ops :: "nat \<Rightarrow> queue_op list \<Rightarrow> u8 list \<Rightarrow> queue_res list \<times> u8 list" where
  "spec_ops cap [] xs = ([], xs)"
| "spec_ops cap (Put bs # ops) xs =
     (let n = min (length bs) (cap - length xs); (rs, ys) = spec_ops cap ops (xs @ take n bs)
      in (Wrote (int n) # rs, ys))"
| "spec_ops cap (Get n # ops) xs =
     (let (rs, ys) = spec_ops cap ops (drop n xs) in (Got (take n xs) # rs, ys))"

text \<open>A bounded queue of bytes as its clients see it.\<close>

locale byte_queue =
  fixes wf :: "'q \<Rightarrow> bool"
    and contents :: "'q \<Rightarrow> u8 list"
    and room :: "'q \<Rightarrow> nat"
    and put :: "'q \<Rightarrow> u8 list \<Rightarrow> (int \<times> 'q) option"
    and get :: "'q \<Rightarrow> int \<Rightarrow> (u8 list \<times> 'q) option"
  assumes put_law: "wf q \<Longrightarrow> \<exists>q'. put q bs = Some (int (min (length bs) (room q)), q') \<and> wf q'
      \<and> contents q' = contents q @ take (room q) bs \<and> room q' = room q - length bs"
    and get_law: "wf q \<Longrightarrow> 0 \<le> n \<Longrightarrow> \<exists>q'. get q n = Some (take (nat n) (contents q), q') \<and> wf q'
      \<and> contents q' = drop (nat n) (contents q)
      \<and> room q' = room q + min (nat n) (length (contents q))"
begin

text \<open>Every sequence of calls gives the results the list gives.\<close>

lemma run_refines:
  assumes "wf q" "cap = length (contents q) + room q"
  shows "\<exists>rs q'. run_ops put get ops q = Some (rs, q') \<and> spec_ops cap ops (contents q) = (rs, contents q')
    \<and> wf q' \<and> cap = length (contents q') + room q'"
  using assms
proof (induction ops arbitrary: q)
  case (Cons op ops)
  show ?case
  proof (cases op)
    case (Put bs)
    obtain q1 where q1: "put q bs = Some (int (min (length bs) (room q)), q1)" "wf q1"
      "contents q1 = contents q @ take (room q) bs" "room q1 = room q - length bs"
      using put_law [OF Cons.prems(1), of bs] by blast
    have "cap = length (contents q1) + room q1" using q1(3,4) Cons.prems(2) by (simp add: min_def)
    from Cons.IH [OF q1(2) this] obtain rs q2 where q2: "run_ops put get ops q1 = Some (rs, q2)"
      "spec_ops cap ops (contents q1) = (rs, contents q2)" "wf q2"
      "cap = length (contents q2) + room q2" by blast
    have "take (min (length bs) (cap - length (contents q))) bs = take (room q) bs"
      using Cons.prems(2) by (simp add: min_def)
    then show ?thesis using q1 q2 Cons.prems(2) by (simp add: Put)
  next
    case (Get n)
    obtain q1 where q1: "get q (int n) = Some (take n (contents q), q1)" "wf q1"
      "contents q1 = drop n (contents q)" "room q1 = room q + min n (length (contents q))"
      using get_law [OF Cons.prems(1), of "int n"] by auto
    have "cap = length (contents q1) + room q1" using q1(3,4) Cons.prems(2) by simp
    from Cons.IH [OF q1(2) this] obtain rs q2 where q2: "run_ops put get ops q1 = Some (rs, q2)"
      "spec_ops cap ops (contents q1) = (rs, contents q2)" "wf q2"
      "cap = length (contents q2) + room q2" by blast
    then show ?thesis using q1 by (simp add: Get)
  qed
qed simp

end

section \<open>The ring as a queue\<close>

definition ring :: "u8 list \<Rightarrow> nat \<Rightarrow> nat \<Rightarrow> membuff" where
  "ring b h t = \<lparr>store = Some b, head = int h, tail = int t\<rparr>"

lemma ring_sel [simp]:
  "store (ring b h t) = Some b" "head (ring b h t) = int h" "tail (ring b h t) = int t"
  by (simp_all add: ring_def)

lemma ring_upd [simp]:
  "(ring b h t)\<lparr>store := Some b'\<rparr> = ring b' h t"
  "(ring b h t)\<lparr>head := int h'\<rparr> = ring b h' t" "(ring b h t)\<lparr>tail := int t'\<rparr> = ring b h t'"
  by (simp_all add: ring_def)

text \<open>The pointers of a buffer with storage stay inside the storage.\<close>

definition mb_wf :: "membuff \<Rightarrow> bool" where
  "mb_wf mb \<longleftrightarrow> store mb \<noteq> None \<and> 0 \<le> head mb \<and> head mb < mb_end mb \<and> 0 \<le> tail mb \<and> tail mb < mb_end mb"

definition mb_contents :: "membuff \<Rightarrow> u8 list" where
  "mb_contents mb =
     (let b = bytes mb; h = nat (head mb); t = nat (tail mb)
      in if t \<le> h then seg b t (h - t) else seg b t (length b - t) @ seg b 0 h)"

definition mb_room :: "membuff \<Rightarrow> nat" where
  "mb_room mb = length (bytes mb) - 1 - length (mb_contents mb)"

lemma bytes_ring [simp]: "bytes (ring b h t) = b" "mb_end (ring b h t) = int (length b)"
  by (simp_all add: bytes_def mb_end_def)

lemma mb_wf_ring [simp]: "mb_wf (ring b h t) \<longleftrightarrow> h < length b \<and> t < length b"
  by (simp add: mb_wf_def)

lemma mb_wfE:
  assumes "mb_wf mb"
  obtains b h t where "mb = ring b h t" "h < length b" "t < length b"
proof -
  obtain b where b: "store mb = Some b" using assms by (auto simp: mb_wf_def)
  show thesis
    by (rule that [of b "nat (head mb)" "nat (tail mb)"])
      (use assms b in \<open>auto simp: ring_def mb_wf_def mb_end_def bytes_def intro!: membuff.equality\<close>)
qed

lemma contents_ring:
  "mb_contents (ring b h t) =
     (if t \<le> h then seg b t (h - t) else seg b t (length b - t) @ seg b 0 h)"
  by (simp add: mb_contents_def Let_def)

lemma length_contents_ring:
  "h < length b \<Longrightarrow> t < length b \<Longrightarrow>
   length (mb_contents (ring b h t)) = (if t \<le> h then h - t else length b - t + h)"
  by (simp add: contents_ring min_def)

lemma room_ring:
  "h < length b \<Longrightarrow> t < length b \<Longrightarrow>
   mb_room (ring b h t) = (if t \<le> h then length b - 1 - (h - t) else t - h - 1)"
  by (auto simp: mb_room_def length_contents_ring)

subsection \<open>Taking out\<close>

lemma getraw_upto:
  "t < h \<Longrightarrow> membuff_getraw (ring b h t) (int n) True
     = (int (min n (h - t)), int t, ring b h (t + min n (h - t)))"
  by (auto simp: membuff_getraw_def cap_len_def ring_def mb_end_def bytes_def Let_def of_nat_diff
      min_def)

lemma getraw_wrapped:
  "h < t \<Longrightarrow> t < length b \<Longrightarrow> membuff_getraw (ring b h t) (int n) True
     = (int (min n (length b - t)), int t,
        ring b h (if length b - t \<le> n then 0 else t + n))"
  by (auto simp: membuff_getraw_def cap_len_def ring_def mb_end_def bytes_def Let_def of_nat_diff
      min_def)

lemma getraw_empty: "membuff_getraw (ring b h h) n u = (0, 0, ring b h h)"
  by (simp add: membuff_getraw_def)

lemma fetch_ring:
  "t + n \<le> length b \<Longrightarrow> fetch (ring b h t') (int t) (int n) = Some (seg b t n)"
  by (auto simp: fetch_def nat_int_add)

lemma fetch_0 [simp]: "fetch mb off 0 = Some []"
  by (simp add: fetch_def)

lemma take_seg: "take k (seg xs p n) = seg xs p (min k n)"
  by (simp add: seg_def)

lemma drop_seg: "drop k (seg xs p n) = seg xs (p + k) (n - k)"
  by (simp add: seg_def drop_take add.commute)

lemma get_ring_upto:
  assumes "t < h" "h < length b"
  shows "membuff_get (ring b h t) (int n)
    = Some (seg b t (min n (h - t)), ring b h (t + min n (h - t)))"
proof (cases "n = 0")
  case False
  let ?k = "min n (h - t)"
  have rest: "membuff_getraw (ring b h (t + ?k)) (int n - int ?k) True
    = (0, if t + ?k = h then 0 else int (t + ?k), ring b h (t + ?k))"
  proof (cases "t + ?k = h")
    case True
    then show ?thesis by (simp only: getraw_empty) simp
  next
    case ne: False
    then have "t + ?k < h" "n = ?k" using assms by auto
    then show ?thesis using getraw_upto [of "t + ?k" h b 0] ne by simp
  qed
  have "fetch (ring b h (t + ?k)) (int t) (int ?k) = Some (seg b t ?k)"
    using assms by (intro fetch_ring) auto
  moreover have "int ?k \<noteq> 0" using False assms by simp
  ultimately show ?thesis
    unfolding membuff_get_def getraw_upto [OF assms(1)] prod.case rest by simp
qed (use assms getraw_upto [of t h b 0] in \<open>simp add: membuff_get_def\<close>)

lemma get_ring_wrapped:
  assumes "h < t" "t < length b"
  shows "membuff_get (ring b h t) (int n)
    = Some (if n < length b - t then (seg b t n, ring b h (t + n))
            else (seg b t (length b - t) @ seg b 0 (min (n - (length b - t)) h),
                  ring b h (min (n - (length b - t)) h)))"
proof (cases "n < length b - t")
  case True
  have f: "fetch (ring b h (t + n)) (int t) (int n) = Some (seg b t n)"
    using True by (intro fetch_ring) auto
  have r: "membuff_getraw (ring b h (t + n)) 0 True = (0, int (t + n), ring b h (t + n))"
    using getraw_wrapped [of h "t + n" b 0] assms True by simp
  have g: "membuff_getraw (ring b h t) (int n) True = (int n, int t, ring b h (t + n))"
    using getraw_wrapped [OF assms, of n] True by simp
  show ?thesis using True f r by (simp add: membuff_get_def g)
next
  case False
  let ?k = "length b - t" and ?m = "n - (length b - t)"
  have g: "membuff_getraw (ring b h t) (int n) True = (int ?k, int t, ring b h 0)"
    using getraw_wrapped [OF assms, of n] False by simp
  have f: "fetch (ring b h 0) (int t) (int ?k) = Some (seg b t ?k)"
    using assms by (intro fetch_ring) auto
  have k: "int ?k \<noteq> 0" "int n - int ?k = int ?m" using assms False by simp_all
  have r: "membuff_getraw (ring b h 0) (int ?m) True = (int (min ?m h), 0, ring b h (min ?m h))"
  proof (cases "h = 0")
    case True
    then show ?thesis using getraw_empty [of b 0 "int ?m" True] by simp
  next
    case h: False
    then show ?thesis using getraw_upto [of 0 h b ?m] by simp
  qed
  have "fetch (ring b h (min ?m h)) (int 0) (int (min ?m h)) = Some (seg b 0 (min ?m h))"
    using assms by (intro fetch_ring) auto
  then have "membuff_get (ring b h t) (int n)
    = Some (seg b t ?k @ seg b 0 (min ?m h), ring b h (min ?m h))"
    unfolding membuff_get_def g prod.case f k(2) r bind.bind_lunit using k(1) by simp
  then show ?thesis using False by simp
qed

lemma membuff_get_contents:
  assumes "mb_wf mb" "0 \<le> n"
  shows "\<exists>mb'. membuff_get mb n = Some (take (nat n) (mb_contents mb), mb') \<and> mb_wf mb'
    \<and> mb_contents mb' = drop (nat n) (mb_contents mb)
    \<and> mb_room mb' = mb_room mb + min (nat n) (length (mb_contents mb))"
proof -
  obtain b h t where mb: "mb = ring b h t" and lt: "h < length b" "t < length b"
    using assms(1) by (rule mb_wfE)
  obtain k where n: "n = int k" using assms(2) by (rule nonneg_int_cases)
  consider "t = h" | "t < h" | "h < t" by linarith
  then show ?thesis
  proof cases
    case 1
    then show ?thesis using lt by (simp add: mb n membuff_get_def getraw_empty contents_ring)
  next
    case 2
    then show ?thesis using lt get_ring_upto [OF 2 lt(1), of k]
      by (auto simp: mb n contents_ring room_ring take_seg drop_seg min_def)
  next
    case 3
    then show ?thesis using lt get_ring_wrapped [OF 3 lt(2), of k]
      by (auto simp: mb n contents_ring room_ring take_seg drop_seg min_def)
  qed
qed

subsection \<open>Putting in\<close>

lemma putraw_below:
  "h < t \<Longrightarrow> t < length b \<Longrightarrow> membuff_putraw (ring b h t) (int n) True
     = (int (min n (t - h - 1)), int h, ring b (h + min n (t - h - 1)) t)"
  by (auto simp: membuff_putraw_def membuff_putrawflex_def cap_len_def ring_def Let_def of_nat_diff
      min_def)

lemma putraw_above:
  "t \<le> h \<Longrightarrow> h < length b \<Longrightarrow> membuff_putraw (ring b h t) (int n) True
     = (if n \<le> length b - h - 1 then (int n, int h, ring b (h + n) t)
        else if t = 0 then (int (length b - h - 1), int h, ring b (length b - 1) t)
        else (int (length b - h), int h, ring b 0 t))"
  by (auto simp: membuff_putraw_def membuff_putrawflex_def cap_len_def ring_def mb_end_def bytes_def
      Let_def of_nat_diff)

lemma store_at_ring:
  "h + length bs \<le> length b \<Longrightarrow> store_at (ring b h' t) (int h) bs = Some (ring (put_seg b h bs) h' t)"
  by (auto simp: store_at_def nat_int_add)

lemma store_at_Nil [simp]: "store_at mb off [] = Some mb"
  by (simp add: store_at_def)

lemma put_two_steps:
  assumes g: "membuff_putraw mb (int (length bs)) True = (int j, o1, mb1)"
    and s: "store_at mb1 o1 (take j bs) = Some mb1'" and "j \<le> length bs"
    and r: "membuff_putraw mb1' (int (length bs - j)) True = (int k, o2, mb2)"
    and s2: "store_at mb2 o2 (take k (drop j bs)) = Some mb2'"
  shows "membuff_put mb bs = Some (int (j + k), mb2')"
proof -
  have d: "int (length bs) - int j = int (length bs - j)" using assms(3) by simp
  show ?thesis unfolding membuff_put_def Let_def g prod.case nat_int s d using r s2 by simp
qed

lemma put_ring_below:
  assumes "h < t" "t < length b" and k: "k = min (length bs) (t - h - 1)"
  shows "membuff_put (ring b h t) bs = Some (int k, ring (put_seg b h (take k bs)) (h + k) t)"
proof -
  let ?b = "put_seg b h (take k bs)"
  have len: "length ?b = length b" using assms by simp
  have g: "membuff_putraw (ring b h t) (int (length bs)) True = (int k, int h, ring b (h + k) t)"
    using putraw_below [OF assms(1,2), of "length bs"] k by simp
  have s: "store_at (ring b (h + k) t) (int h) (take k bs) = Some (ring ?b (h + k) t)"
    using assms by (intro store_at_ring) simp
  have r: "membuff_putraw (ring ?b (h + k) t) (int (length bs - k)) True
    = (int 0, int (h + k), ring ?b (h + k) t)"
    using putraw_below [of "h + k" t ?b "length bs - k"] assms len by (auto simp: min_def)
  show ?thesis using put_two_steps [OF g s _ r] k by simp
qed

lemma put_ring_above:
  assumes "t \<le> h" "h < length b" and k: "k = min (length bs) (length b - h - 1)"
    and fits: "length bs \<le> length b - h - 1 \<or> t = 0"
  shows "membuff_put (ring b h t) bs = Some (int k, ring (put_seg b h (take k bs)) (h + k) t)"
proof -
  let ?b = "put_seg b h (take k bs)"
  have len: "length ?b = length b" using assms by simp
  have g: "membuff_putraw (ring b h t) (int (length bs)) True = (int k, int h, ring b (h + k) t)"
    using putraw_above [OF assms(1,2), of "length bs"] k fits assms(2) by (auto simp: min_def)
  have s: "store_at (ring b (h + k) t) (int h) (take k bs) = Some (ring ?b (h + k) t)"
    using assms by (intro store_at_ring) simp
  have r: "membuff_putraw (ring ?b (h + k) t) (int (length bs - k)) True
    = (int 0, int (h + k), ring ?b (h + k) t)"
    using putraw_above [of t "h + k" ?b "length bs - k"] assms len by (auto simp: min_def)
  show ?thesis using put_two_steps [OF g s _ r] k by simp
qed

lemma put_ring_around:
  assumes "t \<le> h" "h < length b" "t \<noteq> 0" "length b - h - 1 < length bs"
    and j: "j = length b - h" and k: "k = min (length bs - j) (t - 1)"
  shows "membuff_put (ring b h t) bs
    = Some (int (j + k), ring (put_seg (put_seg b h (take j bs)) 0 (take k (drop j bs))) k t)"
proof -
  let ?b = "put_seg b h (take j bs)"
  have le: "j \<le> length bs" using assms by simp
  have len: "length ?b = length b" using assms by simp
  have g: "membuff_putraw (ring b h t) (int (length bs)) True = (int j, int h, ring b 0 t)"
    using putraw_above [OF assms(1,2), of "length bs"] assms by auto
  have s: "store_at (ring b 0 t) (int h) (take j bs) = Some (ring ?b 0 t)"
    using assms by (intro store_at_ring) simp
  have r: "membuff_putraw (ring ?b 0 t) (int (length bs - j)) True = (int k, int 0, ring ?b k t)"
    using putraw_below [of 0 t ?b "length bs - j"] assms len by (simp add: min_def)
  have s2: "store_at (ring ?b k t) (int 0) (take k (drop j bs))
    = Some (ring (put_seg ?b 0 (take k (drop j bs))) k t)"
    using assms len by (intro store_at_ring) simp
  show ?thesis by (rule put_two_steps [OF g s le r s2])
qed

lemma seg_put_seg_after:
  "h + length bs \<le> length b \<Longrightarrow> t \<le> h \<Longrightarrow> seg (put_seg b h bs) t (h + length bs - t) = seg b t (h - t) @ bs"
  by (rule seg_eqI) (auto simp: nth_put_seg nth_append add.commute)

lemma put_contentsI:
  assumes "membuff_put mb bs = Some (int k, mb')" "k = min (length bs) (mb_room mb)" "mb_wf mb'"
    "mb_contents mb' = mb_contents mb @ take k bs" "length (bytes mb') = length (bytes mb)"
  shows "\<exists>mb'. membuff_put mb bs = Some (int (min (length bs) (mb_room mb)), mb') \<and> mb_wf mb'
    \<and> mb_contents mb' = mb_contents mb @ take (mb_room mb) bs \<and> mb_room mb' = mb_room mb - length bs"
proof -
  have "take k bs = take (mb_room mb) bs" using assms(2) by (simp add: min_def)
  moreover have "mb_room mb' = mb_room mb - length bs"
    using assms(2,4,5) by (simp add: mb_room_def min_def)
  ultimately show ?thesis using assms(1,2,3,4) by auto
qed

lemma membuff_put_contents:
  assumes "mb_wf mb"
  shows "\<exists>mb'. membuff_put mb bs = Some (int (min (length bs) (mb_room mb)), mb') \<and> mb_wf mb'
    \<and> mb_contents mb' = mb_contents mb @ take (mb_room mb) bs \<and> mb_room mb' = mb_room mb - length bs"
proof -
  obtain b h t where mb: "mb = ring b h t" and lt: "h < length b" "t < length b"
    using assms by (rule mb_wfE)
  consider "h < t" | "t \<le> h" "length bs \<le> length b - h - 1 \<or> t = 0"
    | "t \<le> h" "length b - h - 1 < length bs" "t \<noteq> 0" by linarith
  then show ?thesis
  proof cases
    case 1
    let ?k = "min (length bs) (t - h - 1)"
    have "seg (put_seg b h (take ?k bs)) t (length b - t) = seg b t (length b - t)"
      using 1 lt by (intro seg_put_seg_disjoint) auto
    moreover have "seg (put_seg b h (take ?k bs)) 0 (h + ?k) = seg b 0 h @ take ?k bs"
      using seg_put_seg_after [of h "take ?k bs" b 0] 1 lt by simp
    moreover have "\<not> t \<le> h + ?k" using 1 by auto
    ultimately show ?thesis unfolding mb
      by (intro put_contentsI [OF put_ring_below [OF 1 lt(2) refl]])
        (use 1 lt in \<open>simp_all add: contents_ring room_ring\<close>)
  next
    case 2
    let ?k = "min (length bs) (length b - h - 1)"
    have "seg (put_seg b h (take ?k bs)) t (h + ?k - t) = seg b t (h - t) @ take ?k bs"
      using seg_put_seg_after [of h "take ?k bs" b t] 2 lt by simp
    moreover have "?k = min (length bs) (mb_room (ring b h t))"
      using 2 lt by (auto simp: room_ring)
    ultimately show ?thesis unfolding mb
      by (intro put_contentsI [OF put_ring_above [OF 2(1) lt(1) refl 2(2)]])
        (use 2 lt in \<open>simp_all add: contents_ring\<close>)
  next
    case 3
    define j k where "j = length b - h" and "k = min (length bs - j) (t - 1)"
    let ?b = "put_seg b h (take j bs)"
    let ?c = "put_seg ?b 0 (take k (drop j bs))"
    have len: "length (take j bs) = j" "length (take k (drop j bs)) = k" "length ?b = length b"
      using 3 lt by (auto simp: j_def k_def)
    have "seg ?c t (length b - t) = seg ?b t (length b - t)"
      using 3 lt len by (intro seg_put_seg_disjoint) (auto simp: k_def)
    moreover have "seg ?b t (length b - t) = seg b t (h - t) @ take j bs"
      using seg_put_seg_after [of h "take j bs" b t] 3 lt len by (simp add: j_def)
    moreover have "seg ?c 0 k = take k (drop j bs)"
      using seg_put_seg [of 0 "take k (drop j bs)" ?b] len 3 lt by (simp add: k_def)
    moreover have "k < t" "length ?c = length b" using 3 lt len by (auto simp: k_def)
    moreover have "j + k = min (length bs) (mb_room (ring b h t))"
      using 3 lt by (auto simp: room_ring j_def k_def)
    moreover have "take j bs @ take k (drop j bs) = take (j + k) bs" by (simp add: take_add)
    ultimately show ?thesis unfolding mb
      by (intro put_contentsI [OF put_ring_around [OF 3(1) lt(1) 3(3,2) j_def k_def]])
        (use 3 lt in \<open>simp_all add: contents_ring\<close>)
  qed
qed

interpretation mbq: byte_queue mb_wf mb_contents mb_room membuff_put membuff_get
  by unfold_locales (use membuff_put_contents membuff_get_contents in blast)+

text \<open> C21. The ring buffer is a bounded first-in first-out queue: from every state whose pointers are in
  the storage, any sequence of \<^verbatim>\<open>membuff_put\<close> and \<^verbatim>\<open>membuff_get\<close> calls succeeds,
  never touches a byte outside the storage, keeps the pointers inside, and gives call by call the
  results of a list of bytes that holds at most one byte less than the size of the storage.
\<close>

theorem membuff_refines_queue:
  assumes "mb_wf mb"
  shows "\<exists>rs mb'. run_ops membuff_put membuff_get ops mb = Some (rs, mb')
    \<and> spec_ops (length (mb_contents mb) + mb_room mb) ops (mb_contents mb) = (rs, mb_contents mb')
    \<and> mb_wf mb'"
  using mbq.run_refines [OF assms refl, of ops] by blast

theorem membuff_refines_queue_witness:
  "\<exists>rs mb'. run_ops membuff_put membuff_get [Put [7, 8, 9], Get 2, Put [5]]
      \<lparr>store = Some [3, 0, 1, 2], head = 1, tail = 3\<rparr> = Some (rs, mb')
    \<and> spec_ops 3 [Put [7, 8, 9], Get 2, Put [5]] [2, 3] = (rs, mb_contents mb')
    \<and> mb_wf mb' \<and> rs = [Wrote 1, Got [2, 3], Wrote 1]"
proof -
  let ?mb = "\<lparr>store = Some [3, 0, 1, 2 :: u8], head = 1, tail = 3\<rparr>"
  have wf: "mb_wf ?mb" by code_simp
  have "mb_contents ?mb = [2, 3]" "mb_room ?mb = 1" by code_simp+
  moreover have "fst (spec_ops 3 [Put [7, 8, 9], Get 2, Put [5]] [2, 3 :: u8]) = [Wrote 1, Got [2, 3], Wrote 1]"
    by code_simp
  ultimately show ?thesis
    using membuff_refines_queue [OF wf, of "[Put [7, 8, 9], Get 2, Put [5]]"] by auto
qed

subsection \<open>Counting\<close>

lemma avail_ring:
  assumes "h < length b" "t < length b"
  shows "membuff_avail (ring b h t) = int (length (mb_contents (ring b h t)))"
  using assms length_contents_ring [OF assms]
  by (auto simp: membuff_avail_def membuff_getraw_def cap_len_def ring_def mb_end_def bytes_def Let_def)

lemma membuff_avail_free:
  assumes "mb_wf mb"
  shows "membuff_avail mb = int (length (mb_contents mb))" "membuff_free mb = int (mb_room mb)"
proof -
  obtain b h t where mb: "mb = ring b h t" and lt: "h < length b" "t < length b"
    using assms by (rule mb_wfE)
  show "membuff_avail mb = int (length (mb_contents mb))"
    using avail_ring [OF lt] by (simp add: mb)
  show "membuff_free mb = int (mb_room mb)"
    using lt avail_ring [OF lt] length_contents_ring [OF lt] room_ring [OF lt]
    by (auto simp: mb membuff_free_def)
qed

lemma membuff_isempty_contents: "mb_wf mb \<Longrightarrow> membuff_isempty mb \<longleftrightarrow> mb_contents mb = []"
  by (erule mb_wfE) (auto simp: membuff_isempty_def length_contents_ring
      simp flip: length_0_conv split: if_splits)

subsection \<open>Reading a line\<close>

text \<open>The bytes up to the first one that stops the line, if it is among the first \<open>k\<close>.\<close>

fun scan_line :: "(u8 \<Rightarrow> bool) \<Rightarrow> nat \<Rightarrow> u8 list \<Rightarrow> u8 list option" where
  "scan_line stop 0 cs = None"
| "scan_line stop (Suc k) [] = None"
| "scan_line stop (Suc k) (c # cs) = (if stop c then Some [c] else map_option (Cons c) (scan_line stop k cs))"

definition line_stop :: "int \<Rightarrow> u8 \<Rightarrow> bool" where
  "line_stop minch c \<longleftrightarrow> c = 10 \<or> uint c < minch"

definition loop_ok :: "(u8 list \<times> int \<times> bool) option \<Rightarrow> u8 list option \<Rightarrow> (nat \<Rightarrow> nat) \<Rightarrow> bool" where
  "loop_ok r l adv \<longleftrightarrow> (case r of None \<Rightarrow> False | Some (line, s', ok) \<Rightarrow>
     (case l of None \<Rightarrow> \<not> ok | Some xs \<Rightarrow> ok \<and> line = xs \<and> s' = int (adv (length xs))))"

lemma scan_line_none: "(\<forall>c \<in> set cs. \<not> stop c) \<Longrightarrow> scan_line stop k cs = None"
  by (induction stop k cs rule: scan_line.induct) auto

lemma scan_line_length: "scan_line stop k cs = Some l \<Longrightarrow> 0 < length l \<and> length l \<le> length cs \<and> l = take (length l) cs"
  by (induction stop k cs arbitrary: l rule: scan_line.induct) (auto split: if_splits)

lemma readline_step:
  assumes "s < e" "e \<le> length b"
  shows "readline_loop (ring b h t) minch (Suc k) (int s) (int e) =
    (if line_stop minch (b ! s) then Some ([b ! s], int (Suc s), True)
     else map_option (\<lambda>(line, r). (b ! s # line, r))
       (if Suc s = e \<and> t > h then readline_loop (ring b h t) minch k 0 (int h)
        else readline_loop (ring b h t) minch k (int (Suc s)) (int e)))"
proof -
  have f: "fetch (ring b h t) (int s) 1 = Some [b ! s]"
    using fetch_ring [of s 1 b h t] assms by (simp add: seg_Suc)
  have e: "int s + 1 = int (Suc s)" by simp
  show ?thesis using assms
    by (simp add: f e line_stop_def Let_def del: of_nat_Suc)
      (auto split: option.splits bind_splits)
qed

lemma loop_ok_Cons:
  assumes "loop_ok r (scan_line stop k cs) adv" "\<not> stop c" "\<And>n. adv' (Suc n) = adv n"
  shows "loop_ok (map_option (\<lambda>(line, r). (c # line, r)) r) (scan_line stop (Suc k) (c # cs)) adv'"
  using assms by (auto simp: loop_ok_def split: option.splits)

lemma loop_ok_None: "loop_ok r None adv \<Longrightarrow> loop_ok r None adv'"
  by (auto simp: loop_ok_def split: option.splits)

lemma loop_ok_stop: "stop c \<Longrightarrow> s' = int (adv 1) \<Longrightarrow>
    loop_ok (Some ([c], s', True)) (scan_line stop (Suc k) (c # cs)) adv"
  by (simp add: loop_ok_def)

lemma readline_flat:
  assumes "\<not> h < t" "s \<le> e" "e \<le> length b"
  shows "loop_ok (readline_loop (ring b h t) minch k (int s) (int e))
    (scan_line (line_stop minch) k (seg b s (e - s))) (\<lambda>n. s + n)"
  using assms
proof (induction k arbitrary: s)
  case (Suc k)
  show ?case
  proof (cases "s < e")
    case True
    then have "seg b s (e - s) = b ! s # seg b (Suc s) (e - Suc s)"
      using Suc.prems seg_Suc [of s b "e - Suc s"] by (simp add: Suc_diff_Suc)
    then show ?thesis
      using True Suc.prems Suc.IH [of "Suc s"] by (auto simp: readline_step intro!: loop_ok_stop loop_ok_Cons
          simp del: readline_loop.simps scan_line.simps)
  qed (use Suc.prems in \<open>simp add: loop_ok_def\<close>)
qed (simp add: loop_ok_def)

text \<open>Past the wrap.  On reaching the head without a terminator the loop starts over from the
  bottom, where it finds none either.\<close>

lemma readline_low:
  assumes "h < t" "s \<le> h" "h < length b" "\<forall>c \<in> set (seg b 0 s). \<not> line_stop minch c"
  shows "loop_ok (readline_loop (ring b h t) minch k (int s) (int h))
    (scan_line (line_stop minch) k (seg b s (h - s))) (\<lambda>n. s + n)"
  using assms
proof (induction k arbitrary: s)
  case (Suc k)
  show ?case
  proof (cases "s < h")
    case True
    then have sg: "seg b s (h - s) = b ! s # seg b (Suc s) (h - Suc s)"
      using Suc.prems seg_Suc [of s b "h - Suc s"] by (simp add: Suc_diff_Suc)
    show ?thesis
    proof (cases "line_stop minch (b ! s)")
      case False
      then have low: "\<forall>c \<in> set (seg b 0 (Suc s)). \<not> line_stop minch c"
        using Suc.prems True seg_Suc_right [of 0 s b] by auto
      show ?thesis
      proof (cases "Suc s = h")
        case top: True
        have "loop_ok (readline_loop (ring b h t) minch k 0 (int h)) None (\<lambda>n. Suc s + n)"
          using Suc.IH [of 0] Suc.prems low scan_line_none [of "seg b 0 h" "line_stop minch" k]
          by (auto simp: top intro: loop_ok_None)
        moreover have "scan_line (line_stop minch) k [] = None" by (rule scan_line_none) simp
        ultimately have "loop_ok (readline_loop (ring b h t) minch k 0 (int h))
          (scan_line (line_stop minch) k []) (\<lambda>n. Suc s + n)" by simp
        then show ?thesis using False Suc.prems True
          by (auto simp: readline_step sg top intro!: loop_ok_Cons simp del: readline_loop.simps scan_line.simps)
      next
        case ntop: False
        then show ?thesis using False Suc.prems True low Suc.IH [of "Suc s"]
          by (auto simp: readline_step sg intro!: loop_ok_Cons simp del: readline_loop.simps scan_line.simps)
      qed
    qed (use True Suc.prems in \<open>auto simp: readline_step sg intro!: loop_ok_stop
        simp del: readline_loop.simps scan_line.simps\<close>)
  qed (use Suc.prems in \<open>simp add: loop_ok_def\<close>)
qed (simp add: loop_ok_def)

lemma readline_high:
  assumes "h < t" "s < length b" "h < length b"
  shows "loop_ok (readline_loop (ring b h t) minch k (int s) (int (length b)))
    (scan_line (line_stop minch) k (seg b s (length b - s) @ seg b 0 h))
    (\<lambda>n. if n \<le> length b - s then s + n else n - (length b - s))"
  using assms
proof (induction k arbitrary: s)
  case (Suc k)
  have sg: "seg b s (length b - s) = b ! s # seg b (Suc s) (length b - Suc s)"
    using Suc.prems seg_Suc [of s b "length b - Suc s"] by (simp add: Suc_diff_Suc)
  show ?case
  proof (cases "line_stop minch (b ! s)")
    case False
    show ?thesis
    proof (cases "Suc s = length b")
      case True
      then have one: "length b - s = 1" by simp
      have "loop_ok (readline_loop (ring b h t) minch k 0 (int h))
        (scan_line (line_stop minch) k (seg b 0 h)) (\<lambda>n. n)"
        using readline_low [of h t 0 b minch k] Suc.prems by simp
      then have "loop_ok (readline_loop (ring b h t) minch k 0 (int h))
        (scan_line (line_stop minch) k (seg b 0 h))
        (\<lambda>n. if Suc n \<le> length b - s then s + Suc n else Suc n - (length b - s))"
        using scan_line_length [of "line_stop minch" k "seg b 0 h"]
        by (auto simp: loop_ok_def one split: option.splits)
      then show ?thesis using False Suc.prems True
        by (auto simp: readline_step sg intro!: loop_ok_Cons simp del: readline_loop.simps scan_line.simps)
    next
      case top: False
      then have "Suc s < length b" using Suc.prems by simp
      moreover from this have "(\<lambda>n. if n \<le> length b - Suc s then Suc s + n else n - (length b - Suc s))
        = (\<lambda>n. if Suc n \<le> length b - s then s + Suc n else Suc n - (length b - s))"
        by (auto simp: fun_eq_iff)
      ultimately show ?thesis using False Suc.prems top Suc.IH [of "Suc s"]
        by (auto simp: readline_step sg intro!: loop_ok_Cons simp del: readline_loop.simps scan_line.simps)
    qed
  qed (use Suc.prems in \<open>auto simp: readline_step sg intro!: loop_ok_stop
      simp del: readline_loop.simps scan_line.simps\<close>)
qed (simp add: loop_ok_def)

lemma ring_advance:
  assumes lt: "h < length b" "t < length b" and n: "n \<le> length (mb_contents (ring b h t))"
    and adv: "adv = (if h < t \<and> \<not> n \<le> length b - t then n - (length b - t) else t + n)"
  shows "mb_wf (ring b h (if adv = length b then 0 else adv))"
    and "mb_contents (ring b h (if adv = length b then 0 else adv)) = drop n (mb_contents (ring b h t))"
proof -
  note n = n [unfolded length_contents_ring [OF lt]]
  consider "t \<le> h" "adv = t + n" "t + n \<le> h" | "h < t" "n < length b - t" "adv = t + n"
    | "h < t" "n = length b - t" "adv = length b"
    | "h < t" "length b - t < n" "adv = n - (length b - t)" "adv \<le> h"
    using adv n lt by (cases "h < t"; cases "n < length b - t"; cases "n = length b - t") auto
  note c = this
  show "mb_wf (ring b h (if adv = length b then 0 else adv))" using c lt by cases auto
  show "mb_contents (ring b h (if adv = length b then 0 else adv)) = drop n (mb_contents (ring b h t))"
    using c by cases (use lt in \<open>simp_all add: contents_ring drop_seg\<close>)
qed

text \<open> \<^verbatim>\<open>membuff_readline\<close> on a buffer with its pointers in the storage, wherever the data
  wraps around: when a newline or a character below \<^verbatim>\<open>minch\<close> is among the first
  \<^verbatim>\<open>maxlen - 1\<close> bytes queued, the line returned is the bytes up to and including the first
  one, and exactly these leave the queue; otherwise it returns 0 and the queue is as before.
\<close>

theorem membuff_readline_correct:
  assumes "mb_wf mb"
  shows "case scan_line (line_stop minch) (nat (maxlen - 1)) (mb_contents mb) of
      None \<Rightarrow> membuff_readline mb maxlen minch = Some (0, [], mb)
    | Some l \<Rightarrow> \<exists>mb'. membuff_readline mb maxlen minch = Some (int (length l), l, mb') \<and> mb_wf mb'
        \<and> mb_contents mb = l @ mb_contents mb'"
proof -
  obtain b h t where mb: "mb = ring b h t" and lt: "h < length b" "t < length b"
    using assms by (rule mb_wfE)
  define adv where "adv = (\<lambda>n. if h < t \<and> \<not> n \<le> length b - t then n - (length b - t) else t + n)"
  have ok: "loop_ok (readline_loop mb minch (nat (maxlen - 1)) (tail mb)
      (if head mb \<ge> tail mb then head mb else mb_end mb))
    (scan_line (line_stop minch) (nat (maxlen - 1)) (mb_contents mb)) adv"
  proof (cases "h < t")
    case True
    then have "adv = (\<lambda>n. if n \<le> length b - t then t + n else n - (length b - t))"
      by (auto simp: adv_def fun_eq_iff)
    then show ?thesis using readline_high [OF True lt(2,1), of minch "nat (maxlen - 1)"] True
      by (simp add: mb contents_ring)
  next
    case False
    then show ?thesis using readline_flat [OF False, of t h b minch "nat (maxlen - 1)"] lt
      by (simp add: mb contents_ring adv_def)
  qed
  show ?thesis
  proof (cases "scan_line (line_stop minch) (nat (maxlen - 1)) (mb_contents mb)")
    case None
    then show ?thesis using ok by (auto simp: loop_ok_def membuff_readline_def split: option.splits)
  next
    case (Some l)
    note l = scan_line_length [OF Some]
    define a where "a = adv (length l)"
    define mb' where "mb' = ring b h (if a = length b then 0 else a)"
    obtain s' where "readline_loop mb minch (nat (maxlen - 1)) (tail mb)
      (if head mb \<ge> tail mb then head mb else mb_end mb) = Some (l, s', True)" "s' = int a"
      using ok by (auto simp: Some loop_ok_def a_def split: option.splits)
    moreover have "mb\<lparr>tail := (if int a = mb_end mb then 0 else int a)\<rparr> = mb'"
      by (simp add: mb mb'_def ring_def mb_end_def bytes_def)
    ultimately have "membuff_readline mb maxlen minch = Some (int (length l), l, mb')"
      by (simp add: membuff_readline_def)
    moreover have "mb_wf mb'" "mb_contents mb' = drop (length l) (mb_contents mb)"
      using ring_advance [OF lt, of "length l" a] l by (simp_all add: mb mb'_def a_def adv_def)
    moreover have "mb_contents mb = l @ drop (length l) (mb_contents mb)"
      using l append_take_drop_id [of "length l" "mb_contents mb"] by simp
    ultimately show ?thesis by (simp add: Some)
  qed
qed

theorem membuff_readline_correct_witness:
  "\<exists>mb'. membuff_readline \<lparr>store = Some [10, 66, 0, 65], head = 2, tail = 3\<rparr> 8 0
     = Some (2, [65, 10], mb') \<and> mb_wf mb' \<and> [65, 10, 66] = [65, 10] @ mb_contents mb'"
proof -
  let ?mb = "\<lparr>store = Some [10, 66, 0, 65 :: u8], head = 2, tail = 3\<rparr>"
  have "mb_wf ?mb" by code_simp
  moreover have "scan_line (line_stop 0) (nat (8 - 1)) (mb_contents ?mb) = Some [65, 10]"
    "mb_contents ?mb = [65, 10, 66]" by code_simp+
  ultimately show ?thesis using membuff_readline_correct [of ?mb, where minch = 0 and maxlen = 8] by simp
qed

subsection \<open>Making the data contiguous and growing\<close>

lemma makecontig_flat:
  assumes "t \<le> h" "h < length b"
  shows "membuff_makecontig (ring b h t) = Some (True, ring (put_seg b 0 (seg b t (h - t))) (h - t) 0)"
proof -
  have "memcpy b 0 t (h - t) = Some (put_seg b 0 (seg b t (h - t)))"
    using assms by (intro memcpy_run) auto
  then show ?thesis using assms
    by (simp add: membuff_makecontig_def Let_def nat_diff_distrib of_nat_diff ring_def mb_end_def bytes_def)
qed

lemma makecontig_wrapped:
  assumes "h < t" "t < length b" and hi: "hi = length b - t" "h + hi < t"
  shows "membuff_makecontig (ring b h t)
    = Some (True, ring (put_seg (put_seg b hi (seg b 0 h)) 0 (seg b t hi)) (hi + h) 0)"
proof -
  let ?b = "put_seg b hi (seg b 0 h)"
  have len: "length (seg b 0 h) = h" "length ?b = length b" using assms by auto
  have s: "seg ?b t hi = seg b t hi" using assms len by (intro seg_put_seg_disjoint) auto
  have m: "memmove b hi 0 h = Some ?b" using assms by (intro memmove_run) auto
  have c: "memcpy ?b 0 t hi = Some (put_seg ?b 0 (seg b t hi))"
    using memcpy_run [of 0 hi ?b t] assms len s by simp
  have e: "int (length b) - int t = int hi" using assms by simp
  show ?thesis using assms(1,4) m c
    by (simp add: membuff_makecontig_def Let_def e nat_int_add ring_def mb_end_def bytes_def)
qed

text \<open> \<^verbatim>\<open>membuff_makecontig\<close> never faults and keeps the queue: on success the data starts at
  the bottom of the storage and does not wrap, and it fails, with nothing changed, exactly when the
  data wraps around and the lower part cannot be moved up without meeting the upper part.
\<close>

theorem membuff_makecontig_correct:
  assumes "mb_wf mb"
  shows "\<exists>r mb'. membuff_makecontig mb = Some (r, mb') \<and> mb_wf mb' \<and> mb_contents mb' = mb_contents mb
    \<and> r = (\<not> (head mb < tail mb \<and> tail mb \<le> head mb + (mb_end mb - tail mb)))
    \<and> (if r then tail mb' = 0 else mb' = mb)"
proof -
  obtain b h t where mb: "mb = ring b h t" and lt: "h < length b" "t < length b"
    using assms by (rule mb_wfE)
  consider "t \<le> h" | "h < t" "t \<le> h + (length b - t)" | "h < t" "h + (length b - t) < t" by linarith
  then show ?thesis
  proof cases
    case 1
    have "seg (put_seg b 0 (seg b t (h - t))) 0 (h - t) = seg b t (h - t)"
      using seg_put_seg [of 0 "seg b t (h - t)" b] 1 lt by simp
    moreover have "h - t < length b" "b \<noteq> []" "length (put_seg b 0 (seg b t (h - t))) = length b"
      using 1 lt by auto
    ultimately show ?thesis using 1 lt makecontig_flat [OF 1 lt(1)]
      by (intro exI [of _ True] exI [of _ "ring (put_seg b 0 (seg b t (h - t))) (h - t) 0"])
        (simp add: mb contents_ring)
  next
    case 2
    have "int t \<le> int h + (int (length b) - int t)" using 2 lt by linarith
    then have "membuff_makecontig (ring b h t) = Some (False, ring b h t)"
      using 2 by (simp add: membuff_makecontig_def)
    then show ?thesis using 2 lt by (simp add: mb)
  next
    case 3
    define hi where "hi = length b - t"
    let ?b = "put_seg b hi (seg b 0 h)"
    have len: "length (seg b 0 h) = h" "length (seg b t hi) = hi" "length ?b = length b"
      using 3 lt by (auto simp: hi_def)
    have "seg (put_seg ?b 0 (seg b t hi)) 0 hi = seg b t hi"
      using seg_put_seg [of 0 "seg b t hi" ?b] len lt by (simp add: hi_def)
    moreover have "seg (put_seg ?b 0 (seg b t hi)) hi h = seg ?b hi h"
      using 3 lt len by (intro seg_put_seg_disjoint) (auto simp: hi_def)
    moreover have "seg ?b hi h = seg b 0 h"
      using seg_put_seg [of hi "seg b 0 h" b] 3 lt len by (simp add: hi_def)
    moreover have "\<not> int t \<le> int h + (int (length b) - int t)" using 3 lt by linarith
    moreover have "hi + h < length b" "b \<noteq> []" "length (put_seg ?b 0 (seg b t hi)) = length b"
      using 3 lt len by (auto simp: hi_def)
    ultimately show ?thesis
      using 3 lt makecontig_wrapped [OF 3(1) lt(2) hi_def] seg_add [of "put_seg ?b 0 (seg b t hi)" 0 hi h]
      by (intro exI [of _ True] exI [of _ "ring (put_seg ?b 0 (seg b t hi)) (hi + h) 0"])
        (simp add: mb contents_ring hi_def)
  qed
qed

theorem membuff_makecontig_correct_witness:
  "\<exists>r mb'. membuff_makecontig \<lparr>store = Some [2, 3, 0, 0, 0, 1], head = 2, tail = 5\<rparr> = Some (r, mb')
     \<and> mb_wf mb' \<and> mb_contents mb' = [1, 2, 3] \<and> r \<and> tail mb' = 0"
proof -
  let ?mb = "\<lparr>store = Some [2, 3, 0, 0, 0, 1 :: u8], head = 2, tail = 5\<rparr>"
  have "mb_wf ?mb" "mb_contents ?mb = [1, 2, 3]" by code_simp+
  then show ?thesis using membuff_makecontig_correct [of ?mb] by (auto simp: mb_end_def bytes_def)
qed

lemma double_size_run:
  "0 < sz \<Longrightarrow> \<exists>r. double_size sz target = Some r \<and> target \<le> r \<and> sz \<le> r"
proof (induction sz target rule: double_size.induct)
  case (1 sz target)
  show ?case
  proof (cases "sz < target")
    case True
    then obtain r where "double_size (sz * 2) target = Some r" "target \<le> r" "sz * 2 \<le> r"
      using 1 by auto
    then show ?thesis using True 1(2) by (subst double_size.simps) simp
  qed (subst double_size.simps, simp)
qed

text \<open>What \<^verbatim>\<open>realloc\<close> promises when it grows a block.\<close>

definition realloc_keeps :: "(u8 list \<Rightarrow> nat \<Rightarrow> u8 list option) \<Rightarrow> bool" where
  "realloc_keeps realloc \<longleftrightarrow>
     (\<forall>b n b'. realloc b n = Some b' \<longrightarrow> length b \<le> n \<longrightarrow> length b' = n \<and> take (length b) b' = b)"

lemma seg_grown: "take (length b) b' = b \<Longrightarrow> p + n \<le> length b \<Longrightarrow> seg b' p n = seg b p n"
  by (metis (no_types, lifting) seg_def drop_take min.absorb1 take_take add_le_imp_le_diff add.commute)

lemma grow_wrapped:
  assumes "h < t" "t < length b" and b': "length b' = length b + k" "take (length b) b' = b"
  shows "memmove b' (t + k) t (length b - t) = Some (put_seg b' (t + k) (seg b t (length b - t)))"
    and "mb_contents (ring (put_seg b' (t + k) (seg b t (length b - t))) h (t + k))
      = mb_contents (ring b h t)"
proof -
  let ?c = "put_seg b' (t + k) (seg b t (length b - t))"
  have s: "seg b' t (length b - t) = seg b t (length b - t)" "seg b' 0 h = seg b 0 h"
    using assms by (auto intro: seg_grown)
  show "memmove b' (t + k) t (length b - t) = Some ?c"
    using memmove_run [of "t + k" "length b - t" b' t] assms s by simp
  have "seg ?c (t + k) (length b - t) = seg b t (length b - t)"
    using seg_put_seg [of "t + k" "seg b t (length b - t)" b'] assms by simp
  moreover have "seg ?c 0 h = seg b 0 h"
    using seg_put_seg_disjoint [of "t + k" "seg b t (length b - t)" b' 0 h] assms s by simp
  ultimately show "mb_contents (ring ?c h (t + k)) = mb_contents (ring b h t)"
    using assms by (simp add: contents_ring)
qed

lemma extend_ring:
  assumes lt: "h < length b" "t < length b" and k: "0 < k" and r: "realloc_keeps realloc"
    and b': "realloc b (length b + k) = Some b'"
  shows "\<exists>mb'. (if h < t then do { c \<leftarrow> memmove b' (t + k) t (length b - t); Some (ring c h (t + k)) }
      else Some (ring b' h t)) = Some mb'
    \<and> mb_wf mb' \<and> mb_contents mb' = mb_contents (ring b h t) \<and> mb_end mb' = int (length b + k)"
proof -
  have l: "length b' = length b + k" "take (length b) b' = b"
    using r b' by (auto simp: realloc_keeps_def)
  show ?thesis
  proof (cases "h < t")
    case True
    then show ?thesis using grow_wrapped [OF True lt(2) l] lt l by simp
  next
    case False
    then show ?thesis using lt l seg_grown [OF l(2), of t "h - t"] by (simp add: contents_ring)
  qed
qed

text \<open> \<^verbatim>\<open>membuff_extend_by\<close> with any \<^verbatim>\<open>realloc\<close> that keeps the old bytes: it returns
  (the doubling ends), the queue is unchanged also when its data wraps around, and on success the
  storage has grown by the number of bytes asked for or up to the maximum given; otherwise the error
  is \<^verbatim>\<open>-E2BIG\<close> or \<^verbatim>\<open>-ENOMEM\<close> and the buffer is as it was.
\<close>

theorem membuff_extend_by_correct:
  assumes wf: "mb_wf mb" and re: "realloc_keeps realloc" and "0 \<le> by0"
  shows "\<exists>r mb'. membuff_extend_by realloc mb by0 max0 = Some (r, mb') \<and> mb_wf mb'
    \<and> mb_contents mb' = mb_contents mb
    \<and> (if r = 0 then mb_end mb < mb_end mb' \<and> (mb_end mb + by0 \<le> mb_end mb' \<or> mb_end mb' = max0)
       else mb' = mb \<and> r \<in> {- E2BIG, - ENOMEM})"
proof -
  obtain b h t where mb: "mb = ring b h t" and lt: "h < length b" "t < length b"
    using wf by (rule mb_wfE)
  have E: "E2BIG = 7" "ENOMEM = 12" by (simp_all add: E2BIG_def ENOMEM_def)
  have "0 < int (length b)" using lt(1) by linarith
  then obtain s where s: "double_size (int (length b)) (int (length b) + by0) = Some s"
    "int (length b) + by0 \<le> s"
    using double_size_run [of "int (length b)" "int (length b) + by0"] by auto
  define sz where "sz = (if max0 \<noteq> - 1 then min s max0 else s)"
  show ?thesis
  proof (cases "sz \<le> int (length b)")
    case True
    then show ?thesis using s wf by (simp add: membuff_extend_by_def mb Let_def sz_def E)
  next
    case False
    define k where "k = nat (sz - int (length b))"
    have k: "0 < k" "sz = int (length b + k)" using False by (auto simp: k_def)
    have pos: "(sz - int (length b) \<le> 0) = False" using False by simp
    have n: "nat sz = length b + k" "int t + (sz - int (length b)) = int (t + k)"
      "nat (int (length b) - int t) = length b - t" using k(2) by auto
    have u: "(ring b h t)\<lparr>store := Some c, tail := int (t + k)\<rparr> = ring c h (t + k)" for c
      by (simp add: ring_def)
    have ext: "membuff_extend_by realloc mb by0 max0
      = (case realloc b (length b + k) of None \<Rightarrow> Some (- ENOMEM, mb)
         | Some b' \<Rightarrow> if int h < int t
             then do { c \<leftarrow> memmove b' (t + k) t (length b - t); Some (0, ring c h (t + k)) }
             else Some (0, ring b' h t))"
      unfolding membuff_extend_by_def Let_def mb bytes_ring ring_sel s(1) bind.bind_lunit
        sz_def [symmetric] pos if_False n nat_int u ring_upd ..
    show ?thesis
    proof (cases "realloc b (length b + k)")
      case None
      then show ?thesis using wf by (simp add: ext E)
    next
      case (Some b')
      from extend_ring [OF lt k(1) re Some] obtain mb' where mb': "mb_wf mb'"
        "mb_contents mb' = mb_contents mb" "mb_end mb' = sz"
        and r: "(if h < t then do { c \<leftarrow> memmove b' (t + k) t (length b - t); Some (ring c h (t + k)) }
           else Some (ring b' h t)) = Some mb'" by (auto simp: mb k(2))
      have "membuff_extend_by realloc mb by0 max0 = Some (0, mb')"
        using r by (auto simp: ext Some bind_eq_Some_conv split: if_splits)
      moreover have "mb_end mb + by0 \<le> sz \<or> sz = max0" "mb_end mb < sz"
        using s(2) False by (auto simp: sz_def mb min_def split: if_splits)
      ultimately show ?thesis using mb' by simp
    qed
  qed
qed

theorem membuff_extend_by_correct_witness:
  "\<exists>r mb'. membuff_extend_by (\<lambda>b n. Some (take n b @ replicate (n - length b) 0))
      \<lparr>store = Some [2, 0, 1], head = 1, tail = 2\<rparr> 2 (- 1) = Some (r, mb') \<and> mb_wf mb'
    \<and> mb_contents mb' = [1, 2]
    \<and> (if r = 0 then 3 < mb_end mb' \<and> (3 + 2 \<le> mb_end mb' \<or> mb_end mb' = - 1)
       else mb' = \<lparr>store = Some [2, 0, 1], head = 1, tail = 2\<rparr> \<and> r \<in> {- E2BIG, - ENOMEM})"
proof -
  let ?mb = "\<lparr>store = Some [2, 0, 1 :: u8], head = 1, tail = 2\<rparr>"
  have "mb_wf ?mb" by code_simp
  moreover have c: "mb_contents ?mb = [1, 2]" "mb_end ?mb = 3" by code_simp+
  moreover have "realloc_keeps (\<lambda>b n. Some (take n b @ replicate (n - length b) 0))"
    by (simp add: realloc_keeps_def)
  ultimately show ?thesis
    using membuff_extend_by_correct [of ?mb "\<lambda>b n. Some (take n b @ replicate (n - length b) 0)" 2 "- 1",
      unfolded c] by simp
qed

end
