(* ===== verification/Hashtable.thy ===== *)
theory Hashtable
  imports C_String
begin

text \<open>
  The hash table of \<^verbatim>\<open>lib/hashtable.c\<close>, in which the environment lives: open addressing with
  double hashing in a table of prime size.  Slot 0 is not used; \<^verbatim>\<open>used\<close> is 0 for a slot that
  never held an entry, the first index of its key for a slot in use, and -1 for a deleted one.

  Texts are the bytes before the NUL.  \<^const>\<open>None\<close> is a null pointer in a slot, and as a result of
  an operation an access through one or outside the table.  The permission check, the callbacks of
  the variables and \<^verbatim>\<open>strdup\<close> are parameters.
\<close>

section \<open>Definitions\<close>

type_synonym ctext = "u8 list"

datatype env_op = env_op_create | env_op_delete | env_op_overwrite

datatype ACTION = FIND | ENTER

record ENTRY =
  used :: int
  key :: "ctext option"
  data :: "ctext option"

record hsearch_data =
  table :: "ENTRY list option"
  hsize :: nat
  filled :: nat

text \<open>\<open>change_ok\<close> and \<open>callback\<close> are true when they reject: the key, the present data, the new data,
  the operation and the flags.\<close>

record hooks =
  change_ok :: "ctext \<Rightarrow> ctext option \<Rightarrow> ctext option \<Rightarrow> env_op \<Rightarrow> int \<Rightarrow> bool"
  callback :: "ctext \<Rightarrow> ctext option \<Rightarrow> env_op \<Rightarrow> int \<Rightarrow> bool"
  strdup :: "ctext \<Rightarrow> ctext option"

datatype errno = EPERM | EINVAL | ENOMEM | ESRCH

definition empty_entry :: ENTRY where
  "empty_entry = \<lparr>used = 0, key = None, data = None\<rparr>"

text \<open>The loop of \<^verbatim>\<open>isprime\<close>.\<close>

function isprime_loop :: "nat \<Rightarrow> nat \<Rightarrow> nat" where
  "isprime_loop number div0 =
     (if div0 * div0 < number \<and> number mod div0 \<noteq> 0 then isprime_loop number (div0 + 2) else div0)"
  by pat_completeness auto
termination
proof (relation "measure (\<lambda>(n, d). n - d)")
  fix number div0 :: nat
  assume "div0 * div0 < number \<and> number mod div0 \<noteq> 0"
  then have "div0 < number" by (metis le_less_trans le_square)
  then show "((number, div0 + 2), (number, div0)) \<in> measure (\<lambda>(n, d). n - d)" by simp
qed simp

declare isprime_loop.simps [simp del]

definition isprime :: "nat \<Rightarrow> bool" where
  "isprime number \<longleftrightarrow> number mod isprime_loop number 3 \<noteq> 0"

text \<open>The search for the size, as long as it takes.  The numbers are far below the bounds of
  \<^verbatim>\<open>unsigned int\<close>: the callers ask for at most 512 entries.\<close>

partial_function (option) next_prime :: "nat \<Rightarrow> nat option" where
  "next_prime nel = (if isprime nel then Some nel else next_prime (nel + 2))"

declare next_prime.simps [code]

definition odd_nel :: "nat \<Rightarrow> nat" where
  "odd_nel nel = (if nel mod 2 = 0 then nel + 1 else nel)"

text \<open>\<open>calloc_ok\<close>: the allocation of the table succeeds.\<close>

definition hcreate_r :: "bool \<Rightarrow> nat \<Rightarrow> hsearch_data \<Rightarrow> (int \<times> hsearch_data) option" where
  "hcreate_r calloc_ok nel htab =
     (if table htab \<noteq> None then Some (0, htab)
      else do { sz \<leftarrow> next_prime (odd_nel nel);
                let h = htab\<lparr>hsize := sz, filled := 0\<rparr>;
                if calloc_ok then Some (1, h\<lparr>table := Some (replicate (sz + 1) empty_entry)\<rparr>)
                else Some (0, h) })"

definition hdestroy_r :: "hsearch_data \<Rightarrow> hsearch_data" where
  "hdestroy_r htab = htab\<lparr>table := None\<rparr>"

definition slot :: "hsearch_data \<Rightarrow> nat \<Rightarrow> ENTRY option" where
  "slot htab i = (case table htab of None \<Rightarrow> None | Some ts \<Rightarrow> if i < length ts then Some (ts ! i) else None)"

definition set_slot :: "hsearch_data \<Rightarrow> nat \<Rightarrow> ENTRY \<Rightarrow> hsearch_data" where
  "set_slot htab i e = htab\<lparr>table := map_option (\<lambda>ts. ts[i := e]) (table htab)\<rparr>"

text \<open>A result of a search: the return value, the error, the slot that \<^verbatim>\<open>*retval\<close> points to
  and the table.\<close>

type_synonym hres = "int \<times> errno option \<times> nat option \<times> hsearch_data"

text \<open>\<^const>\<open>None\<close> inside is the -1 of the code: keep searching.\<close>

definition compare_and_overwrite_entry :: "hooks \<Rightarrow> ctext \<Rightarrow> ctext option \<Rightarrow> ACTION \<Rightarrow> hsearch_data \<Rightarrow> int \<Rightarrow> nat \<Rightarrow> nat
    \<Rightarrow> hres option option" where
  "compare_and_overwrite_entry hk ikey idata action htab flag hval idx =
     do { e \<leftarrow> slot htab idx;
          if used e \<noteq> int hval then Some None
          else do { ekey \<leftarrow> key e;
            if ikey \<noteq> ekey then Some None
            else if action = ENTER \<and> idata \<noteq> None then
              (if change_ok hk ekey (data e) idata env_op_overwrite flag then Some (Some (0, Some EPERM, None, htab))
               else if callback hk ikey idata env_op_overwrite flag then Some (Some (0, Some EINVAL, None, htab))
               else (let new = Option.bind idata (strdup hk); htab' = set_slot htab idx (e\<lparr>data := new\<rparr>)
                     in if new = None then Some (Some (0, Some ENOMEM, None, htab'))
                        else Some (Some (int idx, None, Some idx, htab'))))
            else Some (Some (int idx, None, Some idx, htab)) } }"

text \<open>The value of a text: the last character is taken first.\<close>

definition hash_text :: "ctext \<Rightarrow> u32" where
  "hash_text k = fold (\<lambda>c hval. push_bit 4 hval + ucast c) (rev k) (of_nat (length k))"

definition first_index :: "nat \<Rightarrow> ctext \<Rightarrow> nat" where
  "first_index sz k = (let hval = unat (hash_text k) mod sz in if hval = 0 then hval + 1 else hval)"

definition second_hash :: "nat \<Rightarrow> nat \<Rightarrow> nat" where
  "second_hash sz hval = 1 + hval mod (sz - 2)"

definition probe :: "nat \<Rightarrow> nat \<Rightarrow> nat \<Rightarrow> nat" where
  "probe sz hval2 idx = (if idx \<le> hval2 then sz + idx - hval2 else idx - hval2)"

text \<open>The loop \<^verbatim>\<open>do ... while (htab->table[idx].used)\<close>.  \<open>Inl\<close> is a result, \<open>Inr\<close> the index at
  which the loop was left.  The number of rounds is bounded; running out of rounds is \<^const>\<open>None\<close>.\<close>

fun probe_loop :: "hooks \<Rightarrow> ctext \<Rightarrow> ctext option \<Rightarrow> ACTION \<Rightarrow> hsearch_data \<Rightarrow> int \<Rightarrow> nat \<Rightarrow> nat \<Rightarrow> nat \<Rightarrow> nat
    \<Rightarrow> (hres + nat) option" where
  "probe_loop hk ikey idata action htab flag hval hval2 0 idx = None"
| "probe_loop hk ikey idata action htab flag hval hval2 (Suc n) idx =
     (let idx' = probe (hsize htab) hval2 idx
      in if idx' = hval then Some (Inr idx')
         else do { r \<leftarrow> compare_and_overwrite_entry hk ikey idata action htab flag hval idx';
                   case r of Some res \<Rightarrow> Some (Inl res)
                   | None \<Rightarrow> do { e \<leftarrow> slot htab idx';
                                  if used e \<noteq> 0 then probe_loop hk ikey idata action htab flag hval hval2 n idx'
                                  else Some (Inr idx') } })"

definition hdelete_slot :: "hsearch_data \<Rightarrow> nat \<Rightarrow> hsearch_data" where
  "hdelete_slot htab idx =
     (set_slot htab idx \<lparr>used = - 1, key = None, data = None\<rparr>)\<lparr>filled := filled htab - 1\<rparr>"

text \<open>The part of \<^verbatim>\<open>hsearch_r\<close> that makes a new entry.\<close>

definition enter_new :: "hooks \<Rightarrow> ctext \<Rightarrow> ctext option \<Rightarrow> hsearch_data \<Rightarrow> int \<Rightarrow> nat \<Rightarrow> nat \<Rightarrow> hres" where
  "enter_new hk ikey idata htab flag hval idx =
     (let k = strdup hk ikey; d = Option.bind idata (strdup hk);
          h1 = set_slot htab idx \<lparr>used = int hval, key = k, data = d\<rparr>
      in if k = None \<or> d = None then (0, Some ENOMEM, None, h1)
         else (let h2 = h1\<lparr>filled := filled h1 + 1\<rparr>
               in if change_ok hk ikey d idata env_op_create flag then (0, Some EPERM, None, hdelete_slot h2 idx)
                  else if callback hk ikey idata env_op_create flag then (0, Some EINVAL, None, hdelete_slot h2 idx)
                  else (1, None, Some idx, h2)))"

definition hsearch_r :: "hooks \<Rightarrow> ctext \<Rightarrow> ctext option \<Rightarrow> ACTION \<Rightarrow> hsearch_data \<Rightarrow> int \<Rightarrow> hres option" where
  "hsearch_r hk ikey idata action htab flag =
     do { let hval = first_index (hsize htab) ikey;
          e \<leftarrow> slot htab hval;
          r \<leftarrow> (if used e \<noteq> 0 then
                  do { c \<leftarrow> compare_and_overwrite_entry hk ikey idata action htab flag hval hval;
                       case c of Some res \<Rightarrow> Some (Inl res)
                       | None \<Rightarrow> probe_loop hk ikey idata action htab flag hval
                                   (second_hash (hsize htab) hval) (hsize htab) hval }
                else Some (Inr hval));
          case r of Inl res \<Rightarrow> Some res
          | Inr idx \<Rightarrow>
              if action = ENTER then
                (if filled htab = hsize htab then Some (0, Some ENOMEM, None, htab)
                 else Some (enter_new hk ikey idata htab flag hval (if used e = - 1 then hval else idx)))
              else Some (0, Some ESRCH, None, htab) }"

definition hdelete_r :: "hooks \<Rightarrow> ctext \<Rightarrow> hsearch_data \<Rightarrow> int \<Rightarrow> (int \<times> errno option \<times> hsearch_data) option" where
  "hdelete_r hk k htab flag =
     do { (idx, _, ep, _) \<leftarrow> hsearch_r hk k None FIND htab 0;
          if idx = 0 then Some (0, Some ESRCH, htab)
          else do { i \<leftarrow> ep; e \<leftarrow> slot htab i;
                    if change_ok hk k (data e) None env_op_delete flag then Some (0, Some EPERM, htab)
                    else if callback hk k None env_op_delete flag then Some (0, Some EINVAL, htab)
                    else Some (1, None, hdelete_slot htab i) } }"

text \<open>\<open>n\<close> indices are left to look at.\<close>

fun hmatch_loop :: "ctext \<Rightarrow> hsearch_data \<Rightarrow> nat \<Rightarrow> nat \<Rightarrow> (nat \<times> nat option) option" where
  "hmatch_loop match htab 0 idx = Some (0, None)"
| "hmatch_loop match htab (Suc n) idx =
     do { e \<leftarrow> slot htab idx;
          if used e \<le> 0 then hmatch_loop match htab n (idx + 1)
          else do { k \<leftarrow> key e;
                    if take (length match) k = match then Some (idx, Some idx)
                    else hmatch_loop match htab n (idx + 1) } }"

definition hmatch_r :: "ctext \<Rightarrow> nat \<Rightarrow> hsearch_data \<Rightarrow> (nat \<times> nat option) option" where
  "hmatch_r match last_idx htab = hmatch_loop match htab (hsize htab - (last_idx + 1)) (last_idx + 1)"

text \<open>\<^verbatim>\<open>hwalk_r\<close>: the callback is a function of the entry.\<close>

fun hwalk_loop :: "(ENTRY \<Rightarrow> int) \<Rightarrow> hsearch_data \<Rightarrow> nat \<Rightarrow> nat \<Rightarrow> int option" where
  "hwalk_loop f htab 0 i = Some 0"
| "hwalk_loop f htab (Suc n) i =
     do { e \<leftarrow> slot htab i;
          if used e > 0 then (let retval = f e in if retval \<noteq> 0 then Some retval else hwalk_loop f htab n (i + 1))
          else hwalk_loop f htab n (i + 1) }"

definition hwalk_r :: "(ENTRY \<Rightarrow> int) \<Rightarrow> hsearch_data \<Rightarrow> int option" where
  "hwalk_r f htab = hwalk_loop f htab (hsize htab) 1"

section \<open>The size of a table\<close>

definition prime_size :: "nat \<Rightarrow> bool" where
  "prime_size p \<longleftrightarrow> 1 < p \<and> (\<forall>d\<in>{2..<p}. p mod d \<noteq> 0)"

lemma isprime_loop_inv:
  assumes "odd div0" and "\<forall>e. odd e \<and> 3 \<le> e \<and> e < div0 \<longrightarrow> n mod e \<noteq> 0"
    and "div0 = 3 \<or> (div0 - 2) * (div0 - 2) < n"
  shows "(n mod isprime_loop n div0 = 0 \<or> n \<le> isprime_loop n div0 * isprime_loop n div0)
         \<and> div0 \<le> isprime_loop n div0
         \<and> (isprime_loop n div0 = 3 \<or> (isprime_loop n div0 - 2) * (isprime_loop n div0 - 2) < n)
         \<and> (\<forall>e. odd e \<and> 3 \<le> e \<and> e < isprime_loop n div0 \<longrightarrow> n mod e \<noteq> 0)"
  using assms
proof (induction n div0 rule: isprime_loop.induct)
  case (1 n d)
  show ?case
  proof (cases "d * d < n \<and> n mod d \<noteq> 0")
    case True
    have o: "\<forall>e. odd e \<and> 3 \<le> e \<and> e < d + 2 \<longrightarrow> n mod e \<noteq> 0"
    proof (intro allI impI)
      fix e assume e: "odd e \<and> 3 \<le> e \<and> e < d + 2"
      then consider "e < d" | "e = d" | "e = d + 1" by linarith
      then show "n mod e \<noteq> 0" using e True "1.prems" by cases auto
    qed
    have q: "odd (d + 2)" "d + 2 = 3 \<or> (d + 2 - 2) * (d + 2 - 2) < n" using "1.prems"(1) True by simp_all
    have s: "isprime_loop n d = isprime_loop n (d + 2)" using True by (subst isprime_loop.simps) simp
    show ?thesis unfolding s using "1.IH" [OF True q(1) o q(2)] by auto
  next
    case False
    then have "isprime_loop n d = d" by (subst isprime_loop.simps) auto
    then show ?thesis using False "1.prems" by auto
  qed
qed

lemma small_divisor:
  assumes "n mod a = 0" "2 \<le> a" "a < (n::nat)"
  shows "\<exists>c. 2 \<le> c \<and> c * c \<le> n \<and> n mod c = 0"
proof -
  obtain b where b: "n = a * b" using assms(1) by (metis mod_0_imp_dvd dvdE)
  have b2: "2 \<le> b" using assms b by (cases b; cases "b - 1") auto
  show ?thesis
  proof (cases "a \<le> b")
    case True then show ?thesis using assms b by (intro exI [of _ a]) simp
  next
    case False then show ?thesis using b2 b by (intro exI [of _ b]) simp
  qed
qed

lemma isprime_iff:
  assumes "odd n" "3 < n"
  shows "isprime n \<longleftrightarrow> prime_size n"
proof -
  define r where "r = isprime_loop n 3"
  have r: "n mod r = 0 \<or> n \<le> r * r" "3 \<le> r" "r = 3 \<or> (r - 2) * (r - 2) < n"
    "\<And>e. odd e \<Longrightarrow> 3 \<le> e \<Longrightarrow> e < r \<Longrightarrow> n mod e \<noteq> 0"
    using isprime_loop_inv [of 3 n] unfolding r_def by auto
  have small: "r < n"
  proof (cases "r = 3")
    case False
    obtain q where q: "r = q + 3" using r(2) by (metis add.commute le_Suc_ex)
    have "(q + 1) * (q + 1) < n" "1 \<le> q" using r(3) False q by auto
    then show ?thesis using assms q False by (cases q; cases "q - 1") (auto simp: odd_iff_mod_2_eq_one)
  qed (use assms in simp)
  show ?thesis
  proof
    assume "isprime n"
    then have nr: "n mod r \<noteq> 0" by (simp add: isprime_def r_def)
    have "n mod d \<noteq> 0" if d: "2 \<le> d" "d < n" for d
    proof
      assume "n mod d = 0"
      from small_divisor [OF this d] obtain c where c: "2 \<le> c" "c * c \<le> n" "n mod c = 0" by auto
      have "odd c" using c(3) assms(1) by (metis dvd_trans mod_eq_0_iff_dvd)
      then have "3 \<le> c" using c(1) by (cases "c = 2") auto
      have "c \<le> r"
      proof (rule ccontr)
        assume "\<not> c \<le> r"
        then have "r * r < c * c" by (simp add: mult_strict_mono')
        then show False using c(2) r(1) nr by simp
      qed
      moreover have "c \<noteq> r" using c(3) nr by auto
      ultimately show False using r(4) [OF \<open>odd c\<close> \<open>3 \<le> c\<close>] c(3) by simp
    qed
    then show "prime_size n" using assms by (simp add: prime_size_def)
  next
    assume "prime_size n"
    then show "isprime n" using r(2) small by (simp add: isprime_def r_def prime_size_def)
  qed
qed

lemma next_prime_run:
  assumes "prime_size (nel + 2 * m)" "odd nel" "3 < nel"
  shows "\<exists>p. next_prime nel = Some p \<and> prime_size p \<and> nel \<le> p \<and> odd p \<and> p \<le> nel + 2 * m"
  using assms
proof (induction m arbitrary: nel)
  case 0
  then have "isprime nel" using isprime_iff by simp
  then show ?case using 0 by (subst next_prime.simps) simp
next
  case (Suc m)
  show ?case
  proof (cases "isprime nel")
    case True
    then show ?thesis using Suc.prems isprime_iff by (subst next_prime.simps) simp
  next
    case False
    have "prime_size ((nel + 2) + 2 * m)" using Suc.prems(1) by (simp add: algebra_simps)
    from Suc.IH [OF this] Suc.prems obtain p where
      "next_prime (nel + 2) = Some p" "prime_size p" "nel + 2 \<le> p" "odd p" "p \<le> nel + 2 + 2 * m" by auto
    then show ?thesis using False by (subst next_prime.simps) auto
  qed
qed

lemma prime_above: "\<exists>p > n. prime_size p"
proof -
  define P where "P d \<longleftrightarrow> 2 \<le> d \<and> (fact n + 1) mod d = 0" for d :: nat
  define p where "p = (LEAST d. P d)"
  have "P (fact n + 1)" using fact_ge_1 [of n, where 'a = nat] by (simp add: P_def)
  then have p: "P p" unfolding p_def by (rule LeastI)
  have "prime_size p"
  proof -
    have "p mod d \<noteq> 0" if d: "2 \<le> d" "d < p" for d
    proof
      assume "p mod d = 0"
      then have "d dvd fact n + 1" using p by (metis P_def dvd_trans mod_0_imp_dvd)
      then have "P d" using d by (simp add: P_def)
      then show False using d(2) not_less_Least p_def by blast
    qed
    then show ?thesis using p by (simp add: prime_size_def P_def)
  qed
  moreover have "n < p"
  proof (rule ccontr)
    assume "\<not> n < p"
    then have "p dvd fact n" using p by (intro dvd_fact) (auto simp: P_def)
    moreover have "p dvd fact n + 1" using p by (simp add: P_def mod_0_imp_dvd)
    ultimately have "p dvd 1" by (metis dvd_add_right_iff)
    then show False using p by (simp add: P_def)
  qed
  ultimately show ?thesis by blast
qed

lemma next_prime_total:
  assumes "odd nel" "3 < nel"
  shows "\<exists>p. next_prime nel = Some p \<and> prime_size p \<and> nel \<le> p \<and> odd p"
proof -
  obtain q where q: "nel < q" "prime_size q" using prime_above by blast
  have "odd q"
  proof
    assume "even q"
    then have "q mod 2 = 0" by simp
    moreover have "2 \<in> {2..<q}" using q assms by simp
    ultimately show False using q(2) unfolding prime_size_def by fastforce
  qed
  then have "even (q - nel)" using assms q by simp
  then obtain m where "q = nel + 2 * m" using q by (metis add_diff_inverse_nat dvdE less_imp_le not_less)
  from next_prime_run [of nel m] q this assms show ?thesis by blast
qed


section \<open>The order of the probes\<close>

text \<open>The slot of the \<open>j\<close>th probe.\<close>

definition nth_probe :: "nat \<Rightarrow> nat \<Rightarrow> nat \<Rightarrow> nat \<Rightarrow> nat" where
  "nth_probe sz hval hval2 j = nat ((int hval - 1 - int j * int hval2) mod int sz) + 1"

definition probes :: "nat \<Rightarrow> nat \<Rightarrow> nat list" where
  "probes sz hval = map (nth_probe sz hval (second_hash sz hval)) [0..<sz]"

lemma nth_probe_0: "1 \<le> hval \<Longrightarrow> hval \<le> sz \<Longrightarrow> nth_probe sz hval s 0 = hval"
  by (simp add: nth_probe_def)

lemma probe_int:
  assumes "1 \<le> x" "x \<le> sz" "1 \<le> s" "s < sz"
  shows "int (probe sz s x) = (int x - 1 - int s) mod int sz + 1"
proof (cases "x \<le> s")
  case True
  have "(int x - 1 - int s) mod int sz = (int x - 1 - int s + int sz) mod int sz" by simp
  also have "\<dots> = int x - 1 - int s + int sz" using True assms by (intro mod_pos_pos_trivial) auto
  finally show ?thesis using True assms by (simp add: probe_def)
next
  case False
  then have "(int x - 1 - int s) mod int sz = int x - 1 - int s" using assms by (intro mod_pos_pos_trivial) auto
  then show ?thesis using False by (simp add: probe_def)
qed

lemma nth_probe_int: "0 < sz \<Longrightarrow> int (nth_probe sz h s j) = (int h - 1 - int j * int s) mod int sz + 1"
  by (simp add: nth_probe_def)

lemma nth_probe_range: "0 < sz \<Longrightarrow> 1 \<le> nth_probe sz h s j \<and> nth_probe sz h s j \<le> sz"
proof -
  assume "0 < sz"
  then have "(int h - 1 - int j * int s) mod int sz < int sz" "0 \<le> (int h - 1 - int j * int s) mod int sz" by simp_all
  then show ?thesis unfolding nth_probe_def by linarith
qed

lemma probe_nth:
  assumes "1 \<le> s" "s < sz"
  shows "probe sz s (nth_probe sz h s j) = nth_probe sz h s (Suc j)"
proof -
  have z: "0 < sz" using assms by simp
  have "int (probe sz s (nth_probe sz h s j)) = (int (nth_probe sz h s j) - 1 - int s) mod int sz + 1"
    using probe_int nth_probe_range [OF z] assms by blast
  also have "\<dots> = ((int h - 1 - int j * int s) mod int sz - int s) mod int sz + 1"
    by (simp add: nth_probe_int [OF z])
  also have "\<dots> = (int h - 1 - int (Suc j) * int s) mod int sz + 1"
    by (simp add: mod_diff_left_eq algebra_simps)
  also have "\<dots> = int (nth_probe sz h s (Suc j))" by (simp only: nth_probe_int [OF z])
  finally show ?thesis by simp
qed

lemma coprime_prime_size:
  assumes "prime_size p" "0 < s" "s < p" shows "coprime (int s) (int p)"
proof -
  have "gcd s p = 1"
  proof (rule ccontr)
    assume g: "gcd s p \<noteq> 1"
    have "gcd s p \<noteq> 0" using assms by simp
    then have "2 \<le> gcd s p" using g by linarith
    moreover have "gcd s p < p" using assms by (meson dvd_imp_le gcd_dvd1 le_less_trans)
    moreover have "p mod gcd s p = 0" by simp
    ultimately show False using assms(1) unfolding prime_size_def by (metis atLeastLessThan_iff)
  qed
  then have "coprime s p" by (simp add: coprime_iff_gcd_eq_1)
  then show ?thesis by simp
qed

lemma nth_probe_eq_iff:
  assumes "prime_size sz" "0 < s" "s < sz"
  shows "nth_probe sz h s i = nth_probe sz h s j \<longleftrightarrow> i mod sz = j mod sz"
proof -
  have z: "0 < sz" using assms by simp
  have "nth_probe sz h s i = nth_probe sz h s j \<longleftrightarrow> int (nth_probe sz h s i) = int (nth_probe sz h s j)" by simp
  also have "\<dots> \<longleftrightarrow> (int h - 1 - int i * int s) mod int sz = (int h - 1 - int j * int s) mod int sz"
    by (simp add: nth_probe_int [OF z])
  also have "\<dots> \<longleftrightarrow> int sz dvd (int h - 1 - int i * int s) - (int h - 1 - int j * int s)" by (rule mod_eq_dvd_iff)
  also have "(int h - 1 - int i * int s) - (int h - 1 - int j * int s) = (int j - int i) * int s"
    by (simp add: algebra_simps)
  also have "int sz dvd (int j - int i) * int s \<longleftrightarrow> int sz dvd int j - int i"
    using coprime_prime_size [OF assms] by (simp add: coprime_dvd_mult_left_iff coprime_commute)
  also have "\<dots> \<longleftrightarrow> int j mod int sz = int i mod int sz" by (rule mod_eq_dvd_iff [symmetric])
  also have "\<dots> \<longleftrightarrow> i mod sz = j mod sz" by (metis of_nat_eq_iff of_nat_mod)
  finally show ?thesis .
qed

lemma second_hash_range: "3 < sz \<Longrightarrow> 1 \<le> second_hash sz h \<and> second_hash sz h < sz"
proof -
  assume "3 < sz"
  then have "h mod (sz - 2) < sz - 2" by simp
  then show ?thesis unfolding second_hash_def by linarith
qed

lemma first_index_range: "1 < sz \<Longrightarrow> 1 \<le> first_index sz k \<and> first_index sz k \<le> sz"
proof -
  assume "1 < sz"
  moreover have "unat (hash_text k) mod sz < sz" using calculation by simp
  ultimately show ?thesis unfolding first_index_def Let_def by (auto simp del: mod_less_divisor)
qed

lemma distinct_probes: "prime_size sz \<Longrightarrow> 3 < sz \<Longrightarrow> distinct (probes sz h)"
  using second_hash_range [of sz h]
  by (auto simp: probes_def distinct_map inj_on_def nth_probe_eq_iff)

lemma set_probes:
  assumes "prime_size sz" "3 < sz" shows "set (probes sz h) = {1..sz}"
proof (rule card_subset_eq)
  show "set (probes sz h) \<subseteq> {1..sz}" using nth_probe_range [of sz] assms by (auto simp: probes_def)
  show "card (set (probes sz h)) = card {1..sz}"
    using distinct_card [OF distinct_probes [OF assms]] by (simp add: probes_def)
qed simp

section \<open>The loop is a scan of the probes\<close>

fun scan :: "hooks \<Rightarrow> ctext \<Rightarrow> ctext option \<Rightarrow> ACTION \<Rightarrow> hsearch_data \<Rightarrow> int \<Rightarrow> nat \<Rightarrow> nat list \<Rightarrow> (hres + nat) option" where
  "scan hk k d act htab flag hval [] = Some (Inr hval)"
| "scan hk k d act htab flag hval (i # is) =
     do { r \<leftarrow> compare_and_overwrite_entry hk k d act htab flag hval i;
          case r of Some res \<Rightarrow> Some (Inl res)
          | None \<Rightarrow> do { e \<leftarrow> slot htab i;
                         if used e \<noteq> 0 then scan hk k d act htab flag hval is else Some (Inr i) } }"

lemma probe_loop_scan:
  assumes p: "prime_size (hsize htab)" "3 < hsize htab" and h: "1 \<le> hval" "hval \<le> hsize htab"
    and s: "s = second_hash (hsize htab) hval" and "j < hsize htab" "hsize htab - j \<le> n"
  shows "probe_loop hk k d act htab flag hval s n (nth_probe (hsize htab) hval s j)
       = scan hk k d act htab flag hval (map (nth_probe (hsize htab) hval s) [Suc j..<hsize htab])"
  using assms(6,7)
proof (induction n arbitrary: j)
  case (Suc n)
  have sr: "1 \<le> s" "s < hsize htab" using second_hash_range [OF p(2)] s by simp_all
  have st: "probe (hsize htab) s (nth_probe (hsize htab) hval s j) = nth_probe (hsize htab) hval s (Suc j)"
    by (rule probe_nth [OF sr])
  have at: "nth_probe (hsize htab) hval s (Suc j) = hval \<longleftrightarrow> Suc j = hsize htab"
  proof -
    have "nth_probe (hsize htab) hval s (Suc j) = hval
      \<longleftrightarrow> nth_probe (hsize htab) hval s (Suc j) = nth_probe (hsize htab) hval s 0"
      using nth_probe_0 [OF h] by simp
    also have "\<dots> \<longleftrightarrow> Suc j mod hsize htab = 0 mod hsize htab" using nth_probe_eq_iff [OF p(1)] sr by simp
    also have "\<dots> \<longleftrightarrow> Suc j = hsize htab" using Suc.prems by (cases "Suc j = hsize htab") auto
    finally show ?thesis .
  qed
  show ?case
  proof (cases "Suc j = hsize htab")
    case True then show ?thesis using st at by (simp add: Let_def)
  next
    case False
    then have l: "Suc j < hsize htab" "hsize htab - Suc j \<le> n" using Suc.prems by simp_all
    have "[Suc j..<hsize htab] = Suc j # [Suc (Suc j)..<hsize htab]" using l by (simp add: upt_conv_Cons)
    then show ?thesis using st at False Suc.IH [OF l] by (simp add: Let_def cong: if_cong)
  qed
qed simp


section \<open>The invariant and the contents of a table\<close>

text \<open>Every slot that a search for \<open>k\<close> passes before slot \<open>i\<close> holds or once held an entry.\<close>

definition reachable :: "ENTRY list \<Rightarrow> nat \<Rightarrow> ctext \<Rightarrow> nat \<Rightarrow> bool" where
  "reachable ts sz k i \<longleftrightarrow>
     (\<exists>pre post. probes sz (first_index sz k) = pre @ i # post \<and> (\<forall>x\<in>set pre. used (ts ! x) \<noteq> 0))"

definition live :: "ENTRY list \<Rightarrow> nat \<Rightarrow> bool" where
  "live ts i \<longleftrightarrow> i < length ts \<and> 0 < used (ts ! i)"

definition slots_ok :: "ENTRY list \<Rightarrow> nat \<Rightarrow> bool" where
  "slots_ok ts sz \<longleftrightarrow> length ts = sz + 1 \<and> prime_size sz \<and> 3 < sz \<and> used (ts ! 0) = 0
     \<and> (\<forall>i. live ts i \<longrightarrow> (\<exists>k d. key (ts ! i) = Some k \<and> data (ts ! i) = Some d
            \<and> used (ts ! i) = int (first_index sz k) \<and> reachable ts sz k i))
     \<and> (\<forall>i j. live ts i \<longrightarrow> live ts j \<longrightarrow> key (ts ! i) = key (ts ! j) \<longrightarrow> i = j)"

definition count_used :: "ENTRY list \<Rightarrow> nat" where
  "count_used ts = length (filter (\<lambda>e. 0 < used e) ts)"

definition htab_ok :: "hsearch_data \<Rightarrow> bool" where
  "htab_ok htab \<longleftrightarrow> (\<exists>ts. table htab = Some ts \<and> slots_ok ts (hsize htab) \<and> filled htab = count_used ts)"

definition entry_has :: "ctext \<Rightarrow> ENTRY \<Rightarrow> bool" where
  "entry_has k e \<longleftrightarrow> 0 < used e \<and> key e = Some k"

text \<open>The variables of a table.\<close>

definition htab_map :: "hsearch_data \<Rightarrow> ctext \<Rightarrow> ctext option" where
  "htab_map htab k = (case table htab of None \<Rightarrow> None
     | Some ts \<Rightarrow> (case find (entry_has k) ts of None \<Rightarrow> None | Some e \<Rightarrow> data e))"

text \<open>The slots that never held an entry, slot 0 left out.\<close>

definition never_used :: "hsearch_data \<Rightarrow> nat" where
  "never_used htab = (case table htab of None \<Rightarrow> 0 | Some ts \<Rightarrow> length (filter (\<lambda>e. used e = 0) (tl ts)))"

lemma slots_okD:
  assumes "slots_ok ts sz"
  shows "length ts = sz + 1" "prime_size sz" "3 < sz" "used (ts ! 0) = 0"
    "\<And>i. live ts i \<Longrightarrow> \<exists>k d. key (ts ! i) = Some k \<and> data (ts ! i) = Some d
            \<and> used (ts ! i) = int (first_index sz k) \<and> reachable ts sz k i"
    "\<And>i j. live ts i \<Longrightarrow> live ts j \<Longrightarrow> key (ts ! i) = key (ts ! j) \<Longrightarrow> i = j"
  using assms unfolding slots_ok_def by blast+

lemma live_pos: "slots_ok ts sz \<Longrightarrow> live ts i \<Longrightarrow> 1 \<le> i \<and> i \<le> sz"
  using slots_okD(1,4) [of ts sz] by (cases i) (auto simp: live_def)

lemma find_live:
  assumes "slots_ok ts sz" "live ts i" "key (ts ! i) = Some k"
  shows "find (entry_has k) ts = Some (ts ! i)"
proof -
  have "find (entry_has k) ts \<noteq> None"
    using assms(2,3) by (auto simp: find_None_iff live_def entry_has_def in_set_conv_nth)
  then obtain e where e: "find (entry_has k) ts = Some e" by auto
  then obtain j where j: "j < length ts" "entry_has k (ts ! j)" "e = ts ! j"
    by (auto simp: find_Some_iff)
  then have "j = i" using slots_okD(6) [OF assms(1), of j i] assms(2,3) by (auto simp: live_def entry_has_def)
  then show ?thesis using e j by simp
qed

lemma find_no_live:
  assumes "\<And>i. live ts i \<Longrightarrow> key (ts ! i) \<noteq> Some k"
  shows "find (entry_has k) ts = None"
  using assms by (auto simp: find_None_iff live_def entry_has_def in_set_conv_nth)

lemma map_Some_iff:
  assumes "slots_ok ts (hsize htab)" "table htab = Some ts"
  shows "htab_map htab k = Some d \<longleftrightarrow> (\<exists>i. live ts i \<and> key (ts ! i) = Some k \<and> data (ts ! i) = Some d)"
proof
  assume m: "htab_map htab k = Some d"
  then obtain e where e: "find (entry_has k) ts = Some e" "data e = Some d"
    using assms(2) by (auto simp: htab_map_def split: option.splits)
  then obtain j where "j < length ts" "entry_has k (ts ! j)" "e = ts ! j" by (auto simp: find_Some_iff)
  then show "\<exists>i. live ts i \<and> key (ts ! i) = Some k \<and> data (ts ! i) = Some d"
    using e by (auto simp: live_def entry_has_def)
next
  assume "\<exists>i. live ts i \<and> key (ts ! i) = Some k \<and> data (ts ! i) = Some d"
  then obtain i where "live ts i" "key (ts ! i) = Some k" "data (ts ! i) = Some d" by blast
  then show "htab_map htab k = Some d" using find_live [OF assms(1), of i k] assms(2) by (simp add: htab_map_def)
qed

lemma map_None_iff:
  assumes "slots_ok ts (hsize htab)" "table htab = Some ts"
  shows "htab_map htab k = None \<longleftrightarrow> (\<forall>i. live ts i \<longrightarrow> key (ts ! i) \<noteq> Some k)"
proof
  assume n: "htab_map htab k = None"
  show "\<forall>i. live ts i \<longrightarrow> key (ts ! i) \<noteq> Some k"
  proof (intro allI impI notI)
    fix i assume i: "live ts i" "key (ts ! i) = Some k"
    from slots_okD(5) [OF assms(1) i(1)] obtain d where "data (ts ! i) = Some d" by blast
    then show False using find_live [OF assms(1) i] assms(2) n by (simp add: htab_map_def)
  qed
next
  assume "\<forall>i. live ts i \<longrightarrow> key (ts ! i) \<noteq> Some k"
  then show "htab_map htab k = None" using find_no_live [of ts k] assms(2) by (simp add: htab_map_def)
qed

section \<open>A search is a scan\<close>

definition finish :: "hooks \<Rightarrow> ctext \<Rightarrow> ctext option \<Rightarrow> ACTION \<Rightarrow> hsearch_data \<Rightarrow> int \<Rightarrow> ENTRY \<Rightarrow> hres + nat \<Rightarrow> hres option" where
  "finish hk ikey idata action htab flag e r =
     (case r of Inl res \<Rightarrow> Some res
          | Inr idx \<Rightarrow>
              if action = ENTER then
                (if filled htab = hsize htab then Some (0, Some ENOMEM, None, htab)
                 else Some (enter_new hk ikey idata htab flag (first_index (hsize htab) ikey)
                              (if used e = - 1 then first_index (hsize htab) ikey else idx)))
              else Some (0, Some ESRCH, None, htab))"

lemma probes_Cons:
  assumes "1 \<le> h" "h \<le> sz"
  shows "probes sz h = h # map (nth_probe sz h (second_hash sz h)) [Suc 0..<sz]"
proof -
  have "[0..<sz] = 0 # [Suc 0..<sz]" using assms by (simp add: upt_conv_Cons)
  then show ?thesis using nth_probe_0 [OF assms] by (simp add: probes_def)
qed

lemma hsearch_scan:
  assumes sz: "prime_size (hsize htab)" "3 < hsize htab" "length ts = hsize htab + 1" and ts: "table htab = Some ts"
    and h_def: "h = first_index (hsize htab) k"
  shows "hsearch_r hk k d act htab flag
       = Option.bind (scan hk k d act htab flag h (probes (hsize htab) h)) (finish hk k d act htab flag (ts ! h))"
proof -
  have h: "1 \<le> h" "h \<le> hsize htab" using first_index_range [of "hsize htab" k] sz by (simp_all add: h_def)
  have e: "slot htab h = Some (ts ! h)" using ts sz(3) h by (simp add: slot_def)
  have lp: "probe_loop hk k d act htab flag h (second_hash (hsize htab) h) (hsize htab) h
      = scan hk k d act htab flag h (map (nth_probe (hsize htab) h (second_hash (hsize htab) h)) [Suc 0..<hsize htab])"
    using probe_loop_scan [OF sz(1,2) h refl, of 0 "hsize htab" hk k d act flag] sz nth_probe_0 [OF h] by simp
  have z: "compare_and_overwrite_entry hk k d act htab flag h h = Some None" if "used (ts ! h) = 0"
    using e h that by (simp add: compare_and_overwrite_entry_def)
  show ?thesis
    unfolding hsearch_r_def Let_def h_def [symmetric] finish_def probes_Cons [OF h] scan.simps e lp
    using z by (cases "used (ts ! h) = 0") (simp_all add: e cong: if_cong)
qed

text \<open>What becomes of the slot of the key.\<close>

definition hit :: "hooks \<Rightarrow> ctext \<Rightarrow> ctext option \<Rightarrow> ACTION \<Rightarrow> hsearch_data \<Rightarrow> int \<Rightarrow> nat \<Rightarrow> ENTRY \<Rightarrow> hres" where
  "hit hk k d act htab flag i e =
     (if act = ENTER \<and> d \<noteq> None then
        (if change_ok hk k (data e) d env_op_overwrite flag then (0, Some EPERM, None, htab)
         else if callback hk k d env_op_overwrite flag then (0, Some EINVAL, None, htab)
         else (let new = Option.bind d (strdup hk); htab' = set_slot htab i (e\<lparr>data := new\<rparr>)
               in if new = None then (0, Some ENOMEM, None, htab') else (int i, None, Some i, htab')))
      else (int i, None, Some i, htab))"

lemma compare_hit:
  assumes "slot htab i = Some e" "used e = int h" "key e = Some k"
  shows "compare_and_overwrite_entry hk k d act htab flag h i = Some (Some (hit hk k d act htab flag i e))"
  using assms by (simp add: compare_and_overwrite_entry_def hit_def Let_def)

lemma compare_miss:
  assumes "slot htab i = Some e" "used e = int h \<Longrightarrow> \<exists>k'. key e = Some k' \<and> k' \<noteq> k"
  shows "compare_and_overwrite_entry hk k d act htab flag h i = Some None"
proof (cases "used e = int h")
  case True
  then obtain k' where "key e = Some k'" "k' \<noteq> k" using assms(2) by blast
  then show ?thesis using assms(1) True by (simp add: compare_and_overwrite_entry_def)
qed (use assms in \<open>simp add: compare_and_overwrite_entry_def\<close>)

lemma compare_skip:
  assumes "slots_ok ts (hsize htab)" "table htab = Some ts" "i < length ts"
    and "live ts i \<Longrightarrow> key (ts ! i) \<noteq> Some k" "0 < h"
  shows "compare_and_overwrite_entry hk k d act htab flag h i = Some None"
proof (rule compare_miss)
  show "slot htab i = Some (ts ! i)" using assms by (simp add: slot_def)
  assume "used (ts ! i) = int h"
  then have l: "live ts i" using assms by (simp add: live_def)
  from slots_okD(5) [OF assms(1) l] obtain k' where "key (ts ! i) = Some k'" by blast
  then show "\<exists>k'. key (ts ! i) = Some k' \<and> k' \<noteq> k" using assms(4) l by auto
qed

lemma scan_skip:
  assumes "slots_ok ts (hsize htab)" "table htab = Some ts" "0 < h"
    and "\<forall>x\<in>set pre. x < length ts \<and> used (ts ! x) \<noteq> 0 \<and> (live ts x \<longrightarrow> key (ts ! x) \<noteq> Some k)"
  shows "scan hk k d act htab flag h (pre @ xs) = scan hk k d act htab flag h xs"
  using assms(4)
proof (induction pre)
  case (Cons x pre)
  have "compare_and_overwrite_entry hk k d act htab flag h x = Some None"
    using Cons.prems by (intro compare_skip [OF assms(1,2)]) (use assms(3) in auto)
  then show ?case using Cons assms(2) by (simp add: slot_def)
qed simp

text \<open>A scan for a key that is in the table ends at its slot.\<close>

lemma scan_present:
  assumes ok: "slots_ok ts (hsize htab)" "table htab = Some ts" and i: "live ts i" "key (ts ! i) = Some k"
    and h: "h = first_index (hsize htab) k"
  shows "scan hk k d act htab flag h (probes (hsize htab) h) = Some (Inl (hit hk k d act htab flag i (ts ! i)))"
proof -
  have sz: "prime_size (hsize htab)" "3 < hsize htab" "length ts = hsize htab + 1" using slots_okD [OF ok(1)] by simp_all
  have hp: "0 < h" using first_index_range [of "hsize htab" k] sz h by simp
  have "reachable ts (hsize htab) k i" "used (ts ! i) = int h" using slots_okD(5) [OF ok(1) i(1)] i(2) h by auto
  then obtain pre post where pp: "probes (hsize htab) h = pre @ i # post" "\<forall>x\<in>set pre. used (ts ! x) \<noteq> 0"
    by (auto simp: reachable_def h)
  have ni: "i \<notin> set pre" using distinct_probes [OF sz(1,2), of h] pp(1) by auto
  have "\<forall>x\<in>set pre. x < length ts \<and> used (ts ! x) \<noteq> 0 \<and> (live ts x \<longrightarrow> key (ts ! x) \<noteq> Some k)"
  proof (intro ballI conjI impI)
    fix x assume x: "x \<in> set pre"
    then have "x \<in> set (probes (hsize htab) h)" using pp by simp
    then show "x < length ts" using set_probes [OF sz(1,2)] sz(3) by auto
    show "used (ts ! x) \<noteq> 0" using pp x by simp
    show "key (ts ! x) \<noteq> Some k" if "live ts x"
      using slots_okD(6) [OF ok(1) that i(1)] i(2) x ni by auto
  qed
  from scan_skip [OF ok hp this, of hk d act flag "i # post"] pp
  have "scan hk k d act htab flag h (probes (hsize htab) h) = scan hk k d act htab flag h (i # post)" by simp
  moreover have "compare_and_overwrite_entry hk k d act htab flag h i = Some (Some (hit hk k d act htab flag i (ts ! i)))"
    using i ok(2) \<open>used (ts ! i) = int h\<close> by (intro compare_hit) (simp_all add: slot_def live_def)
  ultimately show ?thesis by simp
qed

text \<open>A scan for a key that is not in the table ends at the first slot that was never used, and
  without such a slot at the first index.\<close>

lemma scan_absent:
  assumes ok: "slots_ok ts (hsize htab)" "table htab = Some ts" "0 < h"
    and k: "\<And>x. live ts x \<Longrightarrow> key (ts ! x) \<noteq> Some k" and xs: "\<forall>x\<in>set xs. x < length ts"
  shows "scan hk k d act htab flag h xs
       = Some (Inr (case dropWhile (\<lambda>x. used (ts ! x) \<noteq> 0) xs of [] \<Rightarrow> h | i # _ \<Rightarrow> i))"
  using xs
proof (induction xs)
  case (Cons x xs)
  have "compare_and_overwrite_entry hk k d act htab flag h x = Some None"
    using Cons.prems k by (intro compare_skip [OF ok(1,2)]) (use ok(3) in auto)
  then show ?case using Cons ok(2) by (simp add: slot_def)
qed simp


section \<open>The effect of a change of one slot\<close>

lemma filter_update_length:
  assumes "i < length xs"
  shows "length (filter P (xs[i := x])) + (if P (xs ! i) then 1 else 0) = length (filter P xs) + (if P x then 1 else 0)"
proof -
  have u: "xs[i := x] = take i xs @ x # drop (Suc i) xs" using assms by (simp add: upd_conv_take_nth_drop)
  have o: "filter P xs = filter P (take i xs @ xs ! i # drop (Suc i) xs)" using assms by (simp add: id_take_nth_drop [symmetric])
  show ?thesis unfolding u by (subst o) simp
qed

lemma live_update: "i < length ts \<Longrightarrow> live (ts[i := e]) j \<longleftrightarrow> (if j = i then 0 < used e else live ts j)"
  by (auto simp: live_def)

lemma reachable_update:
  assumes "reachable ts sz k j" "used e \<noteq> 0" "set (probes sz (first_index sz k)) \<subseteq> {..<length ts}"
  shows "reachable (ts[i := e]) sz k j"
proof -
  from assms(1) obtain pre post where p: "probes sz (first_index sz k) = pre @ j # post" "\<forall>x\<in>set pre. used (ts ! x) \<noteq> 0"
    by (auto simp: reachable_def)
  have "used (ts[i := e] ! x) \<noteq> 0" if x: "x \<in> set pre" for x
  proof -
    have "x < length ts" using x p(1) assms(3) by auto
    then show ?thesis using x p(2) assms(2) by (cases "x = i") simp_all
  qed
  then show ?thesis using p(1) unfolding reachable_def by blast
qed

lemma probes_bounds:
  assumes "slots_ok ts sz" shows "set (probes sz h) \<subseteq> {..<length ts}"
  using set_probes [OF slots_okD(2,3) [OF assms]] slots_okD(1) [OF assms] by auto

lemma reachable_same:
  assumes "slots_ok ts sz" "reachable ts sz k j" "used e \<noteq> 0"
  shows "reachable (ts[i := e]) sz k j"
  using assms(2,3) probes_bounds [OF assms(1)] by (intro reachable_update) auto

lemma slots_ok_update:
  assumes ok: "slots_ok ts sz" and i: "1 \<le> i" "i \<le> sz" and e: "used e \<noteq> 0"
    and live: "0 < used e \<Longrightarrow> key e = Some k \<and> (\<exists>d. data e = Some d) \<and> used e = int (first_index sz k)
        \<and> reachable ts sz k i \<and> (\<forall>j. live ts j \<longrightarrow> key (ts ! j) = Some k \<longrightarrow> j = i)"
  shows "slots_ok (ts[i := e]) sz"
proof -
  have il: "i < length ts" using i slots_okD(1) [OF ok] by simp
  note lv = live_update [OF il, of e]
  have a: "\<exists>k d. key (ts[i := e] ! j) = Some k \<and> data (ts[i := e] ! j) = Some d
      \<and> used (ts[i := e] ! j) = int (first_index sz k) \<and> reachable (ts[i := e]) sz k j" if j: "live (ts[i := e]) j" for j
  proof (cases "j = i")
    case True
    then have "0 < used e" using j lv [of j] by simp
    from live [OF this] obtain d where "key e = Some k" "data e = Some d" "used e = int (first_index sz k)"
      "reachable ts sz k i" by blast
    then show ?thesis using True il reachable_same [OF ok _ e, of k i i] by simp
  next
    case False
    then have "live ts j" using j lv [of j] by simp
    from slots_okD(5) [OF ok this] obtain k' d where "key (ts ! j) = Some k'" "data (ts ! j) = Some d"
      "used (ts ! j) = int (first_index sz k')" "reachable ts sz k' j" by blast
    then show ?thesis using False reachable_same [OF ok _ e, of k' j i] by simp
  qed
  have c: "y = i" if y: "live (ts[i := e]) y" "key (ts[i := e] ! y) = key e" "0 < used e" for y
  proof (rule ccontr)
    assume n: "y \<noteq> i"
    then have "live ts y" "key (ts ! y) = Some k" using y lv [of y] live [OF y(3)] by simp_all
    then show False using live [OF y(3)] n by blast
  qed
  have b: "x = y" if x: "live (ts[i := e]) x" "live (ts[i := e]) y" "key (ts[i := e] ! x) = key (ts[i := e] ! y)" for x y
  proof -
    consider "x = i" | "x \<noteq> i" "y = i" | "x \<noteq> i" "y \<noteq> i" by blast
    then show ?thesis
    proof cases
      case 1
      then have "0 < used e" "key (ts[i := e] ! y) = key e" using x(1,3) lv [of x] il by simp_all
      then show ?thesis using c [OF x(2)] 1 by simp
    next
      case 2
      then have "0 < used e" "key (ts[i := e] ! x) = key e" using x(2,3) lv [of y] il by simp_all
      then show ?thesis using c [OF x(1)] 2 by simp
    next
      case 3
      then have "live ts x" "live ts y" "key (ts ! x) = key (ts ! y)" using x lv [of x] lv [of y] by simp_all
      then show ?thesis by (rule slots_okD(6) [OF ok])
    qed
  qed
  show ?thesis
    unfolding slots_ok_def
  proof (intro conjI)
    show "\<forall>j. live (ts[i := e]) j \<longrightarrow> (\<exists>k d. key (ts[i := e] ! j) = Some k \<and> data (ts[i := e] ! j) = Some d
        \<and> used (ts[i := e] ! j) = int (first_index sz k) \<and> reachable (ts[i := e]) sz k j)" using a by blast
    show "\<forall>x y. live (ts[i := e]) x \<longrightarrow> live (ts[i := e]) y \<longrightarrow> key (ts[i := e] ! x) = key (ts[i := e] ! y) \<longrightarrow> x = y"
      using b by blast
  qed (use slots_okD(1-4) [OF ok] i in simp_all)
qed

text \<open>A table after the change of slot \<open>i\<close>.\<close>

lemma count_used_update:
  "i < length ts \<Longrightarrow> count_used (ts[i := e]) + (if 0 < used (ts ! i) then 1 else 0) = count_used ts + (if 0 < used e then 1 else 0)"
  unfolding count_used_def by (rule filter_update_length)

lemma map_live:
  assumes "slots_ok ts sz" "table htab = Some ts" "hsize htab = sz" "live ts i" "key (ts ! i) = Some k" "data (ts ! i) = Some d"
  shows "htab_map htab k = Some d"
proof -
  have "slots_ok ts (hsize htab)" using assms(1,3) by simp
  from map_Some_iff [OF this assms(2)] assms(4-6) show ?thesis by blast
qed

lemma map_update:
  assumes ok: "slots_ok ts sz" "slots_ok (ts[i := e]) sz" and i: "i < length ts"
    and t: "table htab = Some ts" "hsize htab = sz" "table htab' = Some (ts[i := e])" "hsize htab' = sz"
    and old: "live ts i \<Longrightarrow> key (ts ! i) = Some k" and new: "0 < used e \<Longrightarrow> key e = Some k"
    and that: "\<And>j. live ts j \<Longrightarrow> key (ts ! j) = Some k \<Longrightarrow> j = i"
  shows "htab_map htab' = (htab_map htab)(k := (if 0 < used e then data e else None))"
proof
  note lv = live_update [OF i, of e]
  have ok': "slots_ok ts (hsize htab)" "slots_ok (ts[i := e]) (hsize htab')" using ok t by simp_all
  fix k'
  have S: "htab_map htab' k' = Some d \<longleftrightarrow> ((htab_map htab)(k := (if 0 < used e then data e else None))) k' = Some d" for d
  proof (cases "k' = k")
    case True
    have "htab_map htab' k' = Some d \<longleftrightarrow> 0 < used e \<and> data e = Some d"
      unfolding map_Some_iff [OF ok'(2) t(3)] using lv True i new that by (auto simp: nth_list_update split: if_splits)
    then show ?thesis using True by auto
  next
    case False
    have "htab_map htab' k' = Some d \<longleftrightarrow> htab_map htab k' = Some d"
      unfolding map_Some_iff [OF ok'(2) t(3)] map_Some_iff [OF ok'(1) t(1)]
    proof
      assume "\<exists>j. live (ts[i := e]) j \<and> key (ts[i := e] ! j) = Some k' \<and> data (ts[i := e] ! j) = Some d"
      then obtain j where j: "live (ts[i := e]) j" "key (ts[i := e] ! j) = Some k'" "data (ts[i := e] ! j) = Some d" by blast
      then have "j \<noteq> i" using lv new False i by auto
      then show "\<exists>j. live ts j \<and> key (ts ! j) = Some k' \<and> data (ts ! j) = Some d" using j lv by auto
    next
      assume "\<exists>j. live ts j \<and> key (ts ! j) = Some k' \<and> data (ts ! j) = Some d"
      then obtain j where j: "live ts j" "key (ts ! j) = Some k'" "data (ts ! j) = Some d" by blast
      then have "j \<noteq> i" using old False by auto
      then show "\<exists>j. live (ts[i := e]) j \<and> key (ts[i := e] ! j) = Some k' \<and> data (ts[i := e] ! j) = Some d"
        using j lv by (intro exI [of _ j]) simp
    qed
    then show ?thesis using False by simp
  qed
  show "htab_map htab' k' = ((htab_map htab)(k := (if 0 < used e then data e else None))) k'"
  proof (cases "htab_map htab' k'")
    case None
    then show ?thesis using S by (metis not_None_eq)
  next
    case (Some d)
    then show ?thesis using S [of d] by simp
  qed
qed


section \<open>The operations on a table\<close>

definition copies :: "hooks \<Rightarrow> bool" where
  "copies hk \<longleftrightarrow> (\<forall>t. strdup hk t = Some t)"

text \<open>The change is not permitted, or the callback of the variable turns it down.\<close>

definition refuses :: "hooks \<Rightarrow> hsearch_data \<Rightarrow> ctext \<Rightarrow> ctext \<Rightarrow> int \<Rightarrow> bool" where
  "refuses hk htab k d flag =
     (case htab_map htab k of
        Some old \<Rightarrow> change_ok hk k (Some old) (Some d) env_op_overwrite flag \<or> callback hk k (Some d) env_op_overwrite flag
      | None \<Rightarrow> change_ok hk k (Some d) (Some d) env_op_create flag \<or> callback hk k (Some d) env_op_create flag)"

definition refuses_delete :: "hooks \<Rightarrow> hsearch_data \<Rightarrow> ctext \<Rightarrow> int \<Rightarrow> bool" where
  "refuses_delete hk htab k flag \<longleftrightarrow>
     htab_map htab k = None \<or> change_ok hk k (htab_map htab k) None env_op_delete flag
     \<or> callback hk k None env_op_delete flag"

lemma htab_okE:
  assumes "htab_ok htab"
  obtains ts where "table htab = Some ts" "slots_ok ts (hsize htab)" "filled htab = count_used ts"
  using assms by (auto simp: htab_ok_def)

lemma table_set_slot [simp]:
  "table (set_slot htab i e) = map_option (\<lambda>ts. ts[i := e]) (table htab)"
  "hsize (set_slot htab i e) = hsize htab" "filled (set_slot htab i e) = filled htab"
  by (simp_all add: set_slot_def)

lemma never_used_update:
  assumes "table htab = Some ts" "table htab' = Some (ts[i := e])" "1 \<le> i" "i < length ts" "used e \<noteq> 0"
  shows "never_used htab \<le> never_used htab' + 1" "used (ts ! i) \<noteq> 0 \<Longrightarrow> never_used htab' = never_used htab"
proof -
  have tl_upd: "tl (ts[i := e]) = (tl ts)[i - 1 := e]" using assms(3) by (cases ts; cases i) simp_all
  have n: "tl ts ! (i - 1) = ts ! i" using assms(3,4) by (cases ts; cases i) simp_all
  have l: "i - 1 < length (tl ts)" using assms(3,4) by simp
  note f = filter_update_length [OF l, of "\<lambda>e. used e = 0" e, unfolded n]
  show "never_used htab \<le> never_used htab' + 1"
    using f assms(5) by (simp add: never_used_def assms(1,2) tl_upd split: if_splits)
  show "never_used htab' = never_used htab" if "used (ts ! i) \<noteq> 0"
    using f assms(5) that by (simp add: never_used_def assms(1,2) tl_upd)
qed

lemma search_present:
  assumes "table htab = Some ts" "slots_ok ts (hsize htab)" "live ts i" "key (ts ! i) = Some k"
  shows "hsearch_r hk k d act htab flag = Some (hit hk k d act htab flag i (ts ! i))"
  using hsearch_scan [OF slots_okD(2,3,1) [OF assms(2)] assms(1) refl] scan_present [OF assms(2,1,3,4) refl] by (simp add: finish_def)

lemma search_absent:
  assumes "table htab = Some ts" "slots_ok ts (hsize htab)" "htab_map htab k = None"
    and h: "h = first_index (hsize htab) k"
  shows "hsearch_r hk k d act htab flag = finish hk k d act htab flag (ts ! h)
           (Inr (case dropWhile (\<lambda>x. used (ts ! x) \<noteq> 0) (probes (hsize htab) h) of [] \<Rightarrow> h | i # _ \<Rightarrow> i))"
proof -
  have hp: "0 < h" using first_index_range [of "hsize htab" k] slots_okD(3) [OF assms(2)] h by simp
  have a: "\<And>x. live ts x \<Longrightarrow> key (ts ! x) \<noteq> Some k" using map_None_iff [OF assms(2,1)] assms(3) by blast
  have b: "\<forall>x\<in>set (probes (hsize htab) h). x < length ts" using probes_bounds [OF assms(2)] by blast
  show ?thesis using hsearch_scan [OF slots_okD(2,3,1) [OF assms(2)] assms(1) h] scan_absent [OF assms(2,1) hp a b] by simp
qed

lemma map_live_Some:
  assumes "table htab = Some ts" "slots_ok ts (hsize htab)" "htab_map htab k = Some d"
  obtains i where "live ts i" "key (ts ! i) = Some k" "data (ts ! i) = Some d" "1 \<le> i" "i \<le> hsize htab"
  using map_Some_iff [OF assms(2,1)] assms(3) live_pos [OF assms(2)] by blast

lemma find_absent:
  assumes "htab_ok htab" "htab_map htab k = None"
  shows "hsearch_r hk k d FIND htab flag = Some (0, Some ESRCH, None, htab)"
proof -
  from htab_okE [OF assms(1)] obtain ts where "table htab = Some ts" "slots_ok ts (hsize htab)" .
  from search_absent [OF this assms(2) refl] show ?thesis by (simp add: finish_def)
qed

lemma find_present:
  assumes "htab_ok htab" "htab_map htab k = Some d"
  shows "\<exists>i e. hsearch_r hk k d' FIND htab flag = Some (int i, None, Some i, htab) \<and> 1 \<le> i \<and> i \<le> hsize htab
             \<and> slot htab i = Some e \<and> key e = Some k \<and> data e = Some d \<and> 0 < used e"
proof -
  from htab_okE [OF assms(1)] obtain ts where ts: "table htab = Some ts" "slots_ok ts (hsize htab)" .
  from map_live_Some [OF ts assms(2)] obtain i where i: "live ts i" "key (ts ! i) = Some k" "data (ts ! i) = Some d"
    "1 \<le> i" "i \<le> hsize htab" .
  have "hsearch_r hk k d' FIND htab flag = Some (int i, None, Some i, htab)"
    using search_present [OF ts i(1,2)] by (simp add: hit_def)
  moreover have "slot htab i = Some (ts ! i)" using i ts by (simp add: slot_def live_def)
  moreover have "0 < used (ts ! i)" using i(1) by (simp add: live_def)
  ultimately show ?thesis using i(2-5) by blast
qed

text \<open>Deleting a slot.\<close>

lemma delete_slot_ok:
  assumes ts: "table htab = Some ts" "slots_ok ts (hsize htab)" "filled htab = count_used ts"
    and i: "live ts i" "key (ts ! i) = Some k"
  shows "htab_ok (hdelete_slot htab i)" "htab_map (hdelete_slot htab i) = (htab_map htab)(k := None)"
    "never_used (hdelete_slot htab i) = never_used htab"
proof -
  define e where "e = \<lparr>used = - 1, key = None, data = None :: ctext option\<rparr>"
  have p: "1 \<le> i" "i \<le> hsize htab" "i < length ts" using live_pos [OF ts(2) i(1)] i(1) by (simp_all add: live_def)
  have ue: "used e \<noteq> 0" "\<not> 0 < used e" by (simp_all add: e_def)
  have ok: "slots_ok (ts[i := e]) (hsize htab)"
    using slots_ok_update [OF ts(2) p(1,2) ue(1), of k] ue(2) by blast
  have t: "table (hdelete_slot htab i) = Some (ts[i := e])" "hsize (hdelete_slot htab i) = hsize htab"
    "filled (hdelete_slot htab i) = filled htab - 1"
    using ts(1) by (simp_all add: hdelete_slot_def e_def)
  have pos: "0 < used (ts ! i)" using i(1) by (simp add: live_def)
  have c: "count_used (ts[i := e]) + 1 = count_used ts"
    using count_used_update [OF p(3), of e] ue(2) pos by simp
  show "htab_ok (hdelete_slot htab i)" using ok t ts(3) c by (simp add: htab_ok_def)
  have uniq: "j = i" if "live ts j" "key (ts ! j) = Some k" for j
    by (rule slots_okD(6) [OF ts(2) that(1) i(1)]) (simp add: that(2) i(2))
  have "htab_map (hdelete_slot htab i) = (htab_map htab)(k := (if 0 < used e then data e else None))"
    by (rule map_update [OF ts(2) ok p(3) ts(1) refl t(1,2)]) (use i(2) ue(2) uniq in blast)+
  then show "htab_map (hdelete_slot htab i) = (htab_map htab)(k := None)" using ue(2) by simp
  show "never_used (hdelete_slot htab i) = never_used htab"
    using never_used_update(2) [OF ts(1) t(1) p(1,3) ue(1)] pos by simp
qed

lemma hdelete_law:
  assumes "htab_ok htab"
  shows "\<exists>r err htab'. hdelete_r hk k htab flag = Some (r, err, htab') \<and> htab_ok htab'
           \<and> never_used htab' = never_used htab
           \<and> (if refuses_delete hk htab k flag then r = 0 \<and> err \<noteq> None \<and> htab' = htab
              else r = 1 \<and> err = None \<and> htab_map htab' = (htab_map htab)(k := None))"
proof (cases "htab_map htab k")
  case None
  then show ?thesis using find_absent [OF assms None, of hk None 0] assms
    by (simp add: hdelete_r_def refuses_delete_def)
next
  case (Some d)
  from htab_okE [OF assms] obtain ts where ts: "table htab = Some ts" "slots_ok ts (hsize htab)" "filled htab = count_used ts" .
  from map_live_Some [OF ts(1,2) Some] obtain i where i: "live ts i" "key (ts ! i) = Some k" "data (ts ! i) = Some d"
    "1 \<le> i" "i \<le> hsize htab" .
  have s: "hsearch_r hk k None FIND htab 0 = Some (int i, None, Some i, htab)"
    by (simp add: search_present [OF ts(1,2) i(1,2)] hit_def)
  have sl: "slot htab i = Some (ts ! i)" using i ts by (simp add: slot_def live_def)
  show ?thesis
    using delete_slot_ok [OF ts i(1,2)] i(3,4) Some assms
    by (simp add: hdelete_r_def s sl refuses_delete_def)
qed


lemma store_slot_ok:
  assumes ts: "table htab = Some ts" "slots_ok ts (hsize htab)" and i: "1 \<le> i" "i \<le> hsize htab"
    and e: "used e = int (first_index (hsize htab) k)" "key e = Some k" "data e = Some d"
    and r: "reachable ts (hsize htab) k i" and old: "live ts i \<longrightarrow> key (ts ! i) = Some k"
    and uniq: "\<forall>j. live ts j \<longrightarrow> key (ts ! j) = Some k \<longrightarrow> j = i"
    and t: "table htab' = Some (ts[i := e])" "hsize htab' = hsize htab" "filled htab' = count_used (ts[i := e])"
  shows "htab_ok htab'" "htab_map htab' = (htab_map htab)(k \<mapsto> d)" "never_used htab \<le> never_used htab' + 1"
proof -
  have il: "i < length ts" using i slots_okD(1) [OF ts(2)] by simp
  have pos: "0 < used e" using e(1) first_index_range [of "hsize htab" k] slots_okD(3) [OF ts(2)] by simp
  then have ne: "used e \<noteq> 0" by simp
  have ok: "slots_ok (ts[i := e]) (hsize htab)"
    by (rule slots_ok_update [OF ts(2) i ne]) (use e r uniq in blast)
  show "htab_ok htab'" unfolding htab_ok_def using ok t by simp
  have "htab_map htab' = (htab_map htab)(k := (if 0 < used e then data e else None))"
    by (rule map_update [OF ts(2) ok il ts(1) refl t(1,2)]) (use old e uniq in blast)+
  then show "htab_map htab' = (htab_map htab)(k \<mapsto> d)" using pos e(3) by simp
  show "never_used htab \<le> never_used htab' + 1" by (rule never_used_update(1) [OF ts(1) t(1) i(1) il ne])
qed

lemma count_never:
  assumes "table htab = Some ts" "slots_ok ts (hsize htab)"
  shows "count_used ts + never_used htab \<le> hsize htab"
proof -
  obtain e es where c: "ts = e # es" using slots_okD(1) [OF assms(2)] by (cases ts) auto
  have "\<not> 0 < used e" using slots_okD(4) [OF assms(2)] c by simp
  then have "count_used ts = length (filter (\<lambda>e. 0 < used e) es)" by (simp add: count_used_def c)
  moreover have "length (filter (\<lambda>e. 0 < used e) es) + length (filter (\<lambda>e. used e = 0) es) \<le> length es"
    by (induction es) auto
  moreover have "length es = hsize htab" using slots_okD(1) [OF assms(2)] c by simp
  ultimately show ?thesis using assms(1) c by (simp add: never_used_def)
qed

lemma never_used_probe:
  assumes ts: "table htab = Some ts" "slots_ok ts (hsize htab)" and n: "0 < never_used htab"
    and h: "h = first_index (hsize htab) k"
  obtains i xs where "dropWhile (\<lambda>x. used (ts ! x) \<noteq> 0) (probes (hsize htab) h) = i # xs" "used (ts ! i) = 0"
    "1 \<le> i" "i \<le> hsize htab" "reachable ts (hsize htab) k i"
proof -
  have sz: "prime_size (hsize htab)" "3 < hsize htab" "length ts = hsize htab + 1" using slots_okD [OF ts(2)] by simp_all
  have "filter (\<lambda>e. used e = 0) (tl ts) \<noteq> []" using n ts(1) by (simp add: never_used_def)
  then obtain e where "e \<in> set (tl ts)" "used e = 0" by (auto simp: filter_empty_conv)
  then obtain j where "j < length (tl ts)" "used (tl ts ! j) = 0" by (auto simp: in_set_conv_nth)
  then have x: "Suc j \<in> set (probes (hsize htab) h)" "used (ts ! Suc j) = 0"
    using sz set_probes [OF sz(1,2), of h] by (simp_all add: nth_tl)
  then have "dropWhile (\<lambda>x. used (ts ! x) \<noteq> 0) (probes (hsize htab) h) \<noteq> []" by (auto simp: dropWhile_eq_Nil_conv)
  then obtain i xs where d: "dropWhile (\<lambda>x. used (ts ! x) \<noteq> 0) (probes (hsize htab) h) = i # xs"
    by (cases "dropWhile (\<lambda>x. used (ts ! x) \<noteq> 0) (probes (hsize htab) h)") simp_all
  have u: "used (ts ! i) = 0" using hd_dropWhile [of "\<lambda>x. used (ts ! x) \<noteq> 0" "probes (hsize htab) h"] d by simp
  have split: "probes (hsize htab) h = takeWhile (\<lambda>x. used (ts ! x) \<noteq> 0) (probes (hsize htab) h) @ i # xs"
    using d by (metis takeWhile_dropWhile_id)
  have r: "reachable ts (hsize htab) k i"
    unfolding reachable_def h [symmetric]
  proof (intro exI conjI)
    show "probes (hsize htab) h = takeWhile (\<lambda>x. used (ts ! x) \<noteq> 0) (probes (hsize htab) h) @ i # xs" by (rule split)
    show "\<forall>x\<in>set (takeWhile (\<lambda>x. used (ts ! x) \<noteq> 0) (probes (hsize htab) h)). used (ts ! x) \<noteq> 0"
      by (auto dest: set_takeWhileD)
  qed
  have "i \<in> set (dropWhile (\<lambda>x. used (ts ! x) \<noteq> 0) (probes (hsize htab) h))" using d by simp
  then have "i \<in> set (probes (hsize htab) h)" by (rule set_dropWhileD)
  then have "1 \<le> i" "i \<le> hsize htab" using set_probes [OF sz(1,2)] by auto
  with d u r show ?thesis using that by blast
qed

lemma enter_present:
  assumes "htab_ok htab" "copies hk" "htab_map htab k = Some old"
  shows "\<exists>r err rv htab'. hsearch_r hk k (Some d) ENTER htab flag = Some (r, err, rv, htab') \<and> htab_ok htab'
           \<and> never_used htab \<le> never_used htab' + 1
           \<and> (if refuses hk htab k d flag then r = 0 \<and> (err = Some EPERM \<or> err = Some EINVAL) \<and> htab_map htab' = htab_map htab
              else 0 < r \<and> err = None \<and> htab_map htab' = (htab_map htab)(k \<mapsto> d))"
proof -
  from htab_okE [OF assms(1)] obtain ts where ts: "table htab = Some ts" "slots_ok ts (hsize htab)" "filled htab = count_used ts" .
  from map_live_Some [OF ts(1,2) assms(3)] obtain i where i: "live ts i" "key (ts ! i) = Some k" "data (ts ! i) = Some old"
    "1 \<le> i" "i \<le> hsize htab" .
  have il: "i < length ts" using i(1) by (simp add: live_def)
  define e where "e = (ts ! i)\<lparr>data := Some d\<rparr>"
  from slots_okD(5) [OF ts(2) i(1)] i(2)
  have u: "used (ts ! i) = int (first_index (hsize htab) k)" "reachable ts (hsize htab) k i" by auto
  have uniq: "j = i" if "live ts j" "key (ts ! j) = Some k" for j
    by (rule slots_okD(6) [OF ts(2) that(1) i(1)]) (simp add: that(2) i(2))
  have e: "used e = int (first_index (hsize htab) k)" "key e = Some k" "data e = Some d" using u(1) i(2) by (simp_all add: e_def)
  have c: "count_used (ts[i := e]) = count_used ts" using count_used_update [OF il, of e] by (simp add: e_def)
  have t: "table (set_slot htab i e) = Some (ts[i := e])" "hsize (set_slot htab i e) = hsize htab"
    "filled (set_slot htab i e) = count_used (ts[i := e])" using ts c by simp_all
  have o: "live ts i \<longrightarrow> key (ts ! i) = Some k" "\<forall>j. live ts j \<longrightarrow> key (ts ! j) = Some k \<longrightarrow> j = i"
    using i(2) uniq by blast+
  note n = store_slot_ok [OF ts(1,2) i(4,5) e u(2) o t]
  have s: "hsearch_r hk k (Some d) ENTER htab flag = Some (hit hk k (Some d) ENTER htab flag i (ts ! i))"
    by (rule search_present [OF ts(1,2) i(1,2)])
  show ?thesis
  proof (cases "refuses hk htab k d flag")
    case True
    then show ?thesis using assms(1,3) i(3) by (auto simp: s hit_def refuses_def)
  next
    case False
    then have "hsearch_r hk k (Some d) ENTER htab flag = Some (int i, None, Some i, set_slot htab i e)"
      using assms(2,3) i(3) by (simp add: s hit_def refuses_def copies_def e_def)
    then show ?thesis using n False i(4) by simp
  qed
qed

lemma enter_absent:
  assumes "htab_ok htab" "copies hk" "htab_map htab k = None" "0 < never_used htab"
  shows "\<exists>r err rv htab'. hsearch_r hk k (Some d) ENTER htab flag = Some (r, err, rv, htab') \<and> htab_ok htab'
           \<and> never_used htab \<le> never_used htab' + 1
           \<and> (if refuses hk htab k d flag then r = 0 \<and> (err = Some EPERM \<or> err = Some EINVAL) \<and> htab_map htab' = htab_map htab
              else 0 < r \<and> err = None \<and> htab_map htab' = (htab_map htab)(k \<mapsto> d))"
proof -
  from htab_okE [OF assms(1)] obtain ts where ts: "table htab = Some ts" "slots_ok ts (hsize htab)" "filled htab = count_used ts" .
  define h where "h = first_index (hsize htab) k"
  have "1 < hsize htab" using slots_okD(3) [OF ts(2)] by linarith
  from first_index_range [OF this] have hr: "1 \<le> h" "h \<le> hsize htab" unfolding h_def by blast+
  from never_used_probe [OF ts(1,2) assms(4) h_def] obtain z xs where
    z: "dropWhile (\<lambda>x. used (ts ! x) \<noteq> 0) (probes (hsize htab) h) = z # xs" "used (ts ! z) = 0"
      "1 \<le> z" "z \<le> hsize htab" "reachable ts (hsize htab) k z" .
  define i where "i = (if used (ts ! h) = - 1 then h else z)"
  have rh: "reachable ts (hsize htab) k h"
    unfolding reachable_def h_def [symmetric] probes_Cons [OF hr]
    by (intro exI [of _ "[]"] exI [of _ "map (nth_probe (hsize htab) h (second_hash (hsize htab) h)) [Suc 0..<hsize htab]"])
      simp
  have i: "1 \<le> i" "i \<le> hsize htab" "reachable ts (hsize htab) k i" "\<not> 0 < used (ts ! i)"
    using hr z(2-5) rh by (simp_all add: i_def)
  have il: "i < length ts" using i(2) slots_okD(1) [OF ts(2)] by simp
  define e where "e = \<lparr>used = int h, key = Some k, data = Some d\<rparr>"
  define h2 where "h2 = (set_slot htab i e)\<lparr>filled := filled htab + 1\<rparr>"
  have e: "used e = int (first_index (hsize htab) k)" "key e = Some k" "data e = Some d" by (simp_all add: e_def h_def)
  have c: "count_used (ts[i := e]) = count_used ts + 1"
    using count_used_update [OF il, of e] i(4) hr by (simp add: e_def)
  have t: "table h2 = Some (ts[i := e])" "hsize h2 = hsize htab" "filled h2 = count_used (ts[i := e])"
    using ts c by (simp_all add: h2_def)
  have none: "\<forall>j. live ts j \<longrightarrow> key (ts ! j) \<noteq> Some k" using map_None_iff [OF ts(2,1)] assms(3) by blast
  have old: "live ts i \<longrightarrow> key (ts ! i) = Some k" using i(4) by (simp add: live_def)
  have uniq: "\<forall>j. live ts j \<longrightarrow> key (ts ! j) = Some k \<longrightarrow> j = i" using none by blast
  note n = store_slot_ok [OF ts(1,2) i(1,2) e i(3) old uniq t]
  have ok2: "slots_ok (ts[i := e]) (hsize h2)" using htab_okE [OF n(1)] t(1) by (metis option.inject)
  have l2: "live (ts[i := e]) i" "key (ts[i := e] ! i) = Some k" using il hr by (simp_all add: live_def e_def)
  note del = delete_slot_ok [OF t(1) ok2 t(3) l2]
  have dm: "htab_map (hdelete_slot h2 i) = htab_map htab" unfolding del(2) n(2) using assms(3) by (intro ext) simp
  have nf: "filled htab \<noteq> hsize htab" using count_never [OF ts(1,2)] assms(4) ts(3) by simp
  have s: "hsearch_r hk k (Some d) ENTER htab flag = Some (enter_new hk k (Some d) htab flag h i)"
    unfolding search_absent [OF ts(1,2) assms(3) h_def] finish_def h_def [symmetric] i_def z(1) using nf by simp
  have en: "enter_new hk k (Some d) htab flag h i =
      (if change_ok hk k (Some d) (Some d) env_op_create flag then (0, Some EPERM, None, hdelete_slot h2 i)
       else if callback hk k (Some d) env_op_create flag then (0, Some EINVAL, None, hdelete_slot h2 i)
       else (1, None, Some i, h2))"
    using assms(2) by (simp add: enter_new_def copies_def h2_def e_def Let_def)
  show ?thesis
  proof (cases "refuses hk htab k d flag")
    case True
    then obtain err where err: "hsearch_r hk k (Some d) ENTER htab flag = Some (0, err, None, hdelete_slot h2 i)"
        "err = Some EPERM \<or> err = Some EINVAL" using assms(3)
      by (cases "change_ok hk k (Some d) (Some d) env_op_create flag") (simp_all add: s en refuses_def)
    show ?thesis
      by (rule exI [of _ 0], rule exI [of _ err], rule exI [of _ None], rule exI [of _ "hdelete_slot h2 i"])
        (use True del(1,3) dm n(3) err in simp)
  next
    case False
    then have "hsearch_r hk k (Some d) ENTER htab flag = Some (1, None, Some i, h2)"
      using assms(3) by (simp add: s en refuses_def)
    then show ?thesis using False n by simp
  qed
qed

lemma enter_law:
  assumes "htab_ok htab" "copies hk" "0 < never_used htab"
  shows "\<exists>r err rv htab'. hsearch_r hk k (Some d) ENTER htab flag = Some (r, err, rv, htab') \<and> htab_ok htab'
           \<and> never_used htab \<le> never_used htab' + 1
           \<and> (if refuses hk htab k d flag then r = 0 \<and> (err = Some EPERM \<or> err = Some EINVAL) \<and> htab_map htab' = htab_map htab
              else 0 < r \<and> err = None \<and> htab_map htab' = (htab_map htab)(k \<mapsto> d))"
proof (cases "htab_map htab k")
  case None then show ?thesis by (rule enter_absent [OF assms(1,2) _ assms(3)])
next
  case (Some old) then show ?thesis by (rule enter_present [OF assms(1,2)])
qed


section \<open>Creating, walking and matching\<close>

lemma hcreate_law:
  assumes "table htab = None" "4 \<le> nel"
  shows "\<exists>htab'. hcreate_r True nel htab = Some (1, htab') \<and> htab_ok htab' \<and> nel \<le> hsize htab'
           \<and> htab_map htab' = Map.empty \<and> never_used htab' = hsize htab'"
proof -
  have o: "odd (odd_nel nel)" "3 < odd_nel nel" "nel \<le> odd_nel nel" using assms(2) by (auto simp: odd_nel_def)
  from next_prime_total [OF o(1,2)] obtain p where p: "next_prime (odd_nel nel) = Some p" "prime_size p" "odd_nel nel \<le> p" by blast
  define ts where "ts = replicate (p + 1) empty_entry"
  define h where "h = htab\<lparr>hsize := p, filled := 0, table := Some ts\<rparr>"
  have u: "used (ts ! i) = 0" if "i < p + 1" for i using that by (simp add: ts_def empty_entry_def del: replicate_Suc)
  have l: "length ts = p + 1" by (simp add: ts_def)
  have nl: "\<not> live ts i" for i using u l by (auto simp: live_def)
  have "slots_ok ts p" unfolding slots_ok_def using l p o u [of 0] nl by auto
  moreover have "count_used ts = 0" by (simp add: count_used_def ts_def empty_entry_def)
  ultimately have ok: "htab_ok h" by (simp add: htab_ok_def h_def)
  have m: "htab_map h = Map.empty" using find_no_live [of ts] nl by (intro ext) (simp add: htab_map_def h_def)
  have n: "never_used h = hsize h" by (simp add: never_used_def h_def ts_def empty_entry_def)
  have "hcreate_r True nel htab = Some (1, h)" using assms(1) p(1) by (simp add: hcreate_r_def h_def ts_def)
  then show ?thesis using ok m n p(3) o(3) by (auto simp: h_def)
qed

lemma hwalk_loop_run:
  assumes "table htab = Some ts" "i + n \<le> length ts" "\<forall>e\<in>set ts. 0 < used e \<longrightarrow> f e = 0"
  shows "hwalk_loop f htab n i = Some 0"
  using assms(2)
proof (induction n arbitrary: i)
  case (Suc n)
  have "ts ! i \<in> set ts" using Suc.prems by simp
  then have "0 < used (ts ! i) \<Longrightarrow> f (ts ! i) = 0" using assms(3) by blast
  then show ?case using Suc assms(1) by (simp add: slot_def)
qed simp

text \<open>A slot that holds a key that starts with \<open>m\<close>.\<close>

definition matches :: "ctext \<Rightarrow> hsearch_data \<Rightarrow> nat \<Rightarrow> bool" where
  "matches m htab i \<longleftrightarrow> (case slot htab i of None \<Rightarrow> False
     | Some e \<Rightarrow> 0 < used e \<and> (case key e of None \<Rightarrow> False | Some k \<Rightarrow> take (length m) k = m))"

lemma hmatch_loop_run:
  assumes "htab_ok htab" "i + n \<le> hsize htab"
  shows "hmatch_loop m htab n i =
    (case filter (matches m htab) [i..<i + n] of [] \<Rightarrow> Some (0, None) | x # _ \<Rightarrow> Some (x, Some x))"
  using assms(2)
proof (induction n arbitrary: i)
  case (Suc n)
  from htab_okE [OF assms(1)] obtain ts where ts: "table htab = Some ts" "slots_ok ts (hsize htab)" .
  have sl: "slot htab i = Some (ts ! i)" using Suc.prems ts slots_okD(1) [OF ts(2)] by (simp add: slot_def)
  have up: "[i..<i + Suc n] = i # [Suc i..<Suc i + n]" by (simp add: upt_conv_Cons)
  have ih: "hmatch_loop m htab n (i + 1) =
      (case filter (matches m htab) [Suc i..<Suc i + n] of [] \<Rightarrow> Some (0, None) | x # _ \<Rightarrow> Some (x, Some x))"
    using Suc.IH [of "Suc i"] Suc.prems by simp
  show ?case
  proof (cases "0 < used (ts ! i)")
    case True
    then have "live ts i" using Suc.prems slots_okD(1) [OF ts(2)] by (simp add: live_def)
    from slots_okD(5) [OF ts(2) this] obtain k where k: "key (ts ! i) = Some k" by blast
    then have "matches m htab i \<longleftrightarrow> take (length m) k = m" using sl True by (simp add: matches_def)
    then show ?thesis unfolding up hmatch_loop.simps ih using sl True k by (simp del: upt_Suc)
  next
    case False
    then have "\<not> matches m htab i" using sl by (simp add: matches_def)
    then show ?thesis unfolding up hmatch_loop.simps ih using sl False by (simp del: upt_Suc)
  qed
qed simp

lemma hmatch_run:
  assumes "htab_ok htab" "last_idx < hsize htab"
  shows "hmatch_r m last_idx htab =
    (case filter (matches m htab) [last_idx + 1..<hsize htab] of [] \<Rightarrow> Some (0, None) | x # _ \<Rightarrow> Some (x, Some x))"
  using hmatch_loop_run [OF assms(1), of "last_idx + 1" "hsize htab - (last_idx + 1)" m] assms(2)
  by (simp add: hmatch_r_def)

section \<open>Evaluating the invariant\<close>

lemma reachable_code [code]:
  "reachable ts sz k i \<longleftrightarrow> (let xs = probes sz (first_index sz k)
     in i \<in> set xs \<and> (\<forall>x\<in>set (takeWhile (\<lambda>x. x \<noteq> i) xs). used (ts ! x) \<noteq> 0))" (is "?l = ?r")
proof
  assume ?l
  then obtain pre post where p: "probes sz (first_index sz k) = pre @ i # post" "\<forall>x\<in>set pre. used (ts ! x) \<noteq> 0"
    by (auto simp: reachable_def)
  have "set (takeWhile (\<lambda>x. x \<noteq> i) (pre @ i # post)) \<subseteq> set pre" by (induction pre) auto
  then show ?r using p by (auto simp: Let_def)
next
  assume r: ?r
  then have "i \<in> set (probes sz (first_index sz k))" by (simp add: Let_def)
  then have "\<exists>post. probes sz (first_index sz k) = takeWhile (\<lambda>x. x \<noteq> i) (probes sz (first_index sz k)) @ i # post"
  proof (induction "probes sz (first_index sz k)")
    case Nil then show ?case by simp
  next
    case (Cons a xs)
    have "i \<in> set ys \<Longrightarrow> \<exists>post. ys = takeWhile (\<lambda>x. x \<noteq> i) ys @ i # post" for ys :: "nat list"
      by (induction ys) auto
    then show ?case using Cons.prems by blast
  qed
  then show ?l unfolding reachable_def using r by (auto simp: Let_def)
qed

lemma slots_ok_code [code]:
  "slots_ok ts sz \<longleftrightarrow> length ts = sz + 1 \<and> prime_size sz \<and> 3 < sz \<and> used (ts ! 0) = 0
     \<and> list_all (\<lambda>i. live ts i \<longrightarrow> (case (key (ts ! i), data (ts ! i)) of
          (Some k, Some d) \<Rightarrow> used (ts ! i) = int (first_index sz k) \<and> reachable ts sz k i | _ \<Rightarrow> False)) [0..<length ts]
     \<and> list_all (\<lambda>i. list_all (\<lambda>j. live ts i \<longrightarrow> live ts j \<longrightarrow> key (ts ! i) = key (ts ! j) \<longrightarrow> i = j) [0..<length ts]) [0..<length ts]"
    (is "_ \<longleftrightarrow> _ \<and> _ \<and> _ \<and> _ \<and> ?a \<and> ?b")
proof -
  have a: "?a \<longleftrightarrow> (\<forall>i. live ts i \<longrightarrow> (\<exists>k d. key (ts ! i) = Some k \<and> data (ts ! i) = Some d
            \<and> used (ts ! i) = int (first_index sz k) \<and> reachable ts sz k i))"
  proof -
    have "(live ts i \<longrightarrow> (case (key (ts ! i), data (ts ! i)) of
          (Some k, Some d) \<Rightarrow> used (ts ! i) = int (first_index sz k) \<and> reachable ts sz k i | _ \<Rightarrow> False))
      \<longleftrightarrow> (live ts i \<longrightarrow> (\<exists>k d. key (ts ! i) = Some k \<and> data (ts ! i) = Some d
            \<and> used (ts ! i) = int (first_index sz k) \<and> reachable ts sz k i))" for i
      by (cases "key (ts ! i)"; cases "data (ts ! i)") simp_all
    then show ?thesis unfolding list_all_iff by (auto simp: live_def)
  qed
  have b: "?b \<longleftrightarrow> (\<forall>i j. live ts i \<longrightarrow> live ts j \<longrightarrow> key (ts ! i) = key (ts ! j) \<longrightarrow> i = j)"
    unfolding list_all_iff by (auto simp: live_def)
  show ?thesis unfolding slots_ok_def a b ..
qed

lemma htab_ok_code [code]:
  "htab_ok htab \<longleftrightarrow> (case table htab of None \<Rightarrow> False
     | Some ts \<Rightarrow> slots_ok ts (hsize htab) \<and> filled htab = count_used ts)"
  by (simp add: htab_ok_def split: option.splits)


section \<open>A store of variables\<close>

text \<open>What the clients of the table rely on.  \<open>good\<close> is what the operations need of their
  parameters, \<open>room\<close> a number of new variables that surely fit.\<close>

locale var_store =
  fixes ok :: "'h \<Rightarrow> bool" and contents :: "'h \<Rightarrow> 'k \<Rightarrow> 'v option" and room :: "'h \<Rightarrow> nat"
    and good :: "'p \<Rightarrow> bool" and refuse :: "'p \<Rightarrow> 'h \<Rightarrow> 'k \<Rightarrow> 'v \<Rightarrow> bool" and refuse_delete :: "'p \<Rightarrow> 'h \<Rightarrow> 'k \<Rightarrow> bool"
    and enter :: "'p \<Rightarrow> 'h \<Rightarrow> 'k \<Rightarrow> 'v \<Rightarrow> 'h option" and remove :: "'p \<Rightarrow> 'h \<Rightarrow> 'k \<Rightarrow> 'h option"
  assumes enter_step: "good p \<Longrightarrow> ok h \<Longrightarrow> 0 < room h \<Longrightarrow>
      \<exists>h'. enter p h k v = Some h' \<and> ok h' \<and> room h \<le> room h' + 1
         \<and> contents h' = (if refuse p h k v then contents h else (contents h)(k \<mapsto> v))"
    and remove_step: "good p \<Longrightarrow> ok h \<Longrightarrow>
      \<exists>h'. remove p h k = Some h' \<and> ok h' \<and> room h' = room h
         \<and> contents h' = (if refuse_delete p h k then contents h else (contents h)(k := None))"

text \<open>A list of changes, one after the other: \<^const>\<open>None\<close> deletes the variable.\<close>

fun changes :: "('p \<Rightarrow> 'h \<Rightarrow> 'k \<Rightarrow> 'v \<Rightarrow> 'h option) \<Rightarrow> ('p \<Rightarrow> 'h \<Rightarrow> 'k \<Rightarrow> 'h option) \<Rightarrow> 'p
    \<Rightarrow> ('k \<times> 'v option) list \<Rightarrow> 'h \<Rightarrow> 'h option" where
  "changes en del p [] h = Some h"
| "changes en del p ((k, Some v) # cs) h = Option.bind (en p h k v) (changes en del p cs)"
| "changes en del p ((k, None) # cs) h = Option.bind (del p h k) (changes en del p cs)"

fun changed :: "('k \<times> 'v option) list \<Rightarrow> ('k \<Rightarrow> 'v option) \<Rightarrow> 'k \<Rightarrow> 'v option" where
  "changed [] m = m"
| "changed ((k, v) # cs) m = changed cs (m(k := v))"

context var_store
begin

lemma changes_run:
  assumes "good p" "\<And>h k v. \<not> refuse p h k v" "\<And>h k. contents h k \<noteq> None \<Longrightarrow> \<not> refuse_delete p h k"
  shows "ok h \<Longrightarrow> length cs \<le> room h \<Longrightarrow>
    \<exists>h'. changes enter remove p cs h = Some h' \<and> ok h' \<and> room h \<le> room h' + length cs
       \<and> contents h' = changed cs (contents h)"
proof (induction cs arbitrary: h)
  case (Cons c cs)
  obtain k v where c: "c = (k, v)" by (cases c)
  have "\<exists>h1. changes enter remove p (c # cs) h = changes enter remove p cs h1 \<and> ok h1 \<and> room h \<le> room h1 + 1
      \<and> contents h1 = (contents h)(k := v)"
  proof (cases v)
    case None
    from remove_step [OF assms(1) Cons.prems(1), of k] obtain h1 where h1: "remove p h k = Some h1" "ok h1" "room h1 = room h"
      "contents h1 = (if refuse_delete p h k then contents h else (contents h)(k := None))" by blast
    have "contents h1 = (contents h)(k := None)"
      using h1(4) assms(3) [of h k] by (cases "contents h k") (auto simp: fun_upd_idem)
    then show ?thesis using c None h1 by auto
  next
    case (Some d)
    from enter_step [OF assms(1) Cons.prems(1), of k d] Cons.prems(2) obtain h1 where "enter p h k d = Some h1" "ok h1"
      "room h \<le> room h1 + 1" "contents h1 = (if refuse p h k d then contents h else (contents h)(k \<mapsto> d))" by auto
    then show ?thesis using c Some assms(2) by auto
  qed
  then obtain h1 where h1: "changes enter remove p (c # cs) h = changes enter remove p cs h1" "ok h1"
    "room h \<le> room h1 + 1" "contents h1 = (contents h)(k := v)" by blast
  have "length cs \<le> room h1" using h1(3) Cons.prems(2) by simp
  from Cons.IH [OF h1(2) this] obtain h' where "changes enter remove p cs h1 = Some h'" "ok h'"
    "room h1 \<le> room h' + length cs" "contents h' = changed cs (contents h1)" by blast
  then show ?case using h1 c by (intro exI [of _ h']) simp
qed simp

end

definition store_enter :: "hooks \<times> int \<Rightarrow> hsearch_data \<Rightarrow> ctext \<Rightarrow> ctext \<Rightarrow> hsearch_data option" where
  "store_enter p htab k d = map_option (\<lambda>(_, _, _, htab'). htab') (hsearch_r (fst p) k (Some d) ENTER htab (snd p))"

definition store_delete :: "hooks \<times> int \<Rightarrow> hsearch_data \<Rightarrow> ctext \<Rightarrow> hsearch_data option" where
  "store_delete p htab k = map_option (\<lambda>(_, _, htab'). htab') (hdelete_r (fst p) k htab (snd p))"

interpretation hs: var_store htab_ok htab_map never_used "\<lambda>p. copies (fst p)"
  "\<lambda>p h k d. refuses (fst p) h k d (snd p)" "\<lambda>p h k. refuses_delete (fst p) h k (snd p)" store_enter store_delete
proof
  fix p :: "hooks \<times> int" and h k v
  assume a: "copies (fst p)" "htab_ok h" "0 < never_used h"
  from enter_law [OF a(2,1,3), of k v "snd p"]
  show "\<exists>h'. store_enter p h k v = Some h' \<and> htab_ok h' \<and> never_used h \<le> never_used h' + 1
      \<and> htab_map h' = (if refuses (fst p) h k v (snd p) then htab_map h else (htab_map h)(k \<mapsto> v))"
    by (auto simp: store_enter_def split: if_splits)
next
  fix p :: "hooks \<times> int" and h k
  assume a: "copies (fst p)" "htab_ok h"
  from hdelete_law [OF a(2), of "fst p" k "snd p"]
  show "\<exists>h'. store_delete p h k = Some h' \<and> htab_ok h' \<and> never_used h' = never_used h
      \<and> htab_map h' = (if refuses_delete (fst p) h k (snd p) then htab_map h else (htab_map h)(k := None))"
    by (auto simp: store_delete_def split: if_splits)
qed


section \<open>Where the table fails\<close>

lemma scan_prefix:
  assumes "\<And>x. x \<in> set pre \<Longrightarrow> \<exists>e. slot htab x = Some e \<and> used e \<noteq> 0 \<and> (used e = int h \<longrightarrow> (\<exists>k'. key e = Some k' \<and> k' \<noteq> k))"
  shows "scan hk k d act htab flag h (pre @ xs) = scan hk k d act htab flag h xs"
  using assms
proof (induction pre)
  case (Cons x pre)
  from Cons.prems [of x] obtain e where e: "slot htab x = Some e" "used e \<noteq> 0"
    "used e = int h \<longrightarrow> (\<exists>k'. key e = Some k' \<and> k' \<noteq> k)" by auto
  have "compare_and_overwrite_entry hk k d act htab flag h x = Some None"
    by (rule compare_miss [OF e(1)]) (use e(3) in blast)
  moreover have "scan hk k d act htab flag h (pre @ xs) = scan hk k d act htab flag h xs"
    by (rule Cons.IH) (use Cons.prems in simp)
  ultimately show ?case using e by simp
qed simp

text \<open>With every slot once used, a new key whose first slot is taken goes over the entry there.\<close>

lemma saturated_run:
  assumes ok: "htab_ok htab" "copies hk" and k: "htab_map htab k = None"
    and full: "never_used htab = 0" "filled htab < hsize htab"
    and e: "slot htab (first_index (hsize htab) k) = Some e" "0 < used e" "key e = Some k0"
    and acc: "\<not> refuses hk htab k d flag"
  shows "\<exists>htab'. hsearch_r hk k (Some d) ENTER htab flag = Some (1, None, Some (first_index (hsize htab) k), htab')
           \<and> htab_map htab k0 \<noteq> None \<and> htab_map htab' k0 = None \<and> htab_map htab' k = Some d \<and> \<not> htab_ok htab'"
proof -
  from htab_okE [OF ok(1)] obtain ts where ts: "table htab = Some ts" "slots_ok ts (hsize htab)" "filled htab = count_used ts" .
  define h where "h = first_index (hsize htab) k"
  have sz: "prime_size (hsize htab)" "3 < hsize htab" "length ts = hsize htab + 1" using slots_okD [OF ts(2)] by simp_all
  then have "1 < hsize htab" by linarith
  from first_index_range [OF this] have hr: "1 \<le> h" "h \<le> hsize htab" unfolding h_def by blast+
  then have hl: "h < length ts" using sz(3) by simp
  have te: "ts ! h = e" using e(1) ts(1) hl by (simp add: slot_def h_def)
  have lh: "live ts h" using e(2) te hl by (simp add: live_def)
  define e' where "e' = \<lparr>used = int h, key = Some k, data = Some d\<rparr>"
  define h2 where "h2 = (set_slot htab h e')\<lparr>filled := filled htab + 1\<rparr>"
  have "used (ts ! x) \<noteq> 0" if x: "x \<in> set (probes (hsize htab) h)" for x
  proof
    assume z: "used (ts ! x) = 0"
    have xr: "1 \<le> x" "x \<le> hsize htab" using x set_probes [OF sz(1,2)] by auto
    then have "tl ts ! (x - 1) = ts ! x" "x - 1 < length (tl ts)" using sz(3) by (auto simp: nth_tl)
    then have "ts ! x \<in> set (tl ts)" by (metis nth_mem)
    then have "filter (\<lambda>e. used e = 0) (tl ts) \<noteq> []" using z by (auto simp: filter_empty_conv)
    then show False using full(1) ts(1) by (simp add: never_used_def)
  qed
  then have dw: "dropWhile (\<lambda>x. used (ts ! x) \<noteq> 0) (probes (hsize htab) h) = []" by (simp add: dropWhile_eq_Nil_conv)
  have nf: "filled htab \<noteq> hsize htab" "used (ts ! h) \<noteq> - 1" using full(2) e(2) te by simp_all
  have s: "hsearch_r hk k (Some d) ENTER htab flag = Some (enter_new hk k (Some d) htab flag h h)"
    unfolding search_absent [OF ts(1,2) k h_def] finish_def h_def [symmetric] dw using nf by simp
  have en: "enter_new hk k (Some d) htab flag h h = (1, None, Some h, h2)"
    using ok(2) acc k by (simp add: enter_new_def copies_def h2_def e'_def Let_def refuses_def)
  have t: "table h2 = Some (ts[h := e'])" "hsize h2 = hsize htab" "filled h2 = filled htab + 1" using ts(1) by (simp_all add: h2_def)
  have none: "\<forall>j. live ts j \<longrightarrow> key (ts ! j) \<noteq> Some k" using map_None_iff [OF ts(2,1)] k by blast
  have rh: "reachable ts (hsize htab) k h"
    unfolding reachable_def h_def [symmetric] probes_Cons [OF hr]
    by (intro exI [of _ "[]"] exI [of _ "map (nth_probe (hsize htab) h (second_hash (hsize htab) h)) [Suc 0..<hsize htab]"])
      simp
  have ne: "used e' \<noteq> 0" using hr by (simp add: e'_def)
  have ok2: "slots_ok (ts[h := e']) (hsize h2)"
    unfolding t(2) by (rule slots_ok_update [OF ts(2) hr ne, of k]) (use rh none in \<open>simp add: e'_def h_def\<close>)
  have lv: "live (ts[h := e']) j \<longleftrightarrow> (if j = h then True else live ts j)" for j
    using live_update [OF hl, of e'] hr by (simp add: e'_def)
  have c: "count_used (ts[h := e']) = count_used ts"
    using count_used_update [OF hl, of e'] hr e(2) te by (simp add: e'_def)
  have "htab_map htab k0 \<noteq> None" using map_None_iff [OF ts(2,1), of k0] lh te e(3) by blast
  moreover have "htab_map h2 k0 = None"
  proof -
    have nk: "k \<noteq> k0" using none lh te e(3) by auto
    have "key (ts[h := e'] ! j) \<noteq> Some k0" if j: "live (ts[h := e']) j" for j
    proof (cases "j = h")
      case True then show ?thesis using hl nk by (simp add: e'_def)
    next
      case False
      then have "live ts j" using j lv by simp
      then show ?thesis using False slots_okD(6) [OF ts(2) _ lh, of j] te e(3) by auto
    qed
    then show ?thesis using map_None_iff [OF ok2 t(1), of k0] by blast
  qed
  moreover have "htab_map h2 k = Some d"
    by (rule map_live [OF ok2 t(1) refl, of h]) (use lv hl in \<open>simp_all add: e'_def\<close>)
  moreover have "\<not> htab_ok h2" using t(1,3) c ts(3) by (simp add: htab_ok_def)
  ultimately show ?thesis using s en h_def by auto
qed

text \<open>A failed copy of the key leaves a slot in use that has no key.\<close>

lemma nomem_run:
  assumes ok: "htab_ok htab" "0 < never_used htab" and k: "htab_map htab k = None" and s0: "strdup hk k = None"
  shows "\<exists>htab'. hsearch_r hk k (Some d) ENTER htab flag = Some (0, Some ENOMEM, None, htab')
           \<and> hsearch_r hk' k d' FIND htab' flag' = None"
proof -
  from htab_okE [OF ok(1)] obtain ts where ts: "table htab = Some ts" "slots_ok ts (hsize htab)" "filled htab = count_used ts" .
  define h where "h = first_index (hsize htab) k"
  have sz: "prime_size (hsize htab)" "3 < hsize htab" "length ts = hsize htab + 1" using slots_okD [OF ts(2)] by simp_all
  then have "1 < hsize htab" by linarith
  from first_index_range [OF this] have hr: "1 \<le> h" "h \<le> hsize htab" unfolding h_def by blast+
  from never_used_probe [OF ts(1,2) ok(2) h_def] obtain z xs where
    z: "dropWhile (\<lambda>x. used (ts ! x) \<noteq> 0) (probes (hsize htab) h) = z # xs" "used (ts ! z) = 0"
      "1 \<le> z" "z \<le> hsize htab" "reachable ts (hsize htab) k z" .
  define i where "i = (if used (ts ! h) = - 1 then h else z)"
  have rh: "reachable ts (hsize htab) k h"
    unfolding reachable_def h_def [symmetric] probes_Cons [OF hr]
    by (intro exI [of _ "[]"] exI [of _ "map (nth_probe (hsize htab) h (second_hash (hsize htab) h)) [Suc 0..<hsize htab]"])
      simp
  have i: "reachable ts (hsize htab) k i" "i < length ts" using hr z rh sz(3) by (simp_all add: i_def)
  define e where "e = \<lparr>used = int h, key = None, data = strdup hk d\<rparr>"
  define h1 where "h1 = set_slot htab i e"
  have nf: "filled htab \<noteq> hsize htab" using count_never [OF ts(1,2)] ok(2) ts(3) by simp
  have s: "hsearch_r hk k (Some d) ENTER htab flag = Some (0, Some ENOMEM, None, h1)"
    unfolding search_absent [OF ts(1,2) k h_def] finish_def h_def [symmetric] z(1)
    using nf s0 by (simp add: enter_new_def Let_def h1_def e_def i_def)
  have t: "table h1 = Some (ts[i := e])" "hsize h1 = hsize htab" using ts(1) by (simp_all add: h1_def)
  from i(1) obtain pre post where p: "probes (hsize htab) h = pre @ i # post" "\<forall>x\<in>set pre. used (ts ! x) \<noteq> 0"
    unfolding reachable_def h_def by blast
  have ni: "i \<notin> set pre" using distinct_probes [OF sz(1,2), of h] p(1) by auto
  have pre: "\<exists>e'. slot h1 x = Some e' \<and> used e' \<noteq> 0 \<and> (used e' = int h \<longrightarrow> (\<exists>k'. key e' = Some k' \<and> k' \<noteq> k))"
    if x: "x \<in> set pre" for x
  proof -
    have xl: "x < length ts" using x p(1) probes_bounds [OF ts(2), of h] by auto
    have xi: "ts[i := e] ! x = ts ! x" using x ni by (metis nth_list_update_neq)
    have "\<exists>k'. key (ts ! x) = Some k' \<and> k' \<noteq> k" if u: "used (ts ! x) = int h"
    proof -
      have l: "live ts x" using u hr xl by (simp add: live_def)
      from slots_okD(5) [OF ts(2) l] obtain k' where "key (ts ! x) = Some k'" by blast
      then show ?thesis using map_None_iff [OF ts(2,1), of k] k l by auto
    qed
    then show ?thesis using xl xi x p(2) t(1) by (simp add: slot_def)
  qed
  have "compare_and_overwrite_entry hk' k d' FIND h1 flag' h i = None"
    using t(1) i(2) by (simp add: compare_and_overwrite_entry_def slot_def e_def)
  then have "scan hk' k d' FIND h1 flag' h (probes (hsize h1) h) = None"
    unfolding t(2) p(1) by (subst scan_prefix) (use pre in simp_all)
  then have "hsearch_r hk' k d' FIND h1 flag' = None"
    using hsearch_scan [of h1 "ts[i := e]" h k hk' d' FIND flag'] t sz h_def by simp
  then show ?thesis using s by blast
qed


section \<open>Two small tables\<close>

definition demo_hooks :: hooks where
  "demo_hooks = \<lparr>change_ok = \<lambda>_ _ _ _ _. False, callback = \<lambda>_ _ _ _. False, strdup = Some\<rparr>"

definition no_memory :: hooks where
  "no_memory = \<lparr>change_ok = \<lambda>_ _ _ _ _. False, callback = \<lambda>_ _ _ _. False, strdup = \<lambda>_. None\<rparr>"

definition freed_entry :: ENTRY where
  "freed_entry = \<lparr>used = - 1, key = None, data = None\<rparr>"

text \<open>Three keys with the first index 4, in the slots 4, 2 and 5.\<close>

definition demo_htab :: hsearch_data where
  "demo_htab = \<lparr>table = Some [empty_entry, empty_entry, \<lparr>used = 4, key = Some [103], data = Some [49]\<rparr>, empty_entry,
     \<lparr>used = 4, key = Some [98], data = Some [48]\<rparr>, \<lparr>used = 4, key = Some [108], data = Some [50]\<rparr>], hsize = 5, filled = 3\<rparr>"

text \<open>One key, and four slots that held entries before.\<close>

definition worn_htab :: hsearch_data where
  "worn_htab = \<lparr>table = Some [empty_entry, freed_entry, freed_entry, freed_entry,
     \<lparr>used = 4, key = Some [98], data = Some [48]\<rparr>, freed_entry], hsize = 5, filled = 1\<rparr>"

lemma copies_demo: "copies demo_hooks" by (simp add: copies_def demo_hooks_def)

lemma demo_htab_ok: "htab_ok demo_htab" by code_simp

lemma worn_htab_ok: "htab_ok worn_htab" by code_simp

section \<open>Properties\<close>



text \<open> C12. As long as one slot was never used, entering a variable keeps the table well formed, and
  either the change is refused and no variable changes, or the variable has the new value
  and no other variable changes.\<close>

theorem hsearch_enter_correct:
  assumes "htab_ok htab" "copies hk" "0 < never_used htab"
  shows "\<exists>r err rv htab'. hsearch_r hk k (Some d) ENTER htab flag = Some (r, err, rv, htab') \<and> htab_ok htab'
           \<and> never_used htab \<le> never_used htab' + 1
           \<and> (if refuses hk htab k d flag then r = 0 \<and> (err = Some EPERM \<or> err = Some EINVAL) \<and> htab_map htab' = htab_map htab
              else 0 < r \<and> err = None \<and> htab_map htab' = (htab_map htab)(k \<mapsto> d))"
  using assms by (rule enter_law)

theorem hsearch_enter_correct_witness:
  "\<exists>r err rv htab'. hsearch_r demo_hooks [100] (Some [51]) ENTER demo_htab 0 = Some (r, err, rv, htab') \<and> htab_ok htab'
     \<and> htab_map htab' = (htab_map demo_htab)([100] \<mapsto> [51])"
proof -
  have "0 < never_used demo_htab" by code_simp
  moreover have "\<not> refuses demo_hooks demo_htab [100] [51] 0" by (simp add: refuses_def demo_hooks_def split: option.splits)
  ultimately show ?thesis
    using hsearch_enter_correct [OF demo_htab_ok copies_demo, where k = "[100]" and d = "[51]" and flag = 0] by auto
qed

text \<open> C13. Finding a variable ends, changes nothing, and finds the slot of the variable, with its value,
  exactly when the table has the variable.\<close>

theorem hsearch_find_correct:
  assumes "htab_ok htab"
  shows "case htab_map htab k of
      None \<Rightarrow> hsearch_r hk k d FIND htab flag = Some (0, Some ESRCH, None, htab)
    | Some v \<Rightarrow> (\<exists>i e. hsearch_r hk k d FIND htab flag = Some (int i, None, Some i, htab) \<and> 1 \<le> i \<and> i \<le> hsize htab
             \<and> slot htab i = Some e \<and> key e = Some k \<and> data e = Some v \<and> 0 < used e)"
  using find_absent [OF assms] find_present [OF assms] by (simp split: option.split)

theorem hsearch_find_correct_witness:
  "htab_map demo_htab [108] = Some [50]
   \<and> (\<exists>i e. hsearch_r demo_hooks [108] None FIND demo_htab 0 = Some (int i, None, Some i, demo_htab) \<and> data e = Some [50]
        \<and> slot demo_htab i = Some e)"
proof -
  have m: "htab_map demo_htab [108] = Some [50]" by code_simp
  show ?thesis using hsearch_find_correct [OF demo_htab_ok, where k = "[108]" and hk = demo_hooks and d = None and flag = 0] m by auto
qed

text \<open> C14. Deleting a variable keeps the table well formed and the number of free slots; either it is
  refused and nothing changes, or exactly that variable is gone.\<close>

theorem hdelete_correct:
  assumes "htab_ok htab"
  shows "\<exists>r err htab'. hdelete_r hk k htab flag = Some (r, err, htab') \<and> htab_ok htab'
           \<and> never_used htab' = never_used htab
           \<and> (if refuses_delete hk htab k flag then r = 0 \<and> err \<noteq> None \<and> htab' = htab
              else r = 1 \<and> err = None \<and> htab_map htab' = (htab_map htab)(k := None))"
  using assms by (rule hdelete_law)

theorem hdelete_correct_witness:
  "\<exists>r err htab'. hdelete_r demo_hooks [98] demo_htab 0 = Some (r, err, htab') \<and> htab_ok htab'
     \<and> htab_map htab' = (htab_map demo_htab)([98] := None)"
proof -
  have "htab_map demo_htab [98] \<noteq> None" by code_simp
  then have "\<not> refuses_delete demo_hooks demo_htab [98] 0" by (simp add: refuses_delete_def demo_hooks_def)
  then show ?thesis using hdelete_correct [OF demo_htab_ok, where hk = demo_hooks and k = "[98]" and flag = 0] by auto
qed

text \<open> C35. Once every slot has been used, entering a new variable whose first slot holds another variable
  replaces that variable, although deleted slots are left: the other variable is lost and the
  count of the entries is wrong.\<close>

theorem enter_loses_variable:
  assumes "htab_ok htab" "copies hk" "htab_map htab k = None" "never_used htab = 0" "filled htab < hsize htab"
    and "slot htab (first_index (hsize htab) k) = Some e" "0 < used e" "key e = Some k0" "\<not> refuses hk htab k d flag"
  shows "\<exists>htab'. hsearch_r hk k (Some d) ENTER htab flag = Some (1, None, Some (first_index (hsize htab) k), htab')
           \<and> htab_map htab k0 \<noteq> None \<and> htab_map htab' k0 = None \<and> htab_map htab' k = Some d \<and> \<not> htab_ok htab'"
  using assms by (rule saturated_run)

theorem enter_loses_variable_witness:
  "\<exists>htab'. hsearch_r demo_hooks [103] (Some [51]) ENTER worn_htab 0 = Some (1, None, Some 4, htab')
     \<and> htab_map worn_htab [98] \<noteq> None \<and> htab_map htab' [98] = None \<and> htab_map htab' [103] = Some [51] \<and> \<not> htab_ok htab'"
proof -
  have a: "htab_map worn_htab [103] = None" "never_used worn_htab = 0" "filled worn_htab < hsize worn_htab"
    by code_simp+
  have b: "first_index (hsize worn_htab) [103] = 4" by code_simp
  have c: "slot worn_htab (first_index (hsize worn_htab) [103]) = Some \<lparr>used = 4, key = Some [98], data = Some [48]\<rparr>"
    unfolding b by (simp add: slot_def worn_htab_def)
  have d: "\<not> refuses demo_hooks worn_htab [103] [51] 0" using a(1) by (simp add: refuses_def demo_hooks_def)
  show ?thesis using enter_loses_variable [OF worn_htab_ok copies_demo a c _ _ d] b by simp
qed

text \<open> When the copy of the name fails, the new slot stays in use without a name, and the next
  search for that variable reads through the null pointer.\<close>

theorem enter_without_memory:
  assumes "htab_ok htab" "0 < never_used htab" "htab_map htab k = None" "strdup hk k = None"
  shows "\<exists>htab'. hsearch_r hk k (Some d) ENTER htab flag = Some (0, Some ENOMEM, None, htab')
           \<and> hsearch_r hk' k d' FIND htab' flag' = None"
  using assms by (rule nomem_run)

theorem enter_without_memory_witness:
  "\<exists>htab'. hsearch_r no_memory [100] (Some [51]) ENTER demo_htab 0 = Some (0, Some ENOMEM, None, htab')
     \<and> hsearch_r demo_hooks [100] None FIND htab' 0 = None"
proof -
  have a: "0 < never_used demo_htab" "htab_map demo_htab [100] = None" by code_simp+
  have b: "strdup no_memory [100] = None" by (simp add: no_memory_def)
  show ?thesis by (rule enter_without_memory [OF demo_htab_ok a b])
qed

text \<open> Matching names by a prefix visits the slots after the last one in order, but never the last
  slot of the table: a variable that is only there is not found.\<close>

theorem hmatch_misses_last_slot:
  assumes "htab_ok htab" "last_idx < hsize htab" "matches m htab (hsize htab)"
    and "\<forall>i\<in>{last_idx<..<hsize htab}. \<not> matches m htab i"
  shows "hmatch_r m last_idx htab = Some (0, None)"
proof -
  have "filter (matches m htab) [last_idx + 1..<hsize htab] = []" using assms(4) by (auto simp: filter_empty_conv)
  then show ?thesis using hmatch_run [OF assms(1,2), of m] by simp
qed

theorem hmatch_misses_last_slot_witness:
  "hmatch_r [108] 0 demo_htab = Some (0, None) \<and> htab_map demo_htab [108] = Some [50]"
proof
  have "\<forall>i\<in>{0<..<hsize demo_htab}. \<not> matches [108] demo_htab i" by code_simp
  moreover have "0 < hsize demo_htab" "matches [108] demo_htab (hsize demo_htab)" by code_simp+
  ultimately show "hmatch_r [108] 0 demo_htab = Some (0, None)" using hmatch_misses_last_slot [OF demo_htab_ok] by blast
  show "htab_map demo_htab [108] = Some [50]" by code_simp
qed

end
