(* ===== verification/Qsort.thy ===== *)
theory Qsort
  imports UBoot_Prelude "HOL-Library.Multiset"
begin

text \<open>
  The shell sort of \<^verbatim>\<open>lib/qsort.c\<close>.  The code works on bytes and scales the gap and the number of
  elements by the width of an element; here the positions count elements and a swap exchanges two
  elements.  The first gap is one of 1, 4, 13, 40, and so on, so that the division of the scaled gap
  by three leaves no rest.

  The comparison is any function whose results order the elements it is used on.
\<close>

section \<open>Definitions\<close>

function first_gap :: "nat \<Rightarrow> nat \<Rightarrow> nat" where
  "first_gap nel wgap = (let g = 3 * wgap + 1 in if g < (nel - 1) div 3 then first_gap nel g else g)"
  by pat_completeness auto
termination by (relation "measure (\<lambda>(n, g). n - g)") auto

declare first_gap.simps [simp del]

definition swap_at :: "'a list \<Rightarrow> nat \<Rightarrow> nat \<Rightarrow> 'a list" where
  "swap_at xs a b = xs[a := xs ! b, b := xs ! a]"

text \<open>The innermost loop.  The loop is entered with \<open>0 < gap \<le> j\<close>.\<close>

function sift :: "('a \<Rightarrow> 'a \<Rightarrow> int) \<Rightarrow> nat \<Rightarrow> nat \<Rightarrow> 'a list \<Rightarrow> 'a list" where
  "sift cmp gap j xs =
     (if gap = 0 \<or> j < gap then xs
      else let j' = j - gap
           in if cmp (xs ! j') (xs ! (j' + gap)) \<le> 0 then xs
              else sift cmp gap j' (swap_at xs j' (j' + gap)))"
  by pat_completeness auto
termination by (relation "measure (\<lambda>(_, _, j, _). j)") auto

declare sift.simps [simp del]

definition gap_pass :: "('a \<Rightarrow> 'a \<Rightarrow> int) \<Rightarrow> nat \<Rightarrow> 'a list \<Rightarrow> 'a list" where
  "gap_pass cmp gap xs = fold (sift cmp gap) [gap..<length xs] xs"

function shell_passes :: "('a \<Rightarrow> 'a \<Rightarrow> int) \<Rightarrow> nat \<Rightarrow> 'a list \<Rightarrow> 'a list" where
  "shell_passes cmp gap xs =
     (let xs' = gap_pass cmp gap xs; gap' = (gap - 1) div 3
      in if gap' \<noteq> 0 then shell_passes cmp gap' xs' else xs')"
  by pat_completeness auto
termination by (relation "measure (\<lambda>(_, g, _). g)") auto

declare shell_passes.simps [simp del]

definition qsort :: "('a \<Rightarrow> 'a \<Rightarrow> int) \<Rightarrow> 'a list \<Rightarrow> 'a list" where
  "qsort cmp xs = (if 1 < length xs then shell_passes cmp (first_gap (length xs) 0) xs else xs)"

section \<open>A sort keeps the elements\<close>

lemma mset_sift: "j < length xs \<Longrightarrow> mset (sift cmp gap j xs) = mset xs \<and> length (sift cmp gap j xs) = length xs"
proof (induction cmp gap j xs rule: sift.induct)
  case (1 cmp gap j xs)
  show ?case
  proof (cases "gap = 0 \<or> j < gap \<or> cmp (xs ! (j - gap)) (xs ! (j - gap + gap)) \<le> 0")
    case True then show ?thesis by (subst (1 2) sift.simps) (auto simp: Let_def)
  next
    case False
    then have f: "gap \<noteq> 0" "\<not> j < gap" "\<not> cmp (xs ! (j - gap)) (xs ! (j - gap + gap)) \<le> 0" by auto
    define ys where "ys = swap_at xs (j - gap) (j - gap + gap)"
    have l: "length ys = length xs" by (simp add: ys_def swap_at_def)
    have m: "mset ys = mset xs" unfolding ys_def swap_at_def using f "1.prems" by (intro mset_swap) simp_all
    have s: "sift cmp gap j xs = sift cmp gap (j - gap) ys"
      using f by (subst sift.simps) (simp add: Let_def ys_def)
    have "mset (sift cmp gap (j - gap) ys) = mset ys \<and> length (sift cmp gap (j - gap) ys) = length ys"
      unfolding ys_def using f "1.prems" by (intro "1.IH") (auto simp: swap_at_def)
    then show ?thesis using s l m by simp
  qed
qed

lemma mset_fold_sift:
  "\<forall>i\<in>set is. i < length xs \<Longrightarrow> mset (fold (sift cmp gap) is xs) = mset xs \<and> length (fold (sift cmp gap) is xs) = length xs"
proof (induction "is" arbitrary: xs)
  case (Cons i "is")
  have s: "mset (sift cmp gap i xs) = mset xs" "length (sift cmp gap i xs) = length xs"
    using mset_sift [of i xs cmp gap] Cons.prems by simp_all
  then show ?case using Cons.IH [of "sift cmp gap i xs"] Cons.prems by simp
qed simp

lemma mset_gap_pass: "mset (gap_pass cmp gap xs) = mset xs" "length (gap_pass cmp gap xs) = length xs"
  using mset_fold_sift [of "[gap..<length xs]" xs cmp gap] by (simp_all add: gap_pass_def)

section \<open>The last pass sorts\<close>

text \<open>Inserting from the right, which is the pass with gap 1.\<close>

fun ins :: "('a \<Rightarrow> 'a \<Rightarrow> int) \<Rightarrow> 'a \<Rightarrow> 'a list \<Rightarrow> 'a list" where
  "ins cmp x [] = [x]"
| "ins cmp x (y # ys) = (if cmp y x \<le> 0 then x # y # ys else y # ins cmp x ys)"

lemma sift_one: "sift cmp 1 (length p) (rev p @ x # q) = rev (ins cmp x p) @ q"
proof (induction p arbitrary: q)
  case Nil then show ?case by (subst sift.simps) simp
next
  case (Cons y p)
  have n: "(rev (y # p) @ x # q) ! length p = y" "(rev (y # p) @ x # q) ! Suc (length p) = x"
    by (simp_all add: nth_append)
  have sw: "swap_at (rev (y # p) @ x # q) (length p) (Suc (length p)) = rev p @ x # y # q"
    unfolding swap_at_def n by (simp add: list_update_append)
  show ?case
  proof (cases "cmp y x \<le> 0")
    case True then show ?thesis by (subst sift.simps) (use n in simp)
  next
    case False
    then have "sift cmp 1 (length (y # p)) (rev (y # p) @ x # q) = sift cmp 1 (length p) (rev p @ x # y # q)"
      by (subst sift.simps) (use n sw in \<open>simp add: Let_def\<close>)
    then show ?thesis using Cons.IH [of "y # q"] False by simp
  qed
qed

lemma fold_sift_one:
  "length p + length q = n \<Longrightarrow> fold (sift cmp 1) [length p..<n] (rev p @ q) = rev (fold (ins cmp) q p)"
proof (induction q arbitrary: p)
  case (Cons x q)
  have up: "[length p..<n] = length p # [length (ins cmp x p)..<n]"
  proof -
    have "length (ins cmp x p) = Suc (length p)" by (induction p) auto
    then show ?thesis using Cons.prems by (simp add: upt_conv_Cons)
  qed
  have li: "length (ins cmp x p) + length q = n"
  proof -
    have "length (ins cmp x p) = Suc (length p)" by (induction p) auto
    then show ?thesis using Cons.prems by simp
  qed
  show ?case using Cons.IH [OF li] sift_one [of cmp p x q] by (simp add: up)
qed simp

lemma gap_pass_one:
  assumes "1 < length xs" shows "gap_pass cmp 1 xs = rev (fold (ins cmp) xs [])"
proof -
  obtain x ys where xs: "xs = x # ys" using assms by (cases xs) auto
  have "fold (sift cmp 1) [length [x]..<length xs] (rev [x] @ ys) = rev (fold (ins cmp) ys [x])"
    by (rule fold_sift_one) (simp add: xs)
  then show ?thesis by (simp add: gap_pass_def xs)
qed

text \<open>The gaps.\<close>

fun nth_gap :: "nat \<Rightarrow> nat" where
  "nth_gap 0 = 1"
| "nth_gap (Suc k) = 3 * nth_gap k + 1"

lemma nth_gap_pos: "0 < nth_gap k" by (induction k) auto

lemma first_gap_loop:
  assumes "1 < nel" "wgap = 0 \<or> (\<exists>k. wgap = nth_gap k \<and> wgap < (nel - 1) div 3)"
  shows "\<exists>k. first_gap nel wgap = nth_gap k \<and> nth_gap k < nel"
  using assms
proof (induction nel wgap rule: first_gap.induct)
  case (1 nel wgap)
  have g: "\<exists>k. 3 * wgap + 1 = nth_gap k"
    using "1.prems"(2)
  proof
    assume "wgap = 0" then show ?thesis by (intro exI [of _ 0]) simp
  next
    assume "\<exists>k. wgap = nth_gap k \<and> wgap < (nel - 1) div 3"
    then obtain k where "wgap = nth_gap k" by blast
    then show ?thesis by (intro exI [of _ "Suc k"]) simp
  qed
  show ?case
  proof (cases "3 * wgap + 1 < (nel - 1) div 3")
    case True
    have "\<exists>k. first_gap nel (3 * wgap + 1) = nth_gap k \<and> nth_gap k < nel"
      by (rule "1.IH" [OF refl True "1.prems"(1)]) (use g True in auto)
    then show ?thesis using True by (subst first_gap.simps) (simp add: Let_def)
  next
    case False
    moreover have "3 * wgap + 1 < nel" using "1.prems" by (auto simp: algebra_simps)
    ultimately show ?thesis using g by (subst first_gap.simps) (auto simp: Let_def)
  qed
qed

lemma shell_passes_last: "\<exists>ys. mset ys = mset xs \<and> shell_passes cmp (nth_gap k) xs = gap_pass cmp 1 ys"
proof (induction k arbitrary: xs)
  case 0 then show ?case by (subst shell_passes.simps) auto
next
  case (Suc k)
  define ys where "ys = gap_pass cmp (nth_gap (Suc k)) xs"
  have "shell_passes cmp (nth_gap (Suc k)) xs = shell_passes cmp (nth_gap k) ys"
    using nth_gap_pos [of k] by (subst shell_passes.simps) (simp add: Let_def ys_def)
  then show ?case using Suc.IH [of ys] mset_gap_pass(1) [of cmp "nth_gap (Suc k)" xs] ys_def by auto
qed

lemma qsort_run:
  assumes "1 < length xs"
  shows "\<exists>ys. mset ys = mset xs \<and> qsort cmp xs = rev (fold (ins cmp) ys [])"
proof -
  from first_gap_loop [OF assms, of 0] obtain k where "first_gap (length xs) 0 = nth_gap k" by auto
  then have "qsort cmp xs = shell_passes cmp (nth_gap k) xs" using assms by (simp add: qsort_def)
  moreover obtain ys where "mset ys = mset xs" "shell_passes cmp (nth_gap k) xs = gap_pass cmp 1 ys"
    using shell_passes_last by blast
  moreover have "1 < length ys" using assms \<open>mset ys = mset xs\<close> by (metis size_mset)
  ultimately show ?thesis using gap_pass_one by metis
qed

lemma mset_ins: "mset (ins cmp x ys) = add_mset x (mset ys)" by (induction ys) auto

lemma mset_fold_ins: "mset (fold (ins cmp) xs ys) = mset xs + mset ys"
  by (induction xs arbitrary: ys) (simp_all add: mset_ins)

lemma mset_qsort: "mset (qsort cmp xs) = mset xs"
proof (cases "1 < length xs")
  case True
  from qsort_run [OF True, of cmp] obtain ys where "mset ys = mset xs" "qsort cmp xs = rev (fold (ins cmp) ys [])" by blast
  then show ?thesis using mset_fold_ins [of cmp ys "[]"] by simp
qed (simp add: qsort_def)

lemma set_qsort: "set (qsort cmp xs) = set xs" by (metis mset_qsort set_mset_mset)

lemma length_qsort: "length (qsort cmp xs) = length xs" by (metis mset_qsort size_mset)

lemma distinct_qsort_map: "distinct (map f (qsort cmp xs)) \<longleftrightarrow> distinct (map f xs)"
  by (metis mset_map mset_qsort mset_eq_imp_distinct_iff)

text \<open>A comparison function that orders the elements with the property \<open>dom0\<close>.\<close>

locale comparison =
  fixes cmp :: "'a \<Rightarrow> 'a \<Rightarrow> int" and dom0 :: "'a \<Rightarrow> bool"
  assumes total: "dom0 a \<Longrightarrow> dom0 b \<Longrightarrow> cmp a b \<le> 0 \<or> cmp b a \<le> 0"
    and trans: "dom0 a \<Longrightarrow> dom0 b \<Longrightarrow> dom0 c \<Longrightarrow> cmp a b \<le> 0 \<Longrightarrow> cmp b c \<le> 0 \<Longrightarrow> cmp a c \<le> 0"
begin

lemma sorted_ins:
  assumes "sorted_wrt (\<lambda>a b. cmp b a \<le> 0) ys" "dom0 x" "\<forall>y\<in>set ys. dom0 y"
  shows "sorted_wrt (\<lambda>a b. cmp b a \<le> 0) (ins cmp x ys)"
  using assms
proof (induction ys)
  case (Cons y ys)
  have si: "set (ins cmp x ys) = insert x (set ys)" by (metis mset_ins set_mset_add_mset_insert set_mset_mset)
  show ?case
  proof (cases "cmp y x \<le> 0")
    case True
    have "cmp z x \<le> 0" if "z \<in> set ys" for z
      using trans [of z y x] that True Cons.prems by auto
    then show ?thesis using True Cons.prems by simp
  next
    case False
    then have "cmp x y \<le> 0" using total [of x y] Cons.prems by auto
    then show ?thesis using False Cons si by simp
  qed
qed simp

lemma sorted_fold_ins:
  "sorted_wrt (\<lambda>a b. cmp b a \<le> 0) ys \<Longrightarrow> \<forall>x\<in>set xs \<union> set ys. dom0 x \<Longrightarrow> sorted_wrt (\<lambda>a b. cmp b a \<le> 0) (fold (ins cmp) xs ys)"
proof (induction xs arbitrary: ys)
  case (Cons x xs)
  have si: "set (ins cmp x ys) = insert x (set ys)" by (metis mset_ins set_mset_add_mset_insert set_mset_mset)
  have "sorted_wrt (\<lambda>a b. cmp b a \<le> 0) (ins cmp x ys)" using Cons.prems by (intro sorted_ins) auto
  then show ?case using Cons.IH [of "ins cmp x ys"] Cons.prems(2) si by auto
qed simp

lemma sorted_qsort:
  assumes "\<forall>x\<in>set xs. dom0 x" shows "sorted_wrt (\<lambda>a b. cmp a b \<le> 0) (qsort cmp xs)"
proof (cases "1 < length xs")
  case True
  from qsort_run [OF True, of cmp] obtain ys where y: "mset ys = mset xs" "qsort cmp xs = rev (fold (ins cmp) ys [])" by blast
  have "\<forall>x\<in>set ys \<union> set []. dom0 x" using y(1) assms by (metis mset_eq_setD list.set(1) sup_bot_right)
  from sorted_fold_ins [OF _ this] y(2) show ?thesis by (simp add: sorted_wrt_rev)
next
  case False
  then show ?thesis by (cases xs) (auto simp: qsort_def)
qed

end

end
