(* ===== verification/Hash_Export.thy ===== *)
theory Hash_Export
  imports Hashtable Qsort C_Ctype
begin

text \<open>
  Writing a hash table as text and reading it back: \<^verbatim>\<open>hexport_r\<close> and \<^verbatim>\<open>himport_r\<close> of
  \<^verbatim>\<open>lib/hashtable.c\<close>.  This is how the environment is saved, restored and printed.

  \<^verbatim>\<open>himport_r\<close> writes terminators into its own copy of the text and moves values to the left while
  it removes escapes.  All of that happens behind the position \<^verbatim>\<open>dp\<close> from which it reads on, so
  the model keeps the bytes from \<^verbatim>\<open>dp\<close> to the end of the copy, and reading or going past the end
  of the copy is \<^const>\<open>None\<close>.
\<close>

unbundle bit_operations_syntax

section \<open>Definitions\<close>

definition H_NOCLEAR :: int where "H_NOCLEAR = 1"
definition H_HIDE_DOT :: int where "H_HIDE_DOT = 8"
definition H_MATCH_KEY :: int where "H_MATCH_KEY = 16"
definition H_MATCH_DATA :: int where "H_MATCH_DATA = 32"
definition H_MATCH_IDENT :: int where "H_MATCH_IDENT = 64"
definition H_MATCH_SUBSTR :: int where "H_MATCH_SUBSTR = 128"
definition H_MATCH_REGEX :: int where "H_MATCH_REGEX = 256"
definition H_MATCH_METHOD :: int where "H_MATCH_METHOD = (H_MATCH_IDENT OR H_MATCH_SUBSTR) OR H_MATCH_REGEX"

text \<open>\<^verbatim>\<open>strcmp\<close> on the bytes before the NUL: the difference is read as a \<^verbatim>\<open>signed char\<close>.\<close>

fun strcmp_text :: "ctext \<Rightarrow> ctext \<Rightarrow> int" where
  "strcmp_text [] [] = 0"
| "strcmp_text [] (y # ys) = sint (0 - y)"
| "strcmp_text (x # xs) [] = sint x"
| "strcmp_text (x # xs) (y # ys) = (let res = sint (x - y) in if res \<noteq> 0 then res else strcmp_text xs ys)"

text \<open>An entry of the list is its name and its value.\<close>

definition cmpkey :: "ctext \<times> ctext \<Rightarrow> ctext \<times> ctext \<Rightarrow> int" where
  "cmpkey e1 e2 = strcmp_text (fst e1) (fst e2)"

fun contains :: "ctext \<Rightarrow> ctext \<Rightarrow> bool" where
  "contains pat [] \<longleftrightarrow> pat = []"
| "contains pat (c # cs) \<longleftrightarrow> take (length pat) (c # cs) = pat \<or> contains pat cs"

text \<open>The regular expressions of \<^verbatim>\<open>lib/slre.c\<close>: whether a pattern compiles, and whether it
  matches a text.\<close>

record regex =
  slre_compile :: "ctext \<Rightarrow> bool"
  slre_match :: "ctext \<Rightarrow> ctext \<Rightarrow> bool"

definition match_string :: "regex \<Rightarrow> int \<Rightarrow> ctext \<Rightarrow> ctext \<Rightarrow> bool" where
  "match_string re flag str pat =
     (let m = flag AND H_MATCH_METHOD
      in if m = H_MATCH_IDENT then str = pat
         else if m = H_MATCH_SUBSTR then contains pat str
         else if m = H_MATCH_REGEX then slre_match re pat str
         else False)"

fun match_entry :: "regex \<Rightarrow> ctext \<times> ctext \<Rightarrow> int \<Rightarrow> ctext list \<Rightarrow> bool" where
  "match_entry re ep flag [] = False"
| "match_entry re ep flag (arg # args) =
     (if \<not> slre_compile re arg then False
      else if flag AND H_MATCH_KEY \<noteq> 0 \<and> match_string re flag (fst ep) arg then True
      else if flag AND H_MATCH_DATA \<noteq> 0 \<and> match_string re flag (snd ep) arg then True
      else match_entry re ep flag args)"

text \<open>Pass 1: the entries to export.  A slot in use without name or value is a null pointer.\<close>

fun export_list :: "regex \<Rightarrow> int \<Rightarrow> ctext list \<Rightarrow> ENTRY list \<Rightarrow> (ctext \<times> ctext) list option" where
  "export_list re flag args [] = Some []"
| "export_list re flag args (e # es) =
     (if used e > 0 then
        do { k \<leftarrow> key e;
             d \<leftarrow> data e;
             if args \<noteq> [] \<and> \<not> match_entry re (k, d) flag args then export_list re flag args es
             else if flag AND H_HIDE_DOT \<noteq> 0 \<and> k \<noteq> [] \<and> hd k = 46 then export_list re flag args es
             else do { l \<leftarrow> export_list re flag args es; Some ((k, d) # l) } }
      else export_list re flag args es)"

text \<open>The length that pass 1 counts for an entry.\<close>

fun counted_value :: "u8 \<Rightarrow> ctext \<Rightarrow> nat" where
  "counted_value sep [] = 0"
| "counted_value sep (c # cs) = 1 + (if c = sep \<or> c = 92 then 1 else 0) + counted_value sep cs"

definition counted_entry :: "u8 \<Rightarrow> ctext \<times> ctext \<Rightarrow> nat" where
  "counted_entry sep kd = length (fst kd) + (if sep = 0 then length (snd kd) else counted_value sep (snd kd)) + 2"

definition totlen :: "u8 \<Rightarrow> (ctext \<times> ctext) list \<Rightarrow> nat" where
  "totlen sep l = sum_list (map (counted_entry sep) l)"

text \<open>Pass 2: the bytes written.\<close>

fun escaped :: "u8 \<Rightarrow> ctext \<Rightarrow> u8 list" where
  "escaped sep [] = []"
| "escaped sep (c # cs) = (if c = sep \<or> c = 92 then 92 # c # escaped sep cs else c # escaped sep cs)"

fun export_bytes :: "u8 \<Rightarrow> (ctext \<times> ctext) list \<Rightarrow> u8 list" where
  "export_bytes sep [] = []"
| "export_bytes sep ((k, d) # l) = k @ 61 # escaped sep d @ sep # export_bytes sep l"

text \<open>Writing bytes into a buffer; past its end is \<^const>\<open>None\<close>.\<close>

definition put_bytes :: "u8 list \<Rightarrow> u8 list \<Rightarrow> u8 list option" where
  "put_bytes buf bs = (if length bs \<le> length buf then Some (bs @ drop (length bs) buf) else None)"

definition clear_bytes :: "u8 list \<Rightarrow> nat \<Rightarrow> u8 list option" where
  "clear_bytes buf n = put_bytes buf (replicate n 0)"

text \<open>\<open>resp\<close> is the buffer of the caller; \<open>calloc_ok\<close>: an allocation succeeds.  The result is the
  returned size or -1, the error, and the buffer.\<close>

definition hexport_r :: "regex \<Rightarrow> bool \<Rightarrow> hsearch_data \<Rightarrow> u8 \<Rightarrow> int \<Rightarrow> u8 list option \<Rightarrow> nat \<Rightarrow> ctext list
    \<Rightarrow> (int \<times> errno option \<times> u8 list option) option" where
  "hexport_r re calloc_ok htab sep flag resp size0 args =
     do { ts \<leftarrow> table htab;
          l \<leftarrow> export_list re flag args (tl ts);
          let total = totlen sep l;
          let sorted_l = qsort cmpkey l;
          if size0 \<noteq> 0 \<and> size0 < total + 1 then Some (- 1, Some ENOMEM, resp)
          else do {
            let sz = (if size0 \<noteq> 0 then size0 else total);
            case resp of
              None \<Rightarrow> if \<not> calloc_ok then Some (- 1, Some ENOMEM, None)
                      else do { res \<leftarrow> put_bytes (replicate sz 0) (export_bytes sep sorted_l @ [0]);
                                Some (int sz, None, Some res) }
            | Some buf \<Rightarrow> do { b \<leftarrow> clear_bytes buf sz;
                               res \<leftarrow> put_bytes b (export_bytes sep sorted_l @ [0]);
                               Some (int sz, None, Some res) } } }"

fun drop_var_from_set :: "ctext \<Rightarrow> ctext option list \<Rightarrow> bool \<times> ctext option list" where
  "drop_var_from_set name vars =
     (if vars = [] then (True, vars)
      else (Some name \<in> set vars, map (\<lambda>v. if v = Some name then None else v) vars))"

text \<open>The parser of \<^verbatim>\<open>himport_r\<close>.\<close>

fun skip_blanks :: "u8 list \<Rightarrow> u8 list option" where
  "skip_blanks [] = None"
| "skip_blanks (c # cs) = (if isblank c then skip_blanks cs else Some (c # cs))"

fun skip_comment :: "u8 \<Rightarrow> u8 list \<Rightarrow> u8 list option" where
  "skip_comment sep [] = None"
| "skip_comment sep (c # cs) = (if c \<noteq> 0 \<and> c \<noteq> sep then skip_comment sep cs else Some cs)"

fun parse_name :: "u8 \<Rightarrow> u8 list \<Rightarrow> (ctext \<times> u8 list) option" where
  "parse_name sep [] = None"
| "parse_name sep (c # cs) =
     (if c \<noteq> 61 \<and> c \<noteq> 0 \<and> c \<noteq> sep then do { (n, r) \<leftarrow> parse_name sep cs; Some (c # n, r) } else Some ([], c # cs))"

fun parse_value :: "u8 \<Rightarrow> u8 list \<Rightarrow> (ctext \<times> u8 list) option" where
  "parse_value sep [] = None"
| "parse_value sep [c] = (if c \<noteq> 0 \<and> c \<noteq> sep then None else Some ([], []))"
| "parse_value sep (c # d # ds) =
     (if c \<noteq> 0 \<and> c \<noteq> sep then
        (if c = 92 \<and> d \<noteq> 0 then do { (v, r) \<leftarrow> parse_value sep ds; Some (d # v, r) }
         else do { (v, r) \<leftarrow> parse_value sep (d # ds); Some (c # v, r) })
      else Some ([], d # ds))"

datatype parsed = Comment | Delete ctext | Insert ctext ctext

definition parse_entry :: "u8 \<Rightarrow> u8 list \<Rightarrow> (parsed \<times> u8 list) option" where
  "parse_entry sep dp =
     do { dp \<leftarrow> skip_blanks dp;
          if hd dp = 35 then do { r \<leftarrow> skip_comment sep dp; Some (Comment, r) }
          else do { (name, r) \<leftarrow> parse_name sep dp;
            case r of [] \<Rightarrow> None
            | c # cs \<Rightarrow>
                if c = 0 then Some (Delete name, cs)
                else (case cs of [] \<Rightarrow> None
                  | d # ds \<Rightarrow>
                      if d = 0 \<or> c = sep \<or> d = sep then Some (Delete name, if c = 61 then ds else cs)
                      else do { (v, r') \<leftarrow> parse_value sep cs; Some (Insert name v, r') }) } }"

text \<open>What becomes of one entry.  \<open>Inl\<close> leaves the import with an error.\<close>

definition import_entry :: "hooks \<Rightarrow> int \<Rightarrow> ctext option list \<Rightarrow> hsearch_data \<Rightarrow> parsed
    \<Rightarrow> (errno + ctext option list \<times> hsearch_data) option" where
  "import_entry hk flag vars htab p =
     (case p of
        Comment \<Rightarrow> Some (Inr (vars, htab))
      | Delete name \<Rightarrow>
          (let (listed, vars') = drop_var_from_set name vars
           in if \<not> listed then Some (Inr (vars', htab))
              else do { (_, _, htab') \<leftarrow> hdelete_r hk name htab flag; Some (Inr (vars', htab')) })
      | Insert name v \<Rightarrow>
          if name = [] then Some (Inl EINVAL)
          else (let (listed, vars') = drop_var_from_set name vars
                in if \<not> listed then Some (Inr (vars', htab))
                   else do { (_, _, _, htab') \<leftarrow> hsearch_r hk name (Some v) ENTER htab flag;
                             Some (Inr (vars', htab')) }))"

lemma skip_blanks_length: "skip_blanks xs = Some r \<Longrightarrow> length r \<le> length xs \<and> r \<noteq> []"
  by (induction xs) (auto split: if_splits)

lemma skip_comment_length: "skip_comment sep xs = Some r \<Longrightarrow> length r < length xs"
  by (induction xs) (auto split: if_splits)

lemma parse_name_length: "parse_name sep xs = Some (n, r) \<Longrightarrow> length r \<le> length xs"
  by (induction xs arbitrary: n) (auto simp: bind_eq_Some_conv split: if_splits)

lemma parse_value_length: "parse_value sep xs = Some (v, r) \<Longrightarrow> length r < length xs"
  by (induction sep xs arbitrary: v rule: parse_value.induct)
     (fastforce simp: bind_eq_Some_conv split: if_splits)+

lemma parse_entry_length:
  assumes "parse_entry sep xs = Some (p, r)" shows "length r < length xs"
proof -
  from assms obtain dp where dp: "skip_blanks xs = Some dp" by (auto simp: parse_entry_def bind_eq_Some_conv)
  note l = skip_blanks_length [OF dp]
  show ?thesis
  proof (cases "hd dp = 35")
    case True
    then show ?thesis using assms dp l skip_comment_length
      by (fastforce simp: parse_entry_def bind_eq_Some_conv)
  next
    case False
    with assms dp obtain name q where q: "parse_name sep dp = Some (name, q)"
      by (auto simp: parse_entry_def bind_eq_Some_conv)
    have lq: "length q \<le> length dp" by (rule parse_name_length [OF q])
    obtain c cs where c: "q = c # cs" using assms dp False q by (cases q) (auto simp: parse_entry_def)
    show ?thesis
    proof (cases "\<exists>v. parse_value sep cs = Some (v, r)")
      case True
      then show ?thesis using parse_value_length lq l c by fastforce
    next
      case F: False
      then show ?thesis using assms dp False q lq l c
        by (auto simp: parse_entry_def bind_eq_Some_conv split: list.splits if_splits)
    qed
  qed
qed

text \<open>The loop; \<open>tail0\<close> bytes of the copy lie at or past \<^verbatim>\<open>data + size\<close>.\<close>

function himport_loop :: "hooks \<Rightarrow> u8 \<Rightarrow> int \<Rightarrow> nat \<Rightarrow> ctext option list \<Rightarrow> hsearch_data \<Rightarrow> u8 list
    \<Rightarrow> (errno \<times> hsearch_data + ctext option list \<times> hsearch_data) option" where
  "himport_loop hk sep flag tail0 vars htab dp =
     (case parse_entry sep dp of
        None \<Rightarrow> None
      | Some (p, r) \<Rightarrow>
          (case import_entry hk flag vars htab p of
             None \<Rightarrow> None
           | Some (Inl err) \<Rightarrow> Some (Inl (err, htab))
           | Some (Inr (vars', htab')) \<Rightarrow>
               if tail0 < length r \<and> hd r \<noteq> 0 then himport_loop hk sep flag tail0 vars' htab' r
               else Some (Inr (vars', htab'))))"
  by pat_completeness auto
termination by (relation "measure (\<lambda>(_, _, _, _, _, _, dp). length dp)") (auto dest: parse_entry_length)

declare himport_loop.simps [simp del]

text \<open>The removal of carriage returns, from the bytes below \<^verbatim>\<open>data + size\<close>: the bytes kept, and how
  many were ignored.\<close>

fun strip_crs :: "u8 list \<Rightarrow> u8 list \<times> nat" where
  "strip_crs [] = ([], 0)"
| "strip_crs (c # cs) =
     (if c = 0 then ([], 0)
      else if c = 13 \<and> cs \<noteq> [] \<and> hd cs = 10 then (let (k, n) = strip_crs cs in (k, n + 1))
      else (let (k, n) = strip_crs cs in (c # k, n)))"

text \<open>The variables that were asked for but not in the text.\<close>

fun delete_rest :: "hooks \<Rightarrow> int \<Rightarrow> ctext option list \<Rightarrow> hsearch_data \<Rightarrow> hsearch_data option" where
  "delete_rest hk flag [] htab = Some htab"
| "delete_rest hk flag (None # vs) htab = delete_rest hk flag vs htab"
| "delete_rest hk flag (Some v # vs) htab =
     do { (_, _, htab') \<leftarrow> hdelete_r hk v htab flag; delete_rest hk flag vs htab' }"

definition CONFIG_ENV_MIN_ENTRIES :: nat where "CONFIG_ENV_MIN_ENTRIES = 64"
definition CONFIG_ENV_MAX_ENTRIES :: nat where "CONFIG_ENV_MAX_ENTRIES = 512"

definition import_entries :: "nat \<Rightarrow> nat" where
  "import_entries size0 = (let nent = CONFIG_ENV_MIN_ENTRIES + size0 div 8
                           in if nent > CONFIG_ENV_MAX_ENTRIES then CONFIG_ENV_MAX_ENTRIES else nent)"

text \<open>\<open>env\<close> are the bytes at \<^verbatim>\<open>env\<close>; \<open>malloc_ok\<close> and \<open>calloc_ok\<close>: the allocation of the copy
  and of a new table succeed.\<close>

definition himport_r :: "hooks \<Rightarrow> bool \<Rightarrow> bool \<Rightarrow> hsearch_data \<Rightarrow> u8 list \<Rightarrow> nat \<Rightarrow> u8 \<Rightarrow> int \<Rightarrow> bool \<Rightarrow> ctext list
    \<Rightarrow> (int \<times> errno option \<times> hsearch_data) option" where
  "himport_r hk malloc_ok calloc_ok htab env size0 sep flag crlf_is_lf vars =
     (if \<not> malloc_ok then Some (0, Some ENOMEM, htab)
      else if length env < size0 then None
      else do {
        let dat = take size0 env @ [0];
        let h0 = (if flag AND H_NOCLEAR = 0 \<and> vars = [] \<and> table htab \<noteq> None then hdestroy_r htab else htab);
        (rc, h1) \<leftarrow> (if table h0 = None then hcreate_r calloc_ok (import_entries size0) h0 else Some (1, h0));
        if rc = 0 then Some (0, None, h1)
        else if size0 = 0 then Some (1, None, h1)
        else do {
          let (kept, n) = (if crlf_is_lf then strip_crs (take size0 env) else ([], 0));
          let dat' = kept @ drop (length kept) dat;
          r \<leftarrow> himport_loop hk sep flag (1 + n) (map Some vars) h1 dat';
          case r of
            Inl (err, h2) \<Rightarrow> Some (0, Some err, h2)
          | Inr (vars', h2) \<Rightarrow>
              if flag AND H_NOCLEAR \<noteq> 0 then Some (1, None, h2)
              else do { h3 \<leftarrow> delete_rest hk flag vars' h2; Some (1, None, h3) } } })"


section \<open>Comparing names\<close>

lemma strcmp_text_strcmp:
  "\<lbrakk>cstring m p s; cstring m q t\<rbrakk> \<Longrightarrow> strcmp m p q = Some (strcmp_text s t)"
proof (induction s t arbitrary: p q rule: strcmp_text.induct)
  case 1 then show ?case by (auto simp: cstring_Nil strcmp.simps [of m p] Let_def)
next
  case (2 y ys) then show ?case by (auto simp: cstring_Nil cstring_Cons strcmp.simps [of m p] Let_def)
next
  case (3 x xs) then show ?case by (auto simp: cstring_Nil cstring_Cons strcmp.simps [of m p] Let_def)
next
  case (4 x xs y ys)
  then show ?case using "4.IH" [of _ "p + 1" "q + 1"]
    by (auto simp: cstring_Cons strcmp.simps [of m p] Let_def)
qed

definition ascii :: "ctext \<Rightarrow> bool" where
  "ascii s \<longleftrightarrow> (\<forall>c\<in>set s. 0 < uint c \<and> uint c < 128)"

lemma sint_diff:
  fixes x y :: u8 assumes "uint x < 128" "uint y < 128" shows "sint (x - y) = uint x - uint y"
proof -
  have r: "- 128 \<le> uint x - uint y" "uint x - uint y < 128" using assms uint_ge_0 [of x] uint_ge_0 [of y] by linarith+
  have e: "x - y = word_of_int (uint x - uint y)" by simp
  have "sint (word_of_int (uint x - uint y) :: u8) = signed_take_bit 7 (uint x - uint y)"
    by (simp only: signed_of_int) simp
  also have "\<dots> = uint x - uint y"
    by (rule signed_take_bit_int_eq_self) (use r in simp_all)
  finally show ?thesis unfolding e .
qed


lemma ascii_Cons: "ascii (c # s) \<longleftrightarrow> 0 < uint c \<and> uint c < 128 \<and> ascii s"
  by (auto simp: ascii_def)

lemma strcmp_Nil_Cons: "ascii (y # ys) \<Longrightarrow> strcmp_text [] (y # ys) = - uint y"
  using sint_diff [of 0 y] by (simp add: ascii_Cons)

lemma strcmp_Cons_Nil: "ascii (x # xs) \<Longrightarrow> strcmp_text (x # xs) [] = uint x"
  using sint_diff [of x 0] by (simp add: ascii_Cons)

lemma strcmp_Cons_Cons:
  assumes "ascii (x # xs)" "ascii (y # ys)"
  shows "strcmp_text (x # xs) (y # ys) = (if x = y then strcmp_text xs ys else uint x - uint y)"
proof (cases "x = y")
  case False
  then have "uint x - uint y \<noteq> 0" by (simp add: word_uint_eq_iff)
  then show ?thesis using False assms sint_diff [of x y] by (simp add: ascii_Cons Let_def)
qed simp

lemmas strcmp_ascii = strcmp_Nil_Cons strcmp_Cons_Nil strcmp_Cons_Cons

lemma strcmp_total: "ascii s \<Longrightarrow> ascii t \<Longrightarrow> strcmp_text s t \<le> 0 \<or> strcmp_text t s \<le> 0"
proof (induction s arbitrary: t)
  case Nil then show ?case by (cases t) (simp_all add: strcmp_ascii del: strcmp_text.simps(2-4))
next
  case (Cons c s)
  show ?case
  proof (cases t)
    case Nil then show ?thesis using Cons.prems by (simp add: strcmp_ascii del: strcmp_text.simps(2-4))
  next
    case t: (Cons d t')
    show ?thesis using Cons.IH [of t'] Cons.prems
      by (auto simp: t strcmp_Cons_Cons ascii_Cons simp del: strcmp_text.simps(2-4))
  qed
qed

lemma strcmp_trans:
  "ascii s \<Longrightarrow> ascii t \<Longrightarrow> ascii u \<Longrightarrow> strcmp_text s t \<le> 0 \<Longrightarrow> strcmp_text t u \<le> 0 \<Longrightarrow> strcmp_text s u \<le> 0"
proof (induction s arbitrary: t u)
  case Nil then show ?case by (cases u) (simp_all add: strcmp_ascii del: strcmp_text.simps(2-4))
next
  case (Cons a s)
  obtain b t' where t: "t = b # t'" using Cons.prems
    by (cases t) (auto simp: strcmp_Cons_Nil ascii_Cons simp del: strcmp_text.simps(2-4))
  obtain c u' where u: "u = c # u'" using Cons.prems t
    by (cases u) (auto simp: strcmp_Cons_Nil ascii_Cons simp del: strcmp_text.simps(2-4))
  have st: "if a = b then strcmp_text s t' \<le> 0 else uint a \<le> uint b"
    using Cons.prems by (auto simp: t strcmp_Cons_Cons simp del: strcmp_text.simps(2-4) split: if_splits)
  have tu: "if b = c then strcmp_text t' u' \<le> 0 else uint b \<le> uint c"
    using Cons.prems by (auto simp: t u strcmp_Cons_Cons simp del: strcmp_text.simps(2-4) split: if_splits)
  have as: "ascii s" "ascii t'" "ascii u'" using Cons.prems by (simp_all add: t u ascii_Cons)
  have su: "strcmp_text (a # s) u = (if a = c then strcmp_text s u' else uint a - uint c)"
    using Cons.prems u by (simp add: strcmp_Cons_Cons del: strcmp_text.simps(2-4))
  show ?case
  proof (cases "a = b \<and> b = c")
    case True then show ?thesis using st tu su Cons.IH [OF as] by simp
  next
    case False
    have "uint a \<le> uint b" "uint b \<le> uint c" using st tu by (auto split: if_splits)
    moreover have "a \<noteq> c"
    proof
      assume "a = c"
      then have "uint a = uint b" using calculation by simp
      then show False using False \<open>a = c\<close> by (simp add: word_uint_eq_iff)
    qed
    ultimately show ?thesis using su by simp
  qed
qed

interpretation names: comparison cmpkey "\<lambda>e. ascii (fst e)"
proof
  fix a b c :: "ctext \<times> ctext"
  show "ascii (fst a) \<Longrightarrow> ascii (fst b) \<Longrightarrow> cmpkey a b \<le> 0 \<or> cmpkey b a \<le> 0"
    unfolding cmpkey_def by (rule strcmp_total)
  show "ascii (fst a) \<Longrightarrow> ascii (fst b) \<Longrightarrow> ascii (fst c) \<Longrightarrow> cmpkey a b \<le> 0 \<Longrightarrow> cmpkey b c \<le> 0 \<Longrightarrow> cmpkey a c \<le> 0"
    unfolding cmpkey_def by (rule strcmp_trans)
qed

section \<open>What is exported\<close>

definition pair_of :: "ENTRY \<Rightarrow> ctext \<times> ctext" where
  "pair_of e = (the (key e), the (data e))"

lemma export_list_all:
  "\<forall>e\<in>set es. used e > 0 \<longrightarrow> key e \<noteq> None \<and> data e \<noteq> None
   \<Longrightarrow> export_list re 0 [] es = Some (map pair_of (filter (\<lambda>e. used e > 0) es))"
  by (induction es) (auto simp: pair_of_def)

lemma set_tl_conv: "set (tl ts) = {ts ! i | i. 1 \<le> i \<and> i < length ts}"
proof (cases ts)
  case (Cons a as)
  show ?thesis unfolding Cons
  proof (intro set_eqI iffI)
    fix x assume "x \<in> set (tl (a # as))"
    then obtain j where "j < length as" "x = as ! j" by (auto simp: in_set_conv_nth)
    then show "x \<in> {(a # as) ! i | i. 1 \<le> i \<and> i < length (a # as)}" by (intro CollectI exI [of _ "Suc j"]) simp
  next
    fix x assume "x \<in> {(a # as) ! i | i. 1 \<le> i \<and> i < length (a # as)}"
    then show "x \<in> set (tl (a # as))" by (auto simp: nth_Cons' less_Suc_eq_0_disj)
  qed
qed simp

lemma export_list_table:
  assumes "htab_ok htab" "table htab = Some ts"
  obtains l where "export_list re 0 [] (tl ts) = Some l" "distinct (map fst l)"
    "\<And>k d. (k, d) \<in> set l \<longleftrightarrow> htab_map htab k = Some d" "length l = filled htab"
proof -
  have ok: "slots_ok ts (hsize htab)" "filled htab = count_used ts" using htab_okE [OF assms(1)] assms(2) by (metis option.inject)+
  have kd: "\<exists>k d. key (ts ! i) = Some k \<and> data (ts ! i) = Some d" if "live ts i" for i using slots_okD(5) [OF ok(1) that] by blast
  have all: "\<forall>e\<in>set (tl ts). used e > 0 \<longrightarrow> key e \<noteq> None \<and> data e \<noteq> None"
    unfolding set_tl_conv using kd by (force simp: live_def)
  define l where "l = map pair_of (filter (\<lambda>e. used e > 0) (tl ts))"
  have e: "export_list re 0 [] (tl ts) = Some l" unfolding l_def by (rule export_list_all [OF all])
  have s: "(k, d) \<in> set l \<longleftrightarrow> htab_map htab k = Some d" for k d
  proof -
    have "(k, d) \<in> set l \<longleftrightarrow> (\<exists>i. 1 \<le> i \<and> live ts i \<and> pair_of (ts ! i) = (k, d))"
    proof
      assume "(k, d) \<in> set l"
      then show "\<exists>i. 1 \<le> i \<and> live ts i \<and> pair_of (ts ! i) = (k, d)"
        unfolding l_def by (auto simp: set_tl_conv live_def)
    next
      assume "\<exists>i. 1 \<le> i \<and> live ts i \<and> pair_of (ts ! i) = (k, d)"
      then obtain i where i: "1 \<le> i" "live ts i" "pair_of (ts ! i) = (k, d)" by blast
      then have "ts ! i \<in> set (filter (\<lambda>e. used e > 0) (tl ts))" by (auto simp: set_tl_conv live_def)
      then have "pair_of (ts ! i) \<in> set l" unfolding l_def by simp
      then show "(k, d) \<in> set l" using i by simp
    qed
    also have "\<dots> \<longleftrightarrow> (\<exists>i. live ts i \<and> key (ts ! i) = Some k \<and> data (ts ! i) = Some d)"
      using kd live_pos [OF ok(1)] by (fastforce simp: pair_of_def)
    finally show ?thesis unfolding map_Some_iff [OF ok(1) assms(2)] .
  qed
  have d: "distinct (map fst l)"
  proof -
    have "distinct (map (\<lambda>i. fst (pair_of (ts ! i))) (filter (\<lambda>i. used (ts ! i) > 0) [1..<length ts]))"
    proof (subst distinct_map, intro conjI inj_onI)
      fix i j assume i: "i \<in> set (filter (\<lambda>i. used (ts ! i) > 0) [1..<length ts])"
        and j: "j \<in> set (filter (\<lambda>i. used (ts ! i) > 0) [1..<length ts])"
        and f: "fst (pair_of (ts ! i)) = fst (pair_of (ts ! j))"
      have li: "live ts i" "live ts j" using i j by (auto simp: live_def)
      have "key (ts ! i) = key (ts ! j)" using f kd [OF li(1)] kd [OF li(2)] by (auto simp: pair_of_def)
      then show "i = j" by (rule slots_okD(6) [OF ok(1) li])
    qed simp
    moreover have "map fst l = map (\<lambda>i. fst (pair_of (ts ! i))) (filter (\<lambda>i. used (ts ! i) > 0) [1..<length ts])"
    proof -
      have "tl ts = map ((!) ts) [1..<length ts]" by (rule nth_equalityI) (simp_all add: nth_tl)
      then show ?thesis unfolding l_def by (simp add: filter_map o_def)
    qed
    ultimately show ?thesis by simp
  qed
  have n: "length l = filled htab"
  proof -
    obtain a as where a: "ts = a # as" using slots_okD(1) [OF ok(1)] by (cases ts) auto
    then show ?thesis using slots_okD(4) [OF ok(1)] ok(2) by (simp add: l_def count_used_def)
  qed
  show ?thesis by (rule that [OF e d s n])
qed

section \<open>The lengths of an export\<close>

lemma counted_escaped: "counted_value sep d = length (escaped sep d)"
  by (induction d) auto

lemma export_bytes_length:
  "length (export_bytes sep l) = sum_list (map (\<lambda>(k, d). length k + length (escaped sep d) + 2) l)"
  by (induction sep l rule: export_bytes.induct) auto

lemma totlen_sep: "sep \<noteq> 0 \<Longrightarrow> totlen sep l = length (export_bytes sep l)"
  unfolding totlen_def export_bytes_length by (induction l) (auto simp: counted_entry_def counted_escaped)

definition backslashes :: "(ctext \<times> ctext) list \<Rightarrow> nat" where
  "backslashes l = sum_list (map (\<lambda>kd. length (filter (\<lambda>c. c = 92) (snd kd))) l)"

lemma escaped_nul: "0 \<notin> set d \<Longrightarrow> length (escaped 0 d) = length d + length (filter (\<lambda>c. c = 92) d)"
  by (induction d) auto

lemma export_bytes_nul:
  "\<forall>kd\<in>set l. 0 \<notin> set (snd kd) \<Longrightarrow> length (export_bytes 0 l) = totlen 0 l + backslashes l"
  unfolding totlen_def backslashes_def by (induction l) (auto simp: counted_entry_def escaped_nul)

lemma sum_list_mset: "mset xs = mset ys \<Longrightarrow> sum_list (map f xs) = (sum_list (map f ys) :: nat)"
  by (metis mset_map sum_mset_sum_list)

lemma sorted_lengths:
  "totlen sep (qsort c l) = totlen sep l" "backslashes (qsort c l) = backslashes l"
  unfolding totlen_def backslashes_def by (rule sum_list_mset, rule mset_qsort)+


section \<open>Reading an export\<close>

definition sep_ok :: "u8 \<Rightarrow> bool" where
  "sep_ok sep \<longleftrightarrow> sep \<noteq> 61 \<and> sep \<noteq> 92"

text \<open>A variable that survives the way through the text.\<close>

definition pair_ok :: "u8 \<Rightarrow> ctext \<times> ctext \<Rightarrow> bool" where
  "pair_ok sep kd \<longleftrightarrow> fst kd \<noteq> [] \<and> \<not> isblank (hd (fst kd)) \<and> hd (fst kd) \<noteq> 35
     \<and> (\<forall>c\<in>set (fst kd). c \<noteq> 0 \<and> c \<noteq> 61 \<and> c \<noteq> sep) \<and> snd kd \<noteq> [] \<and> 0 \<notin> set (snd kd)"

lemma parse_name_run:
  "\<forall>c\<in>set k. c \<noteq> 0 \<and> c \<noteq> 61 \<and> c \<noteq> sep \<Longrightarrow> parse_name sep (k @ 61 # r) = Some (k, 61 # r)"
  by (induction k) auto

lemma parse_value_plain:
  "c \<noteq> 0 \<Longrightarrow> c \<noteq> sep \<Longrightarrow> c \<noteq> 92 \<Longrightarrow> xs \<noteq> [] \<Longrightarrow>
   parse_value sep (c # xs) = Option.bind (parse_value sep xs) (\<lambda>(v, r). Some (c # v, r))"
  by (cases xs) simp_all

lemma parse_value_run:
  "sep_ok sep \<Longrightarrow> 0 \<notin> set d \<Longrightarrow> parse_value sep (escaped sep d @ sep # r) = Some (d, r)"
proof (induction d)
  case Nil then show ?case by (cases r) simp_all
next
  case (Cons c d)
  then show ?case
  proof (cases "c = sep \<or> c = 92")
    case True then show ?thesis using Cons by (auto simp: sep_ok_def)
  next
    case False then show ?thesis using Cons by (simp add: parse_value_plain)
  qed
qed

lemma escaped_hd: "d \<noteq> [] \<Longrightarrow> 0 \<notin> set d \<Longrightarrow> sep_ok sep \<Longrightarrow>
    \<exists>c cs. escaped sep d = c # cs \<and> c \<noteq> 0 \<and> c \<noteq> sep"
  by (cases d) (auto simp: sep_ok_def)

lemma parse_entry_run:
  assumes "sep_ok sep" "pair_ok sep (k, d)"
  shows "parse_entry sep (k @ 61 # escaped sep d @ sep # r) = Some (Insert k d, r)"
proof -
  obtain a as where k: "k = a # as" using assms(2) by (cases k) (auto simp: pair_ok_def)
  have sb: "skip_blanks (k @ 61 # escaped sep d @ sep # r) = Some (k @ 61 # escaped sep d @ sep # r)"
    "hd (k @ 61 # escaped sep d @ sep # r) \<noteq> 35"
    using assms(2) by (simp_all add: k pair_ok_def)
  have pn: "parse_name sep (k @ 61 # escaped sep d @ sep # r) = Some (k, 61 # escaped sep d @ sep # r)"
    using assms(2) by (intro parse_name_run) (simp add: pair_ok_def)
  have "d \<noteq> []" "0 \<notin> set d" using assms(2) by (simp_all add: pair_ok_def)
  from escaped_hd [OF this assms(1)] obtain c cs where c: "escaped sep d = c # cs" "c \<noteq> 0" "c \<noteq> sep" by blast
  have pv: "parse_value sep (escaped sep d @ sep # r) = Some (d, r)"
    using assms by (intro parse_value_run) (simp_all add: pair_ok_def)
  show ?thesis
    using assms(1) c(2,3) pv unfolding parse_entry_def sb(1) c(1)
    using sb pn by (simp add: c(1) sep_ok_def)
qed

text \<open>With no list of names the import of such a text enters one variable after the other.\<close>

lemma import_insert:
  "k \<noteq> [] \<Longrightarrow> import_entry hk flag [] htab (Insert k d) = map_option (\<lambda>h. Inr ([], h)) (store_enter (hk, flag) htab k d)"
  by (auto simp: import_entry_def store_enter_def map_option_case split: option.splits)

lemma export_bytes_hd:
  "l \<noteq> [] \<Longrightarrow> \<forall>kd\<in>set l. pair_ok sep kd \<Longrightarrow> \<exists>c cs. export_bytes sep l = c # cs \<and> c \<noteq> 0"
proof (cases l)
  case (Cons kd l')
  assume "\<forall>kd\<in>set l. pair_ok sep kd"
  then show ?thesis using Cons by (cases kd; cases "fst kd") (auto simp: pair_ok_def)
qed simp

lemma himport_loop_run:
  assumes "sep_ok sep" "l \<noteq> []" "\<forall>kd\<in>set l. pair_ok sep kd" "tail0 \<le> Suc (length pad)"
    and "changes store_enter store_delete (hk, flag) (map (\<lambda>(k, d). (k, Some d)) l) htab = Some htab'"
  shows "himport_loop hk sep flag tail0 [] htab (export_bytes sep l @ 0 # pad) = Some (Inr ([], htab'))"
  using assms(2,3,5)
proof (induction l arbitrary: htab)
  case (Cons kd l)
  obtain k d where kd: "kd = (k, d)" by (cases kd)
  obtain h1 where h1: "store_enter (hk, flag) htab k d = Some h1"
    "changes store_enter store_delete (hk, flag) (map (\<lambda>(k, d). (k, Some d)) l) h1 = Some htab'"
    using Cons.prems(3) by (auto simp: kd bind_eq_Some_conv)
  have ok: "pair_ok sep (k, d)" using Cons.prems(2) kd by simp
  then have pe: "parse_entry sep (export_bytes sep (kd # l) @ 0 # pad) = Some (Insert k d, export_bytes sep l @ 0 # pad)"
    using parse_entry_run [OF assms(1) ok, of "export_bytes sep l @ 0 # pad"] by (simp add: kd)
  have "k \<noteq> []" using ok by (simp add: pair_ok_def)
  then have ie: "import_entry hk flag [] htab (Insert k d) = Some (Inr ([], h1))" by (simp add: import_insert h1)
  show ?case
  proof (cases "l = []")
    case True
    then show ?thesis using pe ie h1(2) by (subst himport_loop.simps) simp
  next
    case False
    then obtain c cs where c: "export_bytes sep l = c # cs" "c \<noteq> 0" using export_bytes_hd [of l sep] Cons.prems(2) by auto
    have "himport_loop hk sep flag tail0 [] h1 (export_bytes sep l @ 0 # pad) = Some (Inr ([], htab'))"
      using Cons.IH [OF False _ h1(2)] Cons.prems(2) by simp
    then show ?thesis using pe ie c assms(4) by (subst himport_loop.simps) simp
  qed
qed simp

text \<open>The empty text.\<close>

lemma himport_loop_empty:
  assumes "htab_ok htab" "htab_map htab [] = None" "\<forall>c\<in>set pad. c = 0"
  shows "himport_loop hk sep flag tail0 [] htab (0 # pad) = Some (Inr ([], htab))"
proof -
  have b: "\<not> isblank 0" by code_simp
  have pe: "parse_entry sep (0 # pad) = Some (Delete [], pad)" using b by (simp add: parse_entry_def)
  have "hdelete_r hk [] htab flag = Some (0, Some ESRCH, htab)"
    using find_absent [OF assms(1,2), of hk None 0] by (simp add: hdelete_r_def)
  then have ie: "import_entry hk flag [] htab (Delete []) = Some (Inr ([], htab))" by (simp add: import_entry_def)
  show ?thesis using pe ie assms(3) by (subst himport_loop.simps) (cases pad, simp_all)
qed


lemma changed_distinct:
  "distinct (map fst l) \<Longrightarrow> changed (map (\<lambda>(k, d). (k, Some d)) l) m k = (case map_of l k of None \<Rightarrow> m k | Some d \<Rightarrow> Some d)"
  by (induction l arbitrary: m) (force split: option.splits)+

definition accepts :: "hooks \<Rightarrow> bool" where
  "accepts hk \<longleftrightarrow> (\<forall>k o0 n0 op flag. \<not> change_ok hk k o0 n0 op flag \<and> \<not> callback hk k n0 op flag)"

lemma accepts_refuses: "accepts hk \<Longrightarrow> \<not> refuses hk h k d flag"
  by (simp add: accepts_def refuses_def split: option.splits)

lemma accepts_refuses_delete: "accepts hk \<Longrightarrow> htab_map h k \<noteq> None \<Longrightarrow> \<not> refuses_delete hk h k flag"
  by (simp add: accepts_def refuses_delete_def)

lemma changes_accept:
  assumes "copies hk" "accepts hk" "htab_ok h" "length cs \<le> never_used h"
  shows "\<exists>h'. changes store_enter store_delete (hk, flag) cs h = Some h' \<and> htab_ok h'
       \<and> never_used h \<le> never_used h' + length cs \<and> htab_map h' = changed cs (htab_map h)"
  by (rule hs.changes_run [of "(hk, flag)"])
     (use assms accepts_refuses [OF assms(2)] accepts_refuses_delete [OF assms(2)] in simp_all)

text \<open>A new variable that the hooks let in.\<close>

definition creatable :: "hooks \<Rightarrow> ctext \<Rightarrow> ctext \<Rightarrow> int \<Rightarrow> bool" where
  "creatable hk k d flag \<longleftrightarrow> \<not> change_ok hk k (Some d) (Some d) env_op_create flag \<and> \<not> callback hk k (Some d) env_op_create flag"

lemma accepts_creatable: "accepts hk \<Longrightarrow> creatable hk k d flag"
  by (simp add: accepts_def creatable_def)

lemma creates_run:
  assumes "copies hk"
  shows "htab_ok h \<Longrightarrow> length l \<le> never_used h \<Longrightarrow> distinct (map fst l) \<Longrightarrow>
    \<forall>kd\<in>set l. htab_map h (fst kd) = None \<and> creatable hk (fst kd) (snd kd) flag \<Longrightarrow>
    \<exists>h'. changes store_enter store_delete (hk, flag) (map (\<lambda>(k, d). (k, Some d)) l) h = Some h' \<and> htab_ok h'
       \<and> htab_map h' = changed (map (\<lambda>(k, d). (k, Some d)) l) (htab_map h)"
proof (induction l arbitrary: h)
  case (Cons kd l)
  obtain k d where kd: "kd = (k, d)" by (cases kd)
  have "\<not> refuses hk h k d flag" using Cons.prems(4) by (simp add: kd refuses_def creatable_def)
  with hs.enter_step [of "(hk, flag)" h k d] assms Cons.prems(1,2) obtain h1 where
    h1: "store_enter (hk, flag) h k d = Some h1" "htab_ok h1" "never_used h \<le> never_used h1 + 1" "htab_map h1 = (htab_map h)(k \<mapsto> d)"
    by auto
  have "\<forall>kd\<in>set l. htab_map h1 (fst kd) = None \<and> creatable hk (fst kd) (snd kd) flag"
    using Cons.prems(3,4) h1(4) by (force simp: kd)
  from Cons.IH [OF h1(2) _ _ this] obtain h' where
    "changes store_enter store_delete (hk, flag) (map (\<lambda>(k, d). (k, Some d)) l) h1 = Some h'" "htab_ok h'"
    "htab_map h' = changed (map (\<lambda>(k, d). (k, Some d)) l) (htab_map h1)" using Cons.prems(2,3) h1(3) by auto
  then show ?case using h1(1,4) by (intro exI [of _ h']) (simp add: kd)
qed simp

lemma himport_fresh:
  assumes "length env = size0" "0 < size0"
  shows "\<exists>h1. table h1 \<noteq> None \<and> htab_ok h1 \<and> htab_map h1 = Map.empty \<and> import_entries size0 \<le> never_used h1
     \<and> himport_r hk True True h0 env size0 sep 0 False [] =
         Option.bind (himport_loop hk sep 0 1 [] h1 (env @ [0]))
           (case_sum (\<lambda>(err, h2). Some (0, Some err, h2)) (\<lambda>(vars', h2). Option.bind (delete_rest hk 0 vars' h2) (\<lambda>h3. Some (1, None, h3))))"
proof -
  define h00 where "h00 = (if table h0 \<noteq> None then hdestroy_r h0 else h0)"
  have t: "table h00 = None" by (simp add: h00_def hdestroy_r_def)
  have "4 \<le> import_entries size0"
    by (simp add: import_entries_def Let_def CONFIG_ENV_MIN_ENTRIES_def CONFIG_ENV_MAX_ENTRIES_def)
  from hcreate_law [OF t this] obtain h1 where h1: "hcreate_r True (import_entries size0) h00 = Some (1, h1)" "htab_ok h1"
    "import_entries size0 \<le> hsize h1" "htab_map h1 = Map.empty" "never_used h1 = hsize h1" by blast
  have tn: "table h1 \<noteq> None" using h1(2) by (auto simp: htab_ok_def)
  have "himport_r hk True True h0 env size0 sep 0 False [] =
         Option.bind (himport_loop hk sep 0 1 [] h1 (env @ [0]))
           (case_sum (\<lambda>(err, h2). Some (0, Some err, h2)) (\<lambda>(vars', h2). Option.bind (delete_rest hk 0 vars' h2) (\<lambda>h3. Some (1, None, h3))))"
    using assms t h1(1) unfolding himport_r_def
    by (cases "table h0") (simp_all add: h00_def Let_def)
  then show ?thesis using tn h1 by auto
qed

lemma hexport_run:
  assumes "htab_ok htab" "hexport_r re True htab sep 0 None size0 [] = Some (ret, None, Some buf)" "size0 \<noteq> 0"
  obtains l where "distinct (map fst l)" "\<And>k d. (k, d) \<in> set l \<longleftrightarrow> htab_map htab k = Some d" "length l = filled htab"
    "buf = export_bytes sep (qsort cmpkey l) @ 0 # replicate (size0 - (length (export_bytes sep (qsort cmpkey l)) + 1)) 0"
    "length buf = size0"
proof -
  from htab_okE [OF assms(1)] obtain ts where ts: "table htab = Some ts" .
  from export_list_table [OF assms(1) ts, of re] obtain l where l: "export_list re 0 [] (tl ts) = Some l" "distinct (map fst l)"
    "\<And>k d. (k, d) \<in> set l \<longleftrightarrow> htab_map htab k = Some d" "length l = filled htab" by blast
  have p: "put_bytes (replicate size0 0) (export_bytes sep (qsort cmpkey l) @ [0]) = Some buf"
    using assms(2,3) ts l(1) by (auto simp: hexport_r_def Let_def bind_eq_Some_conv split: if_splits)
  then have b: "length (export_bytes sep (qsort cmpkey l)) + 1 \<le> size0"
    "buf = export_bytes sep (qsort cmpkey l) @ 0 # replicate (size0 - (length (export_bytes sep (qsort cmpkey l)) + 1)) 0"
    by (auto simp: put_bytes_def split: if_splits)
  have "length buf = size0" using b by simp
  with l(2-4) b(2) show ?thesis using that by blast
qed

lemma roundtrip_run:
  assumes ok: "htab_ok htab" "sep_ok sep" "\<And>k d. htab_map htab k = Some d \<Longrightarrow> pair_ok sep (k, d)"
    and ex: "hexport_r re True htab sep 0 None size0 [] = Some (ret, None, Some buf)" "size0 \<noteq> 0"
    and hk: "copies hk" "\<And>k d. htab_map htab k = Some d \<Longrightarrow> creatable hk k d 0" and room: "filled htab \<le> import_entries size0"
  shows "\<exists>h'. himport_r hk True True h0 buf (length buf) sep 0 False [] = Some (1, None, h') \<and> htab_ok h'
           \<and> htab_map h' = htab_map htab"
proof -
  from hexport_run [OF ok(1) ex] obtain l where l: "distinct (map fst l)"
    "\<And>k d. (k, d) \<in> set l \<longleftrightarrow> htab_map htab k = Some d" "length l = filled htab"
    "buf = export_bytes sep (qsort cmpkey l) @ 0 # replicate (size0 - (length (export_bytes sep (qsort cmpkey l)) + 1)) 0"
    "length buf = size0" by blast
  define s where "s = qsort cmpkey l"
  define pad where "pad = replicate (size0 - (length (export_bytes sep s) + 1)) (0 :: u8) @ [0]"
  have s: "distinct (map fst s)" "set s = set l" "length s = length l"
    using l(1) by (simp_all add: s_def distinct_qsort_map set_qsort length_qsort)
  have env: "buf @ [0] = export_bytes sep s @ 0 # pad" by (simp add: l(4) s_def pad_def)
  from himport_fresh [OF l(5), of hk h0 sep] ex(2) obtain h1 where h1: "htab_ok h1" "htab_map h1 = Map.empty"
    "import_entries size0 \<le> never_used h1" and hi: "himport_r hk True True h0 buf size0 sep 0 False [] =
         Option.bind (himport_loop hk sep 0 1 [] h1 (buf @ [0]))
           (case_sum (\<lambda>(err, h2). Some (0, Some err, h2)) (\<lambda>(vars', h2). Option.bind (delete_rest hk 0 vars' h2) (\<lambda>h3. Some (1, None, h3))))"
    by auto
  have "length s \<le> never_used h1" "\<forall>kd\<in>set s. htab_map h1 (fst kd) = None \<and> creatable hk (fst kd) (snd kd) 0"
    using room h1(2,3) l(2,3) s(2,3) hk(2) by auto
  from creates_run [OF hk(1) h1(1) this(1) s(1) this(2)] obtain h' where h': "htab_ok h'"
    "changes store_enter store_delete (hk, 0) (map (\<lambda>(k, d). (k, Some d)) s) h1 = Some h'"
    "htab_map h' = changed (map (\<lambda>(k, d). (k, Some d)) s) Map.empty" using h1(2) by auto
  have pok: "\<forall>kd\<in>set s. pair_ok sep kd" using ok(3) l(2) s(2) by auto
  have lp: "himport_loop hk sep 0 1 [] h1 (buf @ [0]) = Some (Inr ([], h'))"
  proof (cases "s = []")
    case True
    have "himport_loop hk sep 0 1 [] h1 (0 # pad) = Some (Inr ([], h1))"
      by (rule himport_loop_empty) (use h1 in \<open>auto simp: pad_def\<close>)
    then show ?thesis using True h'(2) by (simp add: env)
  next
    case False
    show ?thesis unfolding env
      by (rule himport_loop_run [OF ok(2) False pok _ h'(2)]) (simp add: pad_def)
  qed
  have m: "htab_map h' = htab_map htab"
  proof
    fix k
    have "htab_map h' k = map_of s k" unfolding h'(3) changed_distinct [OF s(1)] by (simp split: option.split)
    moreover have "map_of s k = htab_map htab k"
    proof (cases "htab_map htab k")
      case None
      then have "k \<notin> fst ` set s" using l(2) s(2) by force
      then show ?thesis using None by (simp add: map_of_eq_None_iff)
    next
      case (Some d)
      then have "(k, d) \<in> set s" using l(2) s(2) by simp
      then show ?thesis using Some map_of_is_SomeI [OF s(1)] by simp
    qed
    ultimately show "htab_map h' k = htab_map htab k" by simp
  qed
  have "himport_r hk True True h0 buf (length buf) sep 0 False [] = Some (1, None, h')"
    unfolding l(5) hi lp by simp
  then show ?thesis using h'(1) m by blast
qed


section \<open>The parser stays inside its copy\<close>

lemma skip_blanks_end: "xs \<noteq> [] \<Longrightarrow> last xs = 0 \<Longrightarrow> \<exists>pre r. skip_blanks xs = Some r \<and> xs = pre @ r \<and> r \<noteq> []"
proof (induction xs)
  case (Cons c xs)
  show ?case
  proof (cases "isblank c")
    case True
    have "\<not> isblank 0" by code_simp
    then have "xs \<noteq> []" using True Cons.prems by auto
    then obtain pre r where "skip_blanks xs = Some r" "xs = pre @ r" "r \<noteq> []" using Cons by auto
    then show ?thesis using True by - (rule exI [of _ "c # pre"], rule exI [of _ r], simp)
  next
    case False then show ?thesis by - (rule exI [of _ "[]"], rule exI [of _ "c # xs"], simp)
  qed
qed simp

lemma skip_comment_end: "xs \<noteq> [] \<Longrightarrow> last xs = 0 \<Longrightarrow> \<exists>pre r. skip_comment sep xs = Some r \<and> xs = pre @ r"
proof (induction xs)
  case (Cons c xs)
  show ?case
  proof (cases "c \<noteq> 0 \<and> c \<noteq> sep")
    case True
    then have "xs \<noteq> []" using Cons.prems by auto
    then obtain pre r where "skip_comment sep xs = Some r" "xs = pre @ r" using Cons by auto
    then show ?thesis using True by - (rule exI [of _ "c # pre"], rule exI [of _ r], simp)
  next
    case False then show ?thesis by - (rule exI [of _ "[c]"], rule exI [of _ xs], auto)
  qed
qed simp

lemma parse_name_end:
  "xs \<noteq> [] \<Longrightarrow> last xs = 0 \<Longrightarrow> \<exists>n c cs. parse_name sep xs = Some (n, c # cs) \<and> xs = n @ c # cs \<and> (c = 61 \<or> c = 0 \<or> c = sep)"
proof (induction xs)
  case (Cons c xs)
  show ?case
  proof (cases "c \<noteq> 61 \<and> c \<noteq> 0 \<and> c \<noteq> sep")
    case True
    then have "xs \<noteq> []" using Cons.prems by auto
    then obtain n d ds where "parse_name sep xs = Some (n, d # ds)" "xs = n @ d # ds" "d = 61 \<or> d = 0 \<or> d = sep" using Cons by auto
    then show ?thesis using True by - (rule exI [of _ "c # n"], rule exI [of _ d], rule exI [of _ ds], simp)
  next
    case False then show ?thesis by - (rule exI [of _ "[]"], rule exI [of _ c], rule exI [of _ xs], auto)
  qed
qed simp

lemma parse_value_end:
  "xs \<noteq> [] \<Longrightarrow> last xs = 0 \<Longrightarrow> \<exists>v pre r. parse_value sep xs = Some (v, r) \<and> xs = pre @ r"
proof (induction sep xs rule: parse_value.induct)
  case (3 sep c d ds)
  show ?case
  proof (cases "c \<noteq> 0 \<and> c \<noteq> sep")
    case True
    show ?thesis
    proof (cases "c = 92 \<and> d \<noteq> 0")
      case e: True
      have "ds \<noteq> []" "last ds = 0" using "3.prems" e by (cases ds; auto)+
      from "3.IH"(1) [OF True e this] obtain v pre r where "parse_value sep ds = Some (v, r)" "ds = pre @ r" by blast
      then show ?thesis using True e by - (rule exI [of _ "d # v"], rule exI [of _ "c # d # pre"], rule exI [of _ r], simp)
    next
      case e: False
      have "last (d # ds) = 0" using "3.prems" by simp
      from "3.IH"(2) [OF True e _ this] obtain v pre r where "parse_value sep (d # ds) = Some (v, r)" "d # ds = pre @ r" by blast
      moreover have "parse_value sep (c # d # ds) = Some (c # v, r)" using True e \<open>parse_value sep (d # ds) = Some (v, r)\<close> by auto
      ultimately show ?thesis by - (rule exI [of _ "c # v"], rule exI [of _ "c # pre"], rule exI [of _ r], simp)
    qed
  next
    case False then show ?thesis by - (rule exI [of _ "[]"], rule exI [of _ "[c]"], rule exI [of _ "d # ds"], auto)
  qed
qed auto

lemma parse_entry_end:
  assumes "dp \<noteq> []" "last dp = 0"
  shows "\<exists>p pre r. parse_entry sep dp = Some (p, r) \<and> dp = pre @ r \<and> pre \<noteq> []"
proof -
  from skip_blanks_end [OF assms] obtain b q where q: "skip_blanks dp = Some q" "dp = b @ q" "q \<noteq> []" by blast
  have lq: "last q = 0" using assms(2) q by simp
  have "\<exists>p pre r. parse_entry sep dp = Some (p, r) \<and> q = pre @ r"
  proof (cases "hd q = 35")
    case True
    from skip_comment_end [OF q(3) lq, of sep] obtain pre r where "skip_comment sep q = Some r" "q = pre @ r" by blast
    then show ?thesis using True q(1) by (simp add: parse_entry_def)
  next
    case False
    from parse_name_end [OF q(3) lq, of sep] obtain n c cs where n: "parse_name sep q = Some (n, c # cs)" "q = n @ c # cs"
      "c = 61 \<or> c = 0 \<or> c = sep" by blast
    show ?thesis
    proof (cases "c = 0")
      case True
      then show ?thesis using False q(1) n by - (rule exI [of _ "Delete n"], rule exI [of _ "n @ [c]"], rule exI [of _ cs], simp add: parse_entry_def)
    next
      case c0: False
      then obtain d ds where d: "cs = d # ds" using lq n(2) by (cases cs) auto
      show ?thesis
      proof (cases "d = 0 \<or> c = sep \<or> d = sep")
        case True
        define r where "r = (if c = 61 then ds else cs)"
        have "parse_entry sep dp = Some (Delete n, r)" using True False c0 q(1) n(1) d by (simp add: parse_entry_def r_def)
        moreover have "q = (if c = 61 then n @ [c, d] else n @ [c]) @ r" using n(2) d by (simp add: r_def)
        ultimately show ?thesis by blast
      next
        case v: False
        have "cs \<noteq> []" "last cs = 0" using d lq n(2) by simp_all
        from parse_value_end [OF this, of sep] obtain w pre r where w: "parse_value sep cs = Some (w, r)" "cs = pre @ r" by blast
        have "parse_entry sep dp = Some (Insert n w, r)" using v False c0 q(1) n(1) d w(1) by (simp add: parse_entry_def)
        moreover have "q = (n @ c # pre) @ r" using n(2) w(2) by simp
        ultimately show ?thesis by blast
      qed
    qed
  qed
  then obtain p pre r where p: "parse_entry sep dp = Some (p, r)" "q = pre @ r" by blast
  have "b @ pre \<noteq> []" using parse_entry_length [OF p(1)] p(2) q(2) by auto
  then show ?thesis using p q(2) by - (rule exI [of _ p], rule exI [of _ "b @ pre"], rule exI [of _ r], simp)
qed

section \<open>Carriage returns\<close>

lemma strip_crs_plain:
  "\<forall>c\<in>set xs. c \<noteq> 0 \<and> c \<noteq> 13 \<Longrightarrow> strip_crs (xs @ ys) = (xs @ fst (strip_crs ys), snd (strip_crs ys))"
  by (induction xs) (auto simp: split_def)

text \<open>A line of plain text: nothing to escape.\<close>

definition plain_pair :: "ctext \<times> ctext \<Rightarrow> bool" where
  "plain_pair kd \<longleftrightarrow> pair_ok 10 kd \<and> (\<forall>c\<in>set (fst kd @ snd kd). c \<noteq> 10 \<and> c \<noteq> 13 \<and> c \<noteq> 92)"

lemma escaped_plain: "\<forall>c\<in>set d. c \<noteq> sep \<and> c \<noteq> 92 \<Longrightarrow> escaped sep d = d"
  by (induction d) auto

lemma parse_value_nul:
  "\<forall>c\<in>set d. c \<noteq> 0 \<and> c \<noteq> sep \<and> c \<noteq> 92 \<Longrightarrow> parse_value sep (d @ [0]) = Some (d, [])"
  by (induction d) (simp_all add: parse_value_plain)

lemma parse_entry_nul:
  assumes "plain_pair (k, d)"
  shows "parse_entry 10 (k @ 61 # d @ [0]) = Some (Insert k d, [])"
proof -
  have ok: "pair_ok 10 (k, d)" and pl: "\<forall>c\<in>set d. c \<noteq> 0 \<and> c \<noteq> 10 \<and> c \<noteq> 92"
    using assms by (auto simp: plain_pair_def pair_ok_def)
  obtain a as b bs where k: "k = a # as" "d = b # bs" using ok by (cases k; cases d) (auto simp: pair_ok_def)
  have sb: "skip_blanks (k @ 61 # d @ [0]) = Some (k @ 61 # d @ [0])" "hd (k @ 61 # d @ [0]) \<noteq> 35"
    using ok by (simp_all add: k pair_ok_def)
  have pn: "parse_name 10 (k @ 61 # d @ [0]) = Some (k, 61 # d @ [0])"
    using ok by (intro parse_name_run) (simp add: pair_ok_def)
  have "b \<noteq> 0" "b \<noteq> 10" using pl k by simp_all
  then show ?thesis using sb pn parse_value_nul [OF pl] k by (simp add: parse_entry_def)
qed

lemma crlf_run:
  assumes p: "plain_pair (k1, v1)" "plain_pair (k2, v2)"
    and hk: "copies hk" "accepts hk" and ok: "htab_ok htab" "2 \<le> never_used htab"
    and env: "env = k1 @ 61 # v1 @ 13 # 10 # k2 @ 61 # v2"
  shows "\<exists>h'. himport_r hk True True htab env (length env) 10 H_NOCLEAR True [] = Some (1, None, h') \<and> htab_ok h'
           \<and> htab_map h' = (htab_map htab)(k1 \<mapsto> v1, k2 \<mapsto> v2 @ [last v2])"
proof -
  have c: "\<forall>c\<in>set (k1 @ 61 # v1). c \<noteq> 0 \<and> c \<noteq> 13" "\<forall>c\<in>set (10 # k2 @ 61 # v2). c \<noteq> 0 \<and> c \<noteq> (13 :: u8)"
    using p by (auto simp: plain_pair_def pair_ok_def)
  have "strip_crs (10 # k2 @ 61 # v2) = (10 # k2 @ 61 # v2, 0)" using strip_crs_plain [OF c(2), of "[]"] by simp
  then have "strip_crs (13 # 10 # k2 @ 61 # v2) = (10 # k2 @ 61 # v2, 1)" by (subst strip_crs.simps) simp
  then have sc: "strip_crs env = (k1 @ 61 # v1 @ 10 # k2 @ 61 # v2, 1)"
    using strip_crs_plain [OF c(1), of "13 # 10 # k2 @ 61 # v2"] by (simp add: env)
  have v2: "v2 \<noteq> []" using p(2) by (simp add: plain_pair_def pair_ok_def)
  define kept where "kept = k1 @ 61 # v1 @ 10 # k2 @ 61 # v2"
  have dr: "drop (length kept) (env @ [0]) = [last v2, 0]"
  proof -
    obtain w x where w: "v2 = w @ [x]" using v2 by (metis rev_exhaust)
    have "env @ [0] = (k1 @ 61 # v1 @ 13 # 10 # k2 @ 61 # w) @ [last v2, 0]" by (simp add: env w)
    moreover have "length kept = length (k1 @ 61 # v1 @ 13 # 10 # k2 @ 61 # w)" by (simp add: kept_def w)
    ultimately show ?thesis by (metis append_eq_conv_conj)
  qed
  obtain ts where tb: "table htab = Some ts" using ok(1) by (auto simp: htab_ok_def)
  have ne: "env \<noteq> []" by (simp add: env)
  have hi: "himport_r hk True True htab env (length env) 10 H_NOCLEAR True [] =
      Option.bind (himport_loop hk 10 H_NOCLEAR 2 [] htab (kept @ [last v2, 0]))
        (case_sum (\<lambda>(err, h2). Some (0, Some err, h2)) (\<lambda>(vars', h2). Some (1, None, h2)))"
    using sc [folded kept_def] ne
    by (simp add: himport_r_def Let_def tb dr H_NOCLEAR_def numeral_2_eq_2 del: drop_append)
  have "length [(k1, Some v1), (k2, Some (v2 @ [last v2]))] \<le> never_used htab" using ok(2) by simp
  from changes_accept [OF hk ok(1) this, of H_NOCLEAR] obtain h' where h': "htab_ok h'"
    "changes store_enter store_delete (hk, H_NOCLEAR) [(k1, Some v1), (k2, Some (v2 @ [last v2]))] htab = Some h'"
    "htab_map h' = (htab_map htab)(k1 \<mapsto> v1, k2 \<mapsto> v2 @ [last v2])" by auto
  then obtain h1 where h1: "store_enter (hk, H_NOCLEAR) htab k1 v1 = Some h1"
    "store_enter (hk, H_NOCLEAR) h1 k2 (v2 @ [last v2]) = Some h'" by (auto simp: bind_eq_Some_conv)
  have p2: "plain_pair (k2, v2 @ [last v2])" using p(2) v2 last_in_set [OF v2] by (auto simp: plain_pair_def pair_ok_def simp del: last_in_set)
  have e1: "parse_entry 10 (kept @ [last v2, 0]) = Some (Insert k1 v1, k2 @ 61 # v2 @ [last v2, 0])"
  proof -
    have "pair_ok 10 (k1, v1)" "escaped 10 v1 = v1" using p(1) by (auto simp: plain_pair_def intro!: escaped_plain)
    then show ?thesis using parse_entry_run [of 10 k1 v1 "k2 @ 61 # v2 @ [last v2, 0]"]
      by (simp add: kept_def sep_ok_def)
  qed
  have e2: "parse_entry 10 (k2 @ 61 # v2 @ [last v2, 0]) = Some (Insert k2 (v2 @ [last v2]), [])"
    using parse_entry_nul [OF p2] by simp
  have k: "k1 \<noteq> []" "k2 \<noteq> []" "hd k2 \<noteq> 0" using p by (auto simp: plain_pair_def pair_ok_def)
  have "himport_loop hk 10 H_NOCLEAR 2 [] h1 (k2 @ 61 # v2 @ [last v2, 0]) = Some (Inr ([], h'))"
    using e2 h1 k by (subst himport_loop.simps) (simp add: import_insert)
  then have "himport_loop hk 10 H_NOCLEAR 2 [] htab (kept @ [last v2, 0]) = Some (Inr ([], h'))"
    using e1 h1 k by (subst himport_loop.simps) (simp add: import_insert)
  then show ?thesis using hi h' by simp
qed


section \<open>Properties\<close>

lemma demo_htab_pairs: "htab_map demo_htab k = Some d \<Longrightarrow> (k, d) \<in> {([98], [48]), ([103], [49]), ([108], [50])}"
  by (auto simp: htab_map_def demo_htab_def entry_has_def empty_entry_def split: if_splits)

lemma demo_pair_ok: "htab_map demo_htab k = Some d \<Longrightarrow> pair_ok 10 (k, d)"
proof -
  assume "htab_map demo_htab k = Some d"
  from demo_htab_pairs [OF this] show ?thesis
  proof (elim insertE)
    assume "(k, d) = ([98], [48])" then show ?thesis by simp code_simp
  next
    assume "(k, d) = ([103], [49])" then show ?thesis by simp code_simp
  next
    assume "(k, d) = ([108], [50])" then show ?thesis by simp code_simp
  qed simp
qed

lemma accepts_demo: "accepts demo_hooks" by (simp add: accepts_def demo_hooks_def)

definition demo_regex :: regex where
  "demo_regex = \<lparr>slre_compile = \<lambda>_. True, slre_match = \<lambda>_ _. False\<rparr>"

text \<open> C11. Exporting a table and importing the bytes gives a well formed table with the same variables,
  whatever was in the table before: for a separator other than the equals sign and the backslash,
  names without separator, equals sign and leading blank or hash, values that are not empty,
  variables that the hooks let in, and no more of them than the new table is made for.\<close>

theorem export_import_roundtrip:
  assumes "htab_ok htab" "sep_ok sep" "\<And>k d. htab_map htab k = Some d \<Longrightarrow> pair_ok sep (k, d)"
    and "hexport_r re True htab sep 0 None size0 [] = Some (ret, None, Some buf)" "size0 \<noteq> 0"
    and "copies hk" "\<And>k d. htab_map htab k = Some d \<Longrightarrow> creatable hk k d 0" "filled htab \<le> import_entries size0"
  shows "\<exists>h'. himport_r hk True True h0 buf (length buf) sep 0 False [] = Some (1, None, h') \<and> htab_ok h'
           \<and> htab_map h' = htab_map htab"
  using assms by (rule roundtrip_run)

theorem export_import_roundtrip_witness:
  "\<exists>h'. himport_r demo_hooks True True worn_htab [98, 61, 48, 10, 103, 61, 49, 10, 108, 61, 50, 10, 0, 0] 14 10 0 False []
       = Some (1, None, h') \<and> htab_ok h' \<and> htab_map h' = htab_map demo_htab"
proof -
  have e: "hexport_r demo_regex True demo_htab 10 0 None 14 [] = Some (14, None, Some [98, 61, 48, 10, 103, 61, 49, 10, 108, 61, 50, 10, 0, 0])"
    by code_simp
  have s: "sep_ok 10" "filled demo_htab \<le> import_entries 14" by code_simp+
  show ?thesis
    using export_import_roundtrip [OF demo_htab_ok s(1) demo_pair_ok e _ copies_demo accepts_creatable [OF accepts_demo] s(2), of worn_htab]
    by (simp add: eval_nat_numeral)
qed

text \<open> C26. With a separator other than NUL, names in ASCII and a buffer that pass 1 finds large enough,
  the export succeeds and the buffer holds exactly the variables of the table as
  name and value lines, in ascending order of the names, each name once, and then only NULs.\<close>

theorem hexport_correct:
  assumes "htab_ok htab" "sep \<noteq> 0" "\<And>k d. htab_map htab k = Some d \<Longrightarrow> ascii k"
    and "table htab = Some ts" "export_list re 0 [] (tl ts) = Some l" "totlen sep l + 1 \<le> size0"
  shows "\<exists>s. hexport_r re True htab sep 0 None size0 [] = Some (int size0, None,
             Some (export_bytes sep s @ replicate (size0 - length (export_bytes sep s)) 0))
         \<and> (\<forall>k d. (k, d) \<in> set s \<longleftrightarrow> htab_map htab k = Some d) \<and> distinct (map fst s)
         \<and> sorted_wrt (\<lambda>a b. cmpkey a b \<le> 0) s"
proof -
  from export_list_table [OF assms(1,4), of re] assms(5) have l: "distinct (map fst l)"
    "\<And>k d. (k, d) \<in> set l \<longleftrightarrow> htab_map htab k = Some d" by (metis option.inject)+
  define s where "s = qsort cmpkey l"
  have t: "totlen sep l = length (export_bytes sep s)"
    using totlen_sep [OF assms(2), of s] sorted_lengths(1) [of sep cmpkey l] by (simp add: s_def)
  then have b: "length (export_bytes sep s) + 1 \<le> size0" using assms(6) by simp
  have "replicate (size0 - length (export_bytes sep s)) (0 :: u8) = 0 # replicate (size0 - (length (export_bytes sep s) + 1)) 0"
    using b by (cases "size0 - length (export_bytes sep s)") (auto simp: Suc_diff_Suc)
  then have "hexport_r re True htab sep 0 None size0 [] = Some (int size0, None,
             Some (export_bytes sep s @ replicate (size0 - length (export_bytes sep s)) 0))"
    using assms(4-6) b t by (simp add: hexport_r_def Let_def put_bytes_def s_def [symmetric])
  moreover have "sorted_wrt (\<lambda>a b. cmpkey a b \<le> 0) s"
    unfolding s_def by (rule names.sorted_qsort) (use assms(3) l(2) in force)
  moreover have "distinct (map fst s)" "set s = set l" using l(1) by (simp_all add: s_def distinct_qsort_map set_qsort)
  ultimately show ?thesis using l(2) by blast
qed

theorem hexport_correct_witness:
  "\<exists>s. hexport_r demo_regex True demo_htab 10 0 None 14 [] = Some (int 14, None,
       Some (export_bytes 10 s @ replicate (14 - length (export_bytes 10 s)) 0))
     \<and> (\<forall>k d. (k, d) \<in> set s \<longleftrightarrow> htab_map demo_htab k = Some d) \<and> distinct (map fst s)
     \<and> sorted_wrt (\<lambda>a b. cmpkey a b \<le> 0) s"
proof -
  have t: "table demo_htab = Some (the (table demo_htab))" by (simp add: demo_htab_def)
  have l: "export_list demo_regex 0 [] (tl (the (table demo_htab))) = Some [([103], [49]), ([98], [48]), ([108], [50])]" by code_simp
  have n: "totlen 10 [([103], [49]), ([98], [48]), ([108], [50])] + 1 \<le> 14" by code_simp
  have a: "ascii k" if "htab_map demo_htab k = Some d" for k d
    using demo_htab_pairs [OF that] by (auto simp: ascii_def)
  show ?thesis by (rule hexport_correct [OF demo_htab_ok _ a t l n]) simp
qed

text \<open> With NUL as separator the backslashes in the values are escaped but not counted: a size that
  passes the check but has no room for the escapes makes the export write past the buffer.\<close>

theorem hexport_nul_overrun:
  assumes "htab_ok htab" "table htab = Some ts" "export_list re 0 [] (tl ts) = Some l" "\<forall>kd\<in>set l. 0 \<notin> set (snd kd)"
    and "totlen 0 l + 1 \<le> size0" "size0 < totlen 0 l + backslashes l + 1"
  shows "hexport_r re True htab 0 0 None size0 [] = None"
proof -
  have "length (export_bytes 0 (qsort cmpkey l)) = totlen 0 l + backslashes l"
    using export_bytes_nul [of "qsort cmpkey l"] assms(4) by (simp add: set_qsort sorted_lengths)
  then show ?thesis using assms(2,3,5,6) by (simp add: hexport_r_def Let_def put_bytes_def)
qed

theorem hexport_nul_overrun_witness:
  "hexport_r demo_regex True \<lparr>table = Some [empty_entry, empty_entry, empty_entry, empty_entry,
     \<lparr>used = 4, key = Some [98], data = Some [92, 92]\<rparr>, empty_entry], hsize = 5, filled = 1\<rparr> 0 0 None 6 [] = None"
proof -
  let ?h = "\<lparr>table = Some [empty_entry, empty_entry, empty_entry, empty_entry,
     \<lparr>used = 4, key = Some [98], data = Some [92, 92]\<rparr>, empty_entry], hsize = 5, filled = 1\<rparr>"
  have a: "htab_ok ?h" by code_simp
  have b: "export_list demo_regex 0 [] (tl (the (table ?h))) = Some [([98], [92, 92])]" by code_simp
  have c: "\<forall>kd\<in>set [([98 :: u8], [92 :: u8, 92])]. 0 \<notin> set (snd kd)" by simp
  have d: "totlen 0 [([98], [92, 92])] + 1 \<le> 6" "6 < totlen 0 [([98], [92, 92])] + backslashes [([98], [92, 92])] + 1" by code_simp+
  show ?thesis by (rule hexport_nul_overrun [OF a _ b c d]) simp
qed

text \<open> Asked to choose the size itself (size 0 and no buffer), the export allocates one byte too
  few: the terminating NUL is always written past the end.\<close>

theorem hexport_auto_size_overrun:
  assumes "htab_ok htab"
  shows "sep \<noteq> 0 \<Longrightarrow> hexport_r re True htab sep 0 None 0 [] = None"
proof -
  assume sep: "sep \<noteq> 0"
  from htab_okE [OF assms] obtain ts where ts: "table htab = Some ts" .
  from export_list_table [OF assms ts, of re] obtain l where l: "export_list re 0 [] (tl ts) = Some l" by blast
  have "totlen sep l = length (export_bytes sep (qsort cmpkey l))"
    using totlen_sep [OF sep, of "qsort cmpkey l"] sorted_lengths(1) [of sep cmpkey l] by simp
  then show ?thesis using ts l by (simp add: hexport_r_def Let_def put_bytes_def)
qed

theorem hexport_auto_size_overrun_witness: "hexport_r demo_regex True demo_htab 10 0 None 0 [] = None"
  by (rule hexport_auto_size_overrun [OF demo_htab_ok]) simp

text \<open> C27. On any bytes that end with a NUL, as the copy of the text does, the parser takes at least one
  byte, never reads past the end, and goes on with a rest of the same bytes.\<close>

theorem parse_entry_safe:
  assumes "dp \<noteq> []" "last dp = 0"
  shows "\<exists>p pre r. parse_entry sep dp = Some (p, r) \<and> dp = pre @ r \<and> pre \<noteq> []"
  using assms by (rule parse_entry_end)

theorem parse_entry_safe_witness:
  "\<exists>p pre r. parse_entry 10 [32, 97, 61, 92, 0] = Some (p, r) \<and> [32, 97, 61, 92, 0] = pre @ r \<and> pre \<noteq> []"
  using parse_entry_safe [of "[32, 97, 61, 92, 0]" 10] by simp

text \<open> Importing two lines with a carriage return between them and no line end after the second:
  the removal of the carriage return leaves the old last byte in place, and the value of the second
  variable gets its last byte twice.\<close>

theorem himport_crlf_duplicates:
  assumes "plain_pair (k1, v1)" "plain_pair (k2, v2)" "copies hk" "accepts hk" "htab_ok htab" "2 \<le> never_used htab"
    and "env = k1 @ 61 # v1 @ 13 # 10 # k2 @ 61 # v2"
  shows "\<exists>h'. himport_r hk True True htab env (length env) 10 H_NOCLEAR True [] = Some (1, None, h') \<and> htab_ok h'
           \<and> htab_map h' = (htab_map htab)(k1 \<mapsto> v1, k2 \<mapsto> v2 @ [last v2])"
  using assms by (rule crlf_run)

theorem himport_crlf_duplicates_witness:
  "\<exists>h'. himport_r demo_hooks True True demo_htab [97, 61, 98, 13, 10, 99, 61, 100] 8 10 H_NOCLEAR True [] = Some (1, None, h')
     \<and> htab_map h' [99] = Some [100, 100]"
proof -
  have p: "plain_pair ([97], [98])" "plain_pair ([99], [100])" by code_simp+
  have n: "2 \<le> never_used demo_htab" by code_simp
  show ?thesis using himport_crlf_duplicates [OF p copies_demo accepts_demo demo_htab_ok n refl]
    by (auto simp: eval_nat_numeral)
qed

end
