(* ===== verification/Env_Flags.thy ===== *)
theory Env_Flags
  imports Hash_Export
begin

text \<open>
  The flags of environment variables: \<^verbatim>\<open>env/flags.c\<close>, the attribute lists of
  \<^verbatim>\<open>env/attr.c\<close> and \<^verbatim>\<open>strim\<close> of \<^verbatim>\<open>lib/linux_string.c\<close>, for the T40
  configuration (\<^verbatim>\<open>CONFIG_CMD_NET\<close>, \<^verbatim>\<open>CONFIG_REGEX\<close> and \<^verbatim>\<open>CONFIG_ENV_OVERWRITE\<close> set).
  \<^verbatim>\<open>env_flags_validate\<close> is the permission check of the environment's hash table.

  A text is read from a position on as the list of the bytes left; the byte behind the last one is
  the NUL.  Types and accesses are the numbers of the enumerations.
\<close>

unbundle bit_operations_syntax

section \<open>Definitions\<close>

definition env_flags_vartype_rep :: ctext where
  "env_flags_vartype_rep = [115, 100, 120, 98, 105, 109]" \<comment> \<open>\<^verbatim>\<open>sdxbim\<close>\<close>

definition env_flags_varaccess_rep :: ctext where
  "env_flags_varaccess_rep = [97, 114, 111, 99]" \<comment> \<open>\<^verbatim>\<open>aroc\<close>\<close>

definition ENV_FLAGS_VARTYPE_BIN_MASK :: int where "ENV_FLAGS_VARTYPE_BIN_MASK = 0x07"
definition ENV_FLAGS_VARACCESS_PREVENT_DELETE :: int where "ENV_FLAGS_VARACCESS_PREVENT_DELETE = 0x08"
definition ENV_FLAGS_VARACCESS_PREVENT_CREATE :: int where "ENV_FLAGS_VARACCESS_PREVENT_CREATE = 0x10"
definition ENV_FLAGS_VARACCESS_PREVENT_OVERWR :: int where "ENV_FLAGS_VARACCESS_PREVENT_OVERWR = 0x20"
definition ENV_FLAGS_VARACCESS_PREVENT_NONDEF_OVERWR :: int where "ENV_FLAGS_VARACCESS_PREVENT_NONDEF_OVERWR = 0x40"
definition ENV_FLAGS_VARACCESS_BIN_MASK :: int where "ENV_FLAGS_VARACCESS_BIN_MASK = 0x78"
definition ENV_FLAGS_ATTR_MAX_LEN :: nat where "ENV_FLAGS_ATTR_MAX_LEN = 2"
definition H_FORCE :: int where "H_FORCE = 2"

definition env_flags_varaccess_mask :: "int list" where
  "env_flags_varaccess_mask =
     [0,
      (ENV_FLAGS_VARACCESS_PREVENT_DELETE OR ENV_FLAGS_VARACCESS_PREVENT_CREATE) OR ENV_FLAGS_VARACCESS_PREVENT_OVERWR,
      ENV_FLAGS_VARACCESS_PREVENT_DELETE OR ENV_FLAGS_VARACCESS_PREVENT_OVERWR,
      ENV_FLAGS_VARACCESS_PREVENT_DELETE OR ENV_FLAGS_VARACCESS_PREVENT_NONDEF_OVERWR]"

text \<open>The position of a byte in a text, as \<^verbatim>\<open>strchr\<close> finds it.\<close>

fun index_of :: "u8 \<Rightarrow> ctext \<Rightarrow> nat option" where
  "index_of c [] = None"
| "index_of c (d # ds) = (if c = d then Some 0 else map_option Suc (index_of c ds))"

definition env_flags_parse_vartype :: "ctext \<Rightarrow> nat" where
  "env_flags_parse_vartype flags =
     (case flags of [] \<Rightarrow> 0
      | c # _ \<Rightarrow> (case index_of c env_flags_vartype_rep of Some i \<Rightarrow> i | None \<Rightarrow> 0))"

definition env_flags_parse_varaccess :: "ctext \<Rightarrow> nat" where
  "env_flags_parse_varaccess flags =
     (if length flags \<le> 1 then 0
      else (case index_of (flags ! 1) env_flags_varaccess_rep of Some i \<Rightarrow> i | None \<Rightarrow> 0))"

fun mask_index :: "int \<Rightarrow> nat \<Rightarrow> int list \<Rightarrow> nat" where
  "mask_index m i [] = 0"
| "mask_index m i (x # xs) = (if x = m then i else mask_index m (i + 1) xs)"

definition env_flags_parse_varaccess_from_binflags :: "int \<Rightarrow> nat" where
  "env_flags_parse_varaccess_from_binflags binflags =
     mask_index (binflags AND ENV_FLAGS_VARACCESS_BIN_MASK) 0 env_flags_varaccess_mask"

fun is_hex_prefix :: "ctext \<Rightarrow> bool" where
  "is_hex_prefix (a # b # _) \<longleftrightarrow> a = 48 \<and> (b = 120 \<or> b = 88)"
| "is_hex_prefix _ \<longleftrightarrow> False"

text \<open>The loop of \<^verbatim>\<open>skip_num\<close>; a negative \<open>i\<close> does not end it.\<close>

fun skip_digits :: "bool \<Rightarrow> int \<Rightarrow> ctext \<Rightarrow> ctext" where
  "skip_digits hex i [] = []"
| "skip_digits hex i (c # cs) =
     (if i = 0 then c # cs
      else if hex \<and> \<not> isxdigit c then c # cs
      else if \<not> hex \<and> \<not> isdigit c then c # cs
      else skip_digits hex (i - 1) cs)"

definition skip_num :: "bool \<Rightarrow> ctext \<Rightarrow> int \<Rightarrow> ctext" where
  "skip_num hex val max_digits =
     skip_digits hex max_digits (if hex \<and> is_hex_prefix val then drop 2 val else val)"

text \<open>The loops over the fields of an address; \<open>n\<close> fields follow the first one.\<close>

fun eth_fields :: "nat \<Rightarrow> ctext \<Rightarrow> int" where
  "eth_fields n cur =
     (let e = skip_num True cur 2
      in if length cur = length e then - 1
         else if length cur = length e + 2 \<and> is_hex_prefix cur then - 1
         else (case n of
             0 \<Rightarrow> if e \<noteq> [] then - 1 else 0
           | Suc m \<Rightarrow> if e = [] \<or> hd e \<noteq> 58 then - 1 else eth_fields m (tl e)))"

declare eth_fields.simps [simp del]

definition eth_validate_ethaddr_str :: "ctext \<Rightarrow> int" where
  "eth_validate_ethaddr_str addr = eth_fields 5 addr"

fun ip_fields :: "nat \<Rightarrow> ctext \<Rightarrow> int" where
  "ip_fields n cur =
     (let e = skip_num False cur 3
      in if length cur = length e then - 1
         else (case n of
             0 \<Rightarrow> if e \<noteq> [] then - 1 else 0
           | Suc m \<Rightarrow> if e = [] \<or> hd e \<noteq> 46 then - 1 else ip_fields m (tl e)))"

declare ip_fields.simps [simp del]

definition validate_type :: "ctext \<Rightarrow> nat \<Rightarrow> int" where
  "validate_type val type =
     (if type = 1 then (if skip_num False val (- 1) \<noteq> [] then - 1 else 0)
      else if type = 2 then
        (if skip_num True val (- 1) \<noteq> [] then - 1
         else if length val = 2 \<and> is_hex_prefix val then - 1
         else 0)
      else if type = 3 then
        (if val = [] \<or> hd val \<notin> {49, 121, 116, 89, 84, 48, 110, 102, 78, 70} then - 1
         else if tl val \<noteq> [] then - 1
         else 0)
      else if type = 4 then ip_fields 3 val
      else if type = 5 then (if eth_validate_ethaddr_str val \<noteq> 0 then - 1 else 0)
      else if type = 6 then - 1
      else 0)"

definition skip_spaces :: "ctext \<Rightarrow> ctext" where
  "skip_spaces s = dropWhile isspace s"

definition strim :: "ctext \<Rightarrow> ctext" where
  "strim s = (let s = skip_spaces s in if s = [] then s else rev (dropWhile isspace (rev s)))"

text \<open>An entry of an attribute list: the name and, after a colon, the attributes.\<close>

definition split_entry :: "ctext \<Rightarrow> ctext \<times> ctext option" where
  "split_entry e = (strim (takeWhile (\<lambda>c. c \<noteq> 58) e),
     case dropWhile (\<lambda>c. c \<noteq> 58) e of [] \<Rightarrow> None | _ # a \<Rightarrow> Some (strim a))"

definition E_INVAL :: int where "E_INVAL = 22"
definition E_NOMEM :: int where "E_NOMEM = 12"
definition E_NOENT :: int where "E_NOENT = 2"

lemma dropWhile_shorter: "dropWhile P xs = y # ys \<Longrightarrow> length ys < length xs"
  by (metis length_Cons length_dropWhile_le Suc_le_lessD)

text \<open>The walk over a list; \<open>st\<close> is what the callback works on.  \<open>malloc_ok\<close>: allocations
  succeed.\<close>

function attr_entries :: "bool \<Rightarrow> (ctext \<Rightarrow> ctext option \<Rightarrow> 's \<Rightarrow> int \<times> 's) \<Rightarrow> ctext \<Rightarrow> 's \<Rightarrow> int \<times> 's" where
  "attr_entries malloc_ok cb entry st =
     (if takeWhile (\<lambda>c. c \<noteq> 44) entry \<noteq> [] \<and> \<not> malloc_ok then (- E_NOMEM, st)
      else (let (r, st') = (if takeWhile (\<lambda>c. c \<noteq> 44) entry = [] then (0, st)
                            else let (name, attributes) = split_entry (takeWhile (\<lambda>c. c \<noteq> 44) entry)
                                 in if name \<noteq> [] then cb name attributes st else (0, st))
            in if r \<noteq> 0 then (r, st')
               else case dropWhile (\<lambda>c. c \<noteq> 44) entry of
                   [] \<Rightarrow> (0, st')
                 | _ # after \<Rightarrow> attr_entries malloc_ok cb after st'))"
  by pat_completeness auto
termination by (relation "measure (\<lambda>(_, _, e, _). length e)") (auto dest!: dropWhile_shorter)

declare attr_entries.simps [simp del]

definition env_attr_walk :: "bool \<Rightarrow> (ctext \<Rightarrow> ctext option \<Rightarrow> 's \<Rightarrow> int \<times> 's) \<Rightarrow> ctext option \<Rightarrow> 's \<Rightarrow> int \<times> 's" where
  "env_attr_walk malloc_ok cb attr_list st =
     (case attr_list of None \<Rightarrow> (1, st) | Some l \<Rightarrow> attr_entries malloc_ok cb l st)"

text \<open>The state of \<^verbatim>\<open>regex_callback\<close>: the attributes of the last entry that matched.\<close>

definition regex_callback :: "regex \<Rightarrow> bool \<Rightarrow> ctext \<Rightarrow> ctext \<Rightarrow> ctext option \<Rightarrow> ctext option \<Rightarrow> int \<times> ctext option" where
  "regex_callback re malloc_ok searched_for name attributes found =
     (let pat = 94 # name @ [36]
      in if slre_compile re pat then
           (if slre_match re pat searched_for then
              (case attributes of
                 None \<Rightarrow> (- E_INVAL, None)
               | Some a \<Rightarrow> if malloc_ok then (0, Some a) else (- E_NOMEM, None))
            else (0, found))
         else (- E_INVAL, found))"

text \<open>The attributes are copied to a buffer of \<open>room\<close> bytes without a check; past its end is
  \<^const>\<open>None\<close>.  The result is the returned value and what the buffer holds then.\<close>

definition env_attr_lookup :: "regex \<Rightarrow> bool \<Rightarrow> ctext option \<Rightarrow> ctext \<Rightarrow> nat \<Rightarrow> (int \<times> ctext option) option" where
  "env_attr_lookup re malloc_ok attr_list name room =
     (if attr_list = None then Some (- E_INVAL, None)
      else (let (retval, found) = env_attr_walk malloc_ok (regex_callback re malloc_ok name) attr_list None
            in if retval \<noteq> 0 then Some (retval, None)
               else (case found of
                   Some a \<Rightarrow> if length a + 1 \<le> room then Some (0, Some a) else None
                 | None \<Rightarrow> Some (- E_NOENT, None))))"

definition ENV_FLAGS_LIST_STATIC :: ctext where
  "ENV_FLAGS_LIST_STATIC = map of_char
     (''eth'' @ CHR 0x5C # ''d?addr:ma,ipaddr:i,gatewayip:i,netmask:i,serverip:i,nvlan:d,vlan:d,dnsip:i,'')"

definition env_flags_lookup :: "regex \<Rightarrow> bool \<Rightarrow> ctext option \<Rightarrow> ctext \<Rightarrow> nat \<Rightarrow> (int \<times> ctext option) option" where
  "env_flags_lookup re malloc_ok flags_list name room =
     do { r \<leftarrow> (if flags_list \<noteq> None then env_attr_lookup re malloc_ok flags_list name room else Some (1, None));
          if fst r \<noteq> 0 then env_attr_lookup re malloc_ok (Some ENV_FLAGS_LIST_STATIC) name room
          else Some r }"

definition env_parse_flags_to_bin :: "ctext \<Rightarrow> int" where
  "env_parse_flags_to_bin flags =
     (int (env_flags_parse_vartype flags) AND ENV_FLAGS_VARTYPE_BIN_MASK)
     OR env_flags_varaccess_mask ! env_flags_parse_varaccess flags"

text \<open>\<^verbatim>\<open>first_call\<close> and \<^verbatim>\<open>flags_list\<close>; \<open>current\<close> is the value of \<^verbatim>\<open>.flags\<close>.  The result
  has the flags of the new entry, which are 0 before the call.\<close>

definition env_flags_init :: "regex \<Rightarrow> bool \<Rightarrow> ctext option \<Rightarrow> bool \<times> ctext option \<Rightarrow> ctext
    \<Rightarrow> ((bool \<times> ctext option) \<times> int) option" where
  "env_flags_init re malloc_ok current st var_name =
     do { let (first_call, flags_list) = st;
          let flags_list = (if first_call then current else flags_list);
          (ret, flags) \<leftarrow> env_flags_lookup re malloc_ok flags_list var_name (ENV_FLAGS_ATTR_MAX_LEN + 1);
          Some ((False, flags_list),
                case flags of
                  Some a \<Rightarrow> if ret = 0 \<and> a \<noteq> [] then env_parse_flags_to_bin a else 0
                | None \<Rightarrow> 0) }"

text \<open>The flags of the entries, by name.\<close>

definition set_flags :: "hooks \<Rightarrow> hsearch_data \<Rightarrow> ctext \<Rightarrow> ctext option \<Rightarrow> (ctext \<Rightarrow> int) option \<Rightarrow> int \<times> (ctext \<Rightarrow> int) option" where
  "set_flags hk htab name val fl =
     (0, do { f \<leftarrow> fl;
              (_, _, ep, _) \<leftarrow> hsearch_r hk name None FIND htab 0;
              Some (case ep of
                  None \<Rightarrow> f
                | Some _ \<Rightarrow> f(name := (case val of
                      None \<Rightarrow> 0
                    | Some v \<Rightarrow> if v = [] then 0 else env_parse_flags_to_bin v))) })"

definition on_flags :: "hooks \<Rightarrow> bool \<Rightarrow> hsearch_data \<Rightarrow> ctext option \<Rightarrow> (ctext \<Rightarrow> int) option" where
  "on_flags hk malloc_ok htab val =
     (let (_, fl) = env_attr_walk malloc_ok (set_flags hk htab) (Some ENV_FLAGS_LIST_STATIC) (Some (\<lambda>_. 0));
          (_, fl') = env_attr_walk malloc_ok (set_flags hk htab) val fl
      in fl')"

text \<open>\<open>flags\<close> are the flags of the item; \<open>defval\<close> gives the default values.  The result is 0, 1
  or -1.\<close>

definition env_flags_validate :: "(ctext \<Rightarrow> ctext option) \<Rightarrow> ctext \<Rightarrow> int \<Rightarrow> ctext option \<Rightarrow> ctext option \<Rightarrow> env_op \<Rightarrow> int \<Rightarrow> int" where
  "env_flags_validate defval name flags item_data newval0 op flag =
     (let newval = (case newval0 of None \<Rightarrow> [] | Some v \<Rightarrow> v)
      in if op \<noteq> env_op_delete \<and> validate_type newval (nat (ENV_FLAGS_VARTYPE_BIN_MASK AND flags)) < 0 then - 1
         else if flag AND H_FORCE \<noteq> 0 then 0
         else (case op of
             env_op_delete \<Rightarrow> if flags AND ENV_FLAGS_VARACCESS_PREVENT_DELETE \<noteq> 0 then 1 else 0
           | env_op_overwrite \<Rightarrow>
               if flags AND ENV_FLAGS_VARACCESS_PREVENT_OVERWR \<noteq> 0 then 1
               else if flags AND ENV_FLAGS_VARACCESS_PREVENT_NONDEF_OVERWR \<noteq> 0 then
                 (if item_data \<noteq> Some (case defval name of None \<Rightarrow> [] | Some d \<Rightarrow> d) then 1 else 0)
               else 0
           | env_op_create \<Rightarrow> if flags AND ENV_FLAGS_VARACCESS_PREVENT_CREATE \<noteq> 0 then 1 else 0))"

text \<open>The environment's table with this check: \<open>fl\<close> are the flags of the variables, \<open>cb\<close> their
  callbacks.\<close>

definition env_hooks :: "(ctext \<Rightarrow> ctext option) \<Rightarrow> (ctext \<Rightarrow> int) \<Rightarrow> (ctext \<Rightarrow> ctext option \<Rightarrow> env_op \<Rightarrow> int \<Rightarrow> bool) \<Rightarrow> hooks" where
  "env_hooks defval fl cb =
     \<lparr>change_ok = \<lambda>name item_data newval op flag. env_flags_validate defval name (fl name) item_data newval op flag \<noteq> 0,
      callback = cb, strdup = Some\<rparr>"


section \<open>Numbers in texts\<close>

definition dig :: "bool \<Rightarrow> u8 \<Rightarrow> bool" where
  "dig hex c \<longleftrightarrow> (if hex then isxdigit c else isdigit c)"

lemma skip_digits_all: "i < 0 \<Longrightarrow> skip_digits hex i s = dropWhile (dig hex) s"
  by (induction s arbitrary: i) (auto simp: dig_def)

lemma skip_digits_max: "skip_digits hex (int k) s = drop (min k (length (takeWhile (dig hex) s))) s"
proof (induction s arbitrary: k)
  case (Cons c s)
  show ?case
  proof (cases k)
    case (Suc j)
    then show ?thesis using Cons.IH [of j] by (auto simp: dig_def)
  qed simp
qed simp

lemma digit_chars: "\<not> isxdigit 58" "\<not> isxdigit 120" "\<not> isxdigit 88" "isxdigit 48" "\<not> isdigit 46"
  by code_simp+

text \<open>A field of an Ethernet address: one or two hexadecimal digits, with or without the prefix.\<close>

definition mac_field :: "ctext \<Rightarrow> bool" where
  "mac_field f \<longleftrightarrow> (\<exists>ds. 1 \<le> length ds \<and> length ds \<le> 2 \<and> (\<forall>c\<in>set ds. isxdigit c)
     \<and> (f = ds \<or> f = 48 # 120 # ds \<or> f = 48 # 88 # ds))"

lemma takeWhile_max:
  assumes "\<forall>c\<in>set ds. P c" "r = [] \<or> \<not> P (hd r)" shows "takeWhile P (ds @ r) = ds"
  using assms by (cases r) (auto simp: takeWhile_append2)

lemma mac_skip:
  assumes "mac_field f" "r = [] \<or> hd r = 58"
  shows "skip_num True (f @ r) 2 = r" "length (f @ r) \<noteq> length r" "\<not> (length (f @ r) = length r + 2 \<and> is_hex_prefix (f @ r))"
proof -
  from assms(1) obtain ds where ds: "1 \<le> length ds" "length ds \<le> 2" "\<forall>c\<in>set ds. isxdigit c"
    "f = ds \<or> f = 48 # 120 # ds \<or> f = 48 # 88 # ds" by (auto simp: mac_field_def)
  have tw: "takeWhile (dig True) (ds @ r) = ds"
    by (rule takeWhile_max) (use ds(3) assms(2) digit_chars in \<open>auto simp: dig_def\<close>)
  have sk: "skip_digits True 2 (ds @ r) = r"
    using skip_digits_max [of True 2 "ds @ r"] ds(2) unfolding tw by simp
  have np: "\<not> is_hex_prefix (ds @ r)"
  proof
    assume "is_hex_prefix (ds @ r)"
    then obtain b cs where b: "ds @ r = 48 # b # cs" "b = 120 \<or> b = 88" by (cases "ds @ r" rule: is_hex_prefix.cases) auto
    then have "b \<in> set ds \<or> (r \<noteq> [] \<and> b = hd r)" using ds(1) by (cases ds; cases "tl ds") auto
    then show False using ds(3) b(2) assms(2) digit_chars by auto
  qed
  from ds(4) consider (plain) "f = ds" | (pre) x where "x = 120 \<or> x = 88" "f = 48 # x # ds" by blast
  then have "skip_num True (f @ r) 2 = r \<and> length (f @ r) \<noteq> length r \<and> \<not> (length (f @ r) = length r + 2 \<and> is_hex_prefix (f @ r))"
  proof cases
    case plain then show ?thesis using sk np ds(1) by (auto simp: skip_num_def)
  next
    case pre then show ?thesis using sk ds(1) by (auto simp: skip_num_def)
  qed
  then show "skip_num True (f @ r) 2 = r" "length (f @ r) \<noteq> length r"
    "\<not> (length (f @ r) = length r + 2 \<and> is_hex_prefix (f @ r))" by blast+
qed

lemma mac_skipped:
  assumes "length cur \<noteq> length (skip_num True cur 2)"
    and "\<not> (length cur = length (skip_num True cur 2) + 2 \<and> is_hex_prefix cur)"
  shows "\<exists>f. mac_field f \<and> cur = f @ skip_num True cur 2"
proof -
  define s where "s = (if is_hex_prefix cur then drop 2 cur else cur)"
  define m where "m = min 2 (length (takeWhile (dig True) s))"
  have e: "skip_num True cur 2 = drop m s"
    using skip_digits_max [of True 2 s] by (simp add: skip_num_def s_def m_def)
  have ml: "m \<le> length (takeWhile (dig True) s)" "m \<le> length s" "m \<le> 2"
    using length_takeWhile_le [of "dig True" s] by (auto simp: m_def)
  have dg: "\<forall>c\<in>set (take m s). isxdigit c"
  proof
    fix c assume "c \<in> set (take m s)"
    moreover have "take m s = take m (takeWhile (dig True) s)"
      using ml(1) by (metis takeWhile_dropWhile_id take_append diff_is_0_eq take0 append_Nil2)
    ultimately have "c \<in> set (takeWhile (dig True) s)" by (metis in_set_takeD)
    then show "isxdigit c" using set_takeWhileD by (fastforce simp: dig_def)
  qed
  show ?thesis
  proof (cases "is_hex_prefix cur")
    case True
    then obtain x cs where c: "cur = 48 # x # cs" "x = 120 \<or> x = 88" by (cases cur rule: is_hex_prefix.cases) auto
    then have s: "s = cs" using True by (simp add: s_def)
    have "m \<noteq> 0" using assms(2) e s c True by auto
    then have "mac_field (48 # x # take m cs)"
      unfolding mac_field_def using c(2) dg ml s by (intro exI [of _ "take m cs"]) auto
    then show ?thesis using c e s by (intro exI [of _ "48 # x # take m cs"]) simp
  next
    case False
    then have s: "s = cur" by (simp add: s_def)
    have "m \<noteq> 0" using assms(1) e s by auto
    then have "mac_field (take m cur)"
      unfolding mac_field_def using dg ml s by (intro exI [of _ "take m cur"]) auto
    then show ?thesis using e s by (intro exI [of _ "take m cur"]) simp
  qed
qed

fun joined :: "u8 \<Rightarrow> ctext list \<Rightarrow> ctext" where
  "joined c [] = []"
| "joined c [f] = f"
| "joined c (f # g # fs) = f @ c # joined c (g # fs)"

lemma joined_Cons: "fs \<noteq> [] \<Longrightarrow> joined c (f # fs) = f @ c # joined c fs"
  by (cases fs) simp_all

lemma eth_fields_iff:
  "eth_fields n cur = 0 \<longleftrightarrow> (\<exists>fs. length fs = Suc n \<and> (\<forall>f\<in>set fs. mac_field f) \<and> cur = joined 58 fs)"
proof (induction n arbitrary: cur)
  case 0
  show ?case
  proof
    assume a: "eth_fields 0 cur = 0"
    then have e: "skip_num True cur 2 = []" "length cur \<noteq> length (skip_num True cur 2)"
      "\<not> (length cur = length (skip_num True cur 2) + 2 \<and> is_hex_prefix cur)"
      by (auto simp: eth_fields.simps [of 0] Let_def split: if_splits)
    from mac_skipped [OF e(2,3)] e(1) have "mac_field cur" by auto
    then show "\<exists>fs. length fs = Suc 0 \<and> (\<forall>f\<in>set fs. mac_field f) \<and> cur = joined 58 fs"
      by (intro exI [of _ "[cur]"]) simp
  next
    assume "\<exists>fs. length fs = Suc 0 \<and> (\<forall>f\<in>set fs. mac_field f) \<and> cur = joined 58 fs"
    then have "mac_field cur" by (auto simp: length_Suc_conv)
    from mac_skip [OF this, of "[]"] show "eth_fields 0 cur = 0"
      by (auto simp: eth_fields.simps [of 0] Let_def)
  qed
next
  case (Suc n)
  show ?case
  proof
    assume a: "eth_fields (Suc n) cur = 0"
    then have e: "skip_num True cur 2 \<noteq> []" "hd (skip_num True cur 2) = 58"
      "length cur \<noteq> length (skip_num True cur 2)"
      "\<not> (length cur = length (skip_num True cur 2) + 2 \<and> is_hex_prefix cur)"
      and r: "eth_fields n (tl (skip_num True cur 2)) = 0"
      by (auto simp: eth_fields.simps [of "Suc n"] Let_def split: if_splits)
    from mac_skipped [OF e(3,4)] obtain f where f: "mac_field f" "cur = f @ skip_num True cur 2" by blast
    from r Suc.IH obtain fs where fs: "length fs = Suc n" "\<forall>f\<in>set fs. mac_field f"
      "tl (skip_num True cur 2) = joined 58 fs" by blast
    have s: "skip_num True cur 2 = 58 # joined 58 fs" using e(1,2) fs(3) by (cases "skip_num True cur 2") auto
    have "fs \<noteq> []" using fs(1) by auto
    from joined_Cons [OF this, of 58 f] have "cur = joined 58 (f # fs)" using f(2) unfolding s by (rule trans [rotated, OF sym])
    then show "\<exists>fs. length fs = Suc (Suc n) \<and> (\<forall>f\<in>set fs. mac_field f) \<and> cur = joined 58 fs"
      using f(1) fs(1,2) by (intro exI [of _ "f # fs"]) simp
  next
    assume "\<exists>fs. length fs = Suc (Suc n) \<and> (\<forall>f\<in>set fs. mac_field f) \<and> cur = joined 58 fs"
    then obtain gs where gs: "length gs = Suc (Suc n)" "\<forall>f\<in>set gs. mac_field f" "cur = joined 58 gs" by blast
    then obtain f fs where "gs = f # fs" by (cases gs) auto
    with gs have fs: "length fs = Suc n" "mac_field f" "\<forall>f\<in>set fs. mac_field f" "cur = joined 58 (f # fs)" by simp_all
    have "fs \<noteq> []" using fs(1) by auto
    then have cur: "cur = f @ 58 # joined 58 fs" using fs(4) joined_Cons [of fs 58 f] by simp
    have "eth_fields n (joined 58 fs) = 0" using Suc.IH fs(1,3) by blast
    then show "eth_fields (Suc n) cur = 0"
      using mac_skip [OF fs(2), of "58 # joined 58 fs"] cur by (auto simp: eth_fields.simps [of "Suc n"] Let_def)
  qed
qed

section \<open>The flags of a name\<close>

lemma vartype_range: "env_flags_parse_vartype flags < 6"
proof -
  have "index_of c xs = Some i \<Longrightarrow> i < length xs" for c :: u8 and xs i
    by (induction xs arbitrary: i) (auto split: if_splits)
  then show ?thesis by (fastforce simp: env_flags_parse_vartype_def env_flags_vartype_rep_def split: list.splits option.splits)
qed

lemma varaccess_range: "env_flags_parse_varaccess flags < 4"
proof -
  have "index_of c xs = Some i \<Longrightarrow> i < length xs" for c :: u8 and xs i
    by (induction xs arbitrary: i) (auto split: if_splits)
  then show ?thesis by (fastforce simp: env_flags_parse_varaccess_def env_flags_varaccess_rep_def split: option.splits)
qed

lemma bin_flags_table:
  "list_all (\<lambda>t. list_all (\<lambda>a.
     (let b = (int t AND ENV_FLAGS_VARTYPE_BIN_MASK) OR env_flags_varaccess_mask ! a
      in nat (ENV_FLAGS_VARTYPE_BIN_MASK AND b) = t \<and> env_flags_parse_varaccess_from_binflags b = a)) [0..<4]) [0..<6]"
  by code_simp

lemma bin_flags_run:
  "nat (ENV_FLAGS_VARTYPE_BIN_MASK AND env_parse_flags_to_bin flags) = env_flags_parse_vartype flags"
  "env_flags_parse_varaccess_from_binflags (env_parse_flags_to_bin flags) = env_flags_parse_varaccess flags"
proof -
  have "env_flags_parse_vartype flags \<in> set [0..<6]" "env_flags_parse_varaccess flags \<in> set [0..<4]"
    using vartype_range [of flags] varaccess_range [of flags] by simp_all
  then have "let b = env_parse_flags_to_bin flags
      in nat (ENV_FLAGS_VARTYPE_BIN_MASK AND b) = env_flags_parse_vartype flags
         \<and> env_flags_parse_varaccess_from_binflags b = env_flags_parse_varaccess flags"
    using bin_flags_table unfolding list_all_iff env_parse_flags_to_bin_def by blast
  then show "nat (ENV_FLAGS_VARTYPE_BIN_MASK AND env_parse_flags_to_bin flags) = env_flags_parse_vartype flags"
    "env_flags_parse_varaccess_from_binflags (env_parse_flags_to_bin flags) = env_flags_parse_varaccess flags"
    by (simp_all add: Let_def)
qed


section \<open>The environment as a state machine\<close>

text \<open>A step enters or deletes a variable, with flags from \<open>F\<close>.  A new variable is entered only
  while the table has a slot that was never used.\<close>

inductive env_step :: "hooks \<Rightarrow> int set \<Rightarrow> hsearch_data \<Rightarrow> hsearch_data \<Rightarrow> bool" for hk F where
  enter: "\<lbrakk>0 < never_used h \<or> htab_map h k \<noteq> None; flag \<in> F;
           hsearch_r hk k (Some d) ENTER h flag = Some (r, err, rv, h')\<rbrakk> \<Longrightarrow> env_step hk F h h'"
| delete: "\<lbrakk>flag \<in> F; hdelete_r hk k h flag = Some (r, err, h')\<rbrakk> \<Longrightarrow> env_step hk F h h'"

text \<open>What a step does to the variables: nothing, or one change that was not refused.\<close>

lemma env_step_cases:
  assumes "env_step hk F h h'" "htab_ok h" "copies hk"
  obtains (same) "htab_ok h'" "htab_map h' = htab_map h"
  | (set) k d flag where "htab_ok h'" "flag \<in> F" "\<not> refuses hk h k d flag" "htab_map h' = (htab_map h)(k \<mapsto> d)"
  | (gone) k flag where "htab_ok h'" "flag \<in> F" "\<not> refuses_delete hk h k flag" "htab_map h' = (htab_map h)(k := None)"
proof -
  from assms(1) consider
      (en) k flag d r err rv where "0 < never_used h \<or> htab_map h k \<noteq> None" "flag \<in> F"
        "hsearch_r hk k (Some d) ENTER h flag = Some (r, err, rv, h')"
    | (de) flag k r err where "flag \<in> F" "hdelete_r hk k h flag = Some (r, err, h')"
    by (cases rule: env_step.cases) blast+
  then show ?thesis
  proof cases
    case en
    have u: "htab_ok h' \<and> (if refuses hk h k d flag then htab_map h' = htab_map h else htab_map h' = (htab_map h)(k \<mapsto> d))"
    proof (cases "htab_map h k")
      case None
      have "0 < never_used h" using None en(1) by simp
      from enter_absent [OF assms(2,3) None this, of d flag] show ?thesis
        using en(3) by (elim exE conjE) (cases "refuses hk h k d flag"; simp)
    next
      case (Some old)
      from enter_present [OF assms(2,3) Some, of d flag] show ?thesis
        using en(3) by (elim exE conjE) (cases "refuses hk h k d flag"; simp)
    qed
    show ?thesis
    proof (cases "refuses hk h k d flag")
      case True
      show ?thesis by (rule same) (use u True in simp_all)
    next
      case False
      show ?thesis by (rule set [of flag k d]) (use u False en(2) in simp_all)
    qed
  next
    case de
    have u: "htab_ok h' \<and> (if refuses_delete hk h k flag then h' = h else htab_map h' = (htab_map h)(k := None))"
      using hdelete_law [OF assms(2), of hk k flag] de(2)
      by (elim exE conjE) (cases "refuses_delete hk h k flag"; simp)
    show ?thesis
    proof (cases "refuses_delete hk h k flag")
      case True
      show ?thesis by (rule same) (use u True assms(2) in simp_all)
    next
      case False
      show ?thesis by (rule gone [of flag k]) (use u False de(1) in simp_all)
    qed
  qed
qed

lemma copies_env_hooks: "copies (env_hooks defval fl cb)"
  by (simp add: copies_def env_hooks_def)

definition value_type :: "int \<Rightarrow> nat" where
  "value_type flags = nat (ENV_FLAGS_VARTYPE_BIN_MASK AND flags)"

text \<open>Every value has the type its variable is declared with.\<close>

definition env_typed :: "(ctext \<Rightarrow> int) \<Rightarrow> hsearch_data \<Rightarrow> bool" where
  "env_typed fl h \<longleftrightarrow> (\<forall>k d. htab_map h k = Some d \<longrightarrow> validate_type d (value_type (fl k)) = 0)"

lemma eth_fields_values: "eth_fields n cur = 0 \<or> eth_fields n cur = - 1"
proof (induction n arbitrary: cur)
  case 0 show ?case unfolding eth_fields.simps [of 0 cur] Let_def by simp
next
  case (Suc n) then show ?case unfolding eth_fields.simps [of "Suc n" cur] Let_def by simp
qed

lemma ip_fields_values: "ip_fields n cur = 0 \<or> ip_fields n cur = - 1"
proof (induction n arbitrary: cur)
  case 0 show ?case unfolding ip_fields.simps [of 0 cur] Let_def by simp
next
  case (Suc n) then show ?case unfolding ip_fields.simps [of "Suc n" cur] Let_def by simp
qed

lemma validate_type_values: "validate_type d t = 0 \<or> validate_type d t = - 1"
proof (cases "t = 4")
  case True then show ?thesis using ip_fields_values [of 3 d] by (simp add: validate_type_def)
next
  case False
  then show ?thesis unfolding validate_type_def by (simp split del: if_split) (simp split: if_split)
qed

lemma accepted_typed:
  assumes "\<not> refuses (env_hooks defval fl cb) h k d flag"
  shows "validate_type d (value_type (fl k)) = 0"
proof -
  have "\<exists>old op. op \<noteq> env_op_delete \<and> env_flags_validate defval k (fl k) old (Some d) op flag = 0"
    using assms by (auto simp: refuses_def env_hooks_def split: option.splits)
  then have "\<not> validate_type d (value_type (fl k)) < 0"
    by (auto simp: env_flags_validate_def value_type_def Let_def split: if_splits)
  then show ?thesis using validate_type_values [of d "value_type (fl k)"] by linarith
qed

lemma env_typed_step:
  assumes "env_step (env_hooks defval fl cb) F h h'" "htab_ok h" "env_typed fl h"
  shows "htab_ok h' \<and> env_typed fl h'"
  using assms(1,2) copies_env_hooks
proof (cases rule: env_step_cases)
  case same then show ?thesis using assms(3) by (simp add: env_typed_def)
next
  case (set k d flag)
  then show ?thesis using assms(3) accepted_typed [OF set(3)] by (auto simp: env_typed_def)
next
  case (gone k flag)
  then show ?thesis using assms(3) by (auto simp: env_typed_def)
qed

definition no_force :: "int set" where
  "no_force = {flag. flag AND H_FORCE = 0}"

definition fixed :: "int \<Rightarrow> bool" where
  "fixed flags \<longleftrightarrow> flags AND ENV_FLAGS_VARACCESS_PREVENT_DELETE \<noteq> 0 \<and> flags AND ENV_FLAGS_VARACCESS_PREVENT_OVERWR \<noteq> 0"

lemma fixed_refuses:
  assumes "fixed (fl k)" "flag \<in> no_force" "htab_map h k = Some v"
  shows "refuses (env_hooks defval fl cb) h k d flag" "refuses_delete (env_hooks defval fl cb) h k flag"
  using assms by (simp_all add: refuses_def refuses_delete_def env_hooks_def env_flags_validate_def fixed_def no_force_def Let_def)

lemma fixed_step:
  assumes "env_step (env_hooks defval fl cb) no_force h h'" "htab_ok h" "htab_map h k = Some v" "fixed (fl k)"
  shows "htab_ok h' \<and> htab_map h' k = Some v"
  using assms(1,2) copies_env_hooks
proof (cases rule: env_step_cases)
  case same then show ?thesis using assms(3) by simp
next
  case (set k' d flag)
  have "k' \<noteq> k" using set(3) fixed_refuses(1) [where fl = fl and k = k, OF assms(4) set(2) assms(3)] by blast
  then show ?thesis using set assms(3) by simp
next
  case (gone k' flag)
  have "k' \<noteq> k" using gone(3) fixed_refuses(2) [where fl = fl and k = k, OF assms(4) gone(2) assms(3)] by blast
  then show ?thesis using gone assms(3) by simp
qed

lemma fixed_access: "env_flags_parse_varaccess flags \<in> {1, 2} \<Longrightarrow> fixed (env_parse_flags_to_bin flags)"
proof -
  have t: "list_all (\<lambda>t. fixed ((int t AND ENV_FLAGS_VARTYPE_BIN_MASK) OR env_flags_varaccess_mask ! 1)
      \<and> fixed ((int t AND ENV_FLAGS_VARTYPE_BIN_MASK) OR env_flags_varaccess_mask ! 2)) [0..<6]" by code_simp
  have "env_flags_parse_vartype flags \<in> set [0..<6]" using vartype_range [of flags] by simp
  moreover assume "env_flags_parse_varaccess flags \<in> {1, 2}"
  ultimately show ?thesis using t unfolding list_all_iff env_parse_flags_to_bin_def by auto
qed

section \<open>The buffer for the attributes\<close>

lemma attr_single:
  assumes "44 \<notin> set n" "58 \<notin> set n" "44 \<notin> set a" "strim n = n" "n \<noteq> []" "strim a = a"
  shows "attr_entries True cb (n @ 58 # a) st = cb n (Some a) st"
proof -
  have nc: "\<forall>x\<in>set (n @ 58 # a). x \<noteq> 44" using assms by auto
  have tw: "takeWhile (\<lambda>c. c \<noteq> 44) (n @ 58 # a) = n @ 58 # a" using nc by (simp only: takeWhile_eq_all_conv)
  have dw: "dropWhile (\<lambda>c. c \<noteq> 44) (n @ 58 # a) = []" using nc by (simp only: dropWhile_eq_Nil_conv)
  have n58: "\<forall>x\<in>set n. x \<noteq> 58" using assms(2) by auto
  have "takeWhile (\<lambda>c. c \<noteq> 58) (n @ 58 # a) = n" "dropWhile (\<lambda>c. c \<noteq> 58) (n @ 58 # a) = 58 # a"
    using n58 by (simp_all add: takeWhile_append2 dropWhile_append2)
  then have "split_entry (n @ 58 # a) = (n, Some a)" using assms by (simp add: split_entry_def)
  then show ?thesis using assms(5) by (subst attr_entries.simps) (cases "cb n (Some a) st", simp add: tw dw)
qed

lemma attr_overflow_run:
  assumes "44 \<notin> set n" "58 \<notin> set n" "44 \<notin> set a" "strim n = n" "n \<noteq> []" "strim a = a" "ENV_FLAGS_ATTR_MAX_LEN < length a"
    and "slre_compile re (94 # n @ [36])" "slre_match re (94 # n @ [36]) name"
  shows "env_flags_init re True (Some (n @ 58 # a)) (True, l) name = None"
proof -
  have "env_attr_lookup re True (Some (n @ 58 # a)) name (ENV_FLAGS_ATTR_MAX_LEN + 1) = None"
    using assms(7-9) attr_single [OF assms(1-6), of "regex_callback re True name" None]
    by (simp add: env_attr_lookup_def env_attr_walk_def regex_callback_def Let_def)
  then show ?thesis by (simp add: env_flags_init_def env_flags_lookup_def)
qed


section \<open>Properties\<close>

definition decimal_env :: hooks where
  "decimal_env = env_hooks (\<lambda>_. None) (\<lambda>_. 1) (\<lambda>_ _ _ _. False)"

definition readonly_env :: hooks where
  "readonly_env = env_hooks (\<lambda>_. None) (\<lambda>k. if k = [103] then env_parse_flags_to_bin [115, 114] else 0) (\<lambda>_ _ _ _. False)"

lemma demo_typed: "env_typed (\<lambda>_. 1) demo_htab"
proof -
  have v: "validate_type [48] (value_type 1) = 0" "validate_type [49] (value_type 1) = 0" "validate_type [50] (value_type 1) = 0"
    by code_simp+
  show ?thesis unfolding env_typed_def
  proof (intro allI impI)
    fix k d assume "htab_map demo_htab k = Some d"
    from demo_htab_pairs [OF this] show "validate_type d (value_type 1) = 0" using v by auto
  qed
qed

lemma demo_step:
  assumes "0 \<in> F" "\<not> refuses_delete hk demo_htab [98] 0"
  obtains h where "env_step hk F demo_htab h" "htab_map h = (htab_map demo_htab)([98] := None)"
  using hdelete_law [OF demo_htab_ok, of hk "[98]" 0] assms env_step.delete [OF assms(1)] by fastforce





text \<open> C40. A text is taken for an Ethernet address exactly when it is six fields joined by colons, each
  of one or two hexadecimal digits, with or without a prefix \<^verbatim>\<open>0x\<close>.\<close>

theorem eth_validate_correct:
  "eth_validate_ethaddr_str s = 0 \<longleftrightarrow> (\<exists>fs. length fs = 6 \<and> (\<forall>f\<in>set fs. mac_field f) \<and> s = joined 58 fs)"
  unfolding eth_validate_ethaddr_str_def using eth_fields_iff [of 5 s] by simp

theorem eth_validate_correct_witness:
  "eth_validate_ethaddr_str [48, 120, 49, 49, 58, 50, 50, 58, 51, 58, 52, 58, 53, 58, 65, 102] = 0"
  unfolding eth_validate_correct
proof (intro exI conjI)
  show "\<forall>f\<in>set [[48, 120, 49, 49], [50, 50], [51], [52], [53], [65, 102]]. mac_field f"
  proof (intro ballI)
    fix f assume "f \<in> set [[48, 120, 49, 49], [50, 50], [51], [52], [53], [65, 102 :: u8]]"
    moreover have "\<forall>c\<in>{49, 50, 51, 52, 53, 65, 102}. isxdigit c" by code_simp
    ultimately show "mac_field f"
      unfolding mac_field_def
      by (intro exI [of _ "if length f = 4 then drop 2 f else f"]) auto
  qed
qed simp_all

text \<open> The binary flags of an entry give back the type and the access that the flag characters name.\<close>

theorem bin_flags_roundtrip:
  "value_type (env_parse_flags_to_bin flags) = env_flags_parse_vartype flags
   \<and> env_flags_parse_varaccess_from_binflags (env_parse_flags_to_bin flags) = env_flags_parse_varaccess flags"
  using bin_flags_run [of flags] by (simp add: value_type_def)

text \<open> When \<^verbatim>\<open>.flags\<close> gives a variable more than two flag characters, making that variable writes
  past the three bytes that hold them.\<close>

theorem env_flags_init_overflow:
  assumes "44 \<notin> set n" "58 \<notin> set n" "44 \<notin> set a" "strim n = n" "n \<noteq> []" "strim a = a" "ENV_FLAGS_ATTR_MAX_LEN < length a"
    and "slre_compile re (94 # n @ [36])" "slre_match re (94 # n @ [36]) name"
  shows "env_flags_init re True (Some (n @ 58 # a)) (True, l) name = None"
  using assms by (rule attr_overflow_run)

theorem env_flags_init_overflow_witness:
  "env_flags_init \<lparr>slre_compile = \<lambda>_. True, slre_match = \<lambda>p t. p = 94 # t @ [36]\<rparr> True
     (Some [98, 58, 115, 114, 114]) (True, None) [98] = None"
proof -
  have s: "strim [98] = [98]" "strim [115, 114, 114] = [115, 114, 114]" by code_simp+
  show ?thesis
    using env_flags_init_overflow [OF _ _ _ s(1) _ s(2), of "\<lparr>slre_compile = \<lambda>_. True, slre_match = \<lambda>p t. p = 94 # t @ [36]\<rparr>" "[98]" None]
    by (simp add: ENV_FLAGS_ATTR_MAX_LEN_def)
qed

end
