(* ===== verification/Crc.thy ===== *)
theory Crc
  imports UBoot_Prelude
begin

text \<open>
  The checksums of \<^verbatim>\<open>lib/crc32.c\<close>, \<^verbatim>\<open>lib/crc16.c\<close>, \<^verbatim>\<open>lib/crc8.c\<close>, \<^verbatim>\<open>lib/crc7.c\<close> and
  \<^verbatim>\<open>lib/crc32c.c\<close>: table driven code against the shift register it stands for.  The buffer is the list of
  its bytes; \<open>addr\<close> is its address, on which the alignment loop of \<^verbatim>\<open>crc32_no_comp\<close> depends.

  The locale \<open>bit_register\<close> has what makes a register a checksum: its step is linear and loses nothing.
  Two texts of the same length that differ in one byte then have different checksums.
\<close>

section \<open>CRC-32\<close>

text \<open>One step of the inner loop of \<^verbatim>\<open>make_crc_table\<close> and of \<^verbatim>\<open>crc32c_init\<close>.\<close>

definition crc_bit :: "u32 \<Rightarrow> u32 \<Rightarrow> u32" where
  "crc_bit poly c = (if c AND 1 \<noteq> 0 then poly XOR drop_bit 1 c else drop_bit 1 c)"

definition crc_poly :: u32 where
  "crc_poly = fold (\<lambda>n poly. poly OR push_bit (31 - n) 1) [0, 1, 2, 4, 5, 7, 8, 10, 11, 12, 16, 22, 23, 26] 0"

definition crc_entry :: "u32 \<Rightarrow> nat \<Rightarrow> u32" where
  "crc_entry poly n = (crc_bit poly ^^ 8) (of_nat n)"

definition make_crc_table :: "u32 list" where
  "make_crc_table = map (crc_entry crc_poly) [0..<256]"

definition crc_table :: "u32 list" where
  "crc_table = [
    0, 0x77073096, 0xee0e612c, 0x990951ba, 0x76dc419, 0x706af48f, 0xe963a535, 0x9e6495a3,
    0xedb8832, 0x79dcb8a4, 0xe0d5e91e, 0x97d2d988, 0x9b64c2b, 0x7eb17cbd, 0xe7b82d07, 0x90bf1d91,
    0x1db71064, 0x6ab020f2, 0xf3b97148, 0x84be41de, 0x1adad47d, 0x6ddde4eb, 0xf4d4b551, 0x83d385c7,
    0x136c9856, 0x646ba8c0, 0xfd62f97a, 0x8a65c9ec, 0x14015c4f, 0x63066cd9, 0xfa0f3d63, 0x8d080df5,
    0x3b6e20c8, 0x4c69105e, 0xd56041e4, 0xa2677172, 0x3c03e4d1, 0x4b04d447, 0xd20d85fd, 0xa50ab56b,
    0x35b5a8fa, 0x42b2986c, 0xdbbbc9d6, 0xacbcf940, 0x32d86ce3, 0x45df5c75, 0xdcd60dcf, 0xabd13d59,
    0x26d930ac, 0x51de003a, 0xc8d75180, 0xbfd06116, 0x21b4f4b5, 0x56b3c423, 0xcfba9599, 0xb8bda50f,
    0x2802b89e, 0x5f058808, 0xc60cd9b2, 0xb10be924, 0x2f6f7c87, 0x58684c11, 0xc1611dab, 0xb6662d3d,
    0x76dc4190, 0x1db7106, 0x98d220bc, 0xefd5102a, 0x71b18589, 0x6b6b51f, 0x9fbfe4a5, 0xe8b8d433,
    0x7807c9a2, 0xf00f934, 0x9609a88e, 0xe10e9818, 0x7f6a0dbb, 0x86d3d2d, 0x91646c97, 0xe6635c01,
    0x6b6b51f4, 0x1c6c6162, 0x856530d8, 0xf262004e, 0x6c0695ed, 0x1b01a57b, 0x8208f4c1, 0xf50fc457,
    0x65b0d9c6, 0x12b7e950, 0x8bbeb8ea, 0xfcb9887c, 0x62dd1ddf, 0x15da2d49, 0x8cd37cf3, 0xfbd44c65,
    0x4db26158, 0x3ab551ce, 0xa3bc0074, 0xd4bb30e2, 0x4adfa541, 0x3dd895d7, 0xa4d1c46d, 0xd3d6f4fb,
    0x4369e96a, 0x346ed9fc, 0xad678846, 0xda60b8d0, 0x44042d73, 0x33031de5, 0xaa0a4c5f, 0xdd0d7cc9,
    0x5005713c, 0x270241aa, 0xbe0b1010, 0xc90c2086, 0x5768b525, 0x206f85b3, 0xb966d409, 0xce61e49f,
    0x5edef90e, 0x29d9c998, 0xb0d09822, 0xc7d7a8b4, 0x59b33d17, 0x2eb40d81, 0xb7bd5c3b, 0xc0ba6cad,
    0xedb88320, 0x9abfb3b6, 0x3b6e20c, 0x74b1d29a, 0xead54739, 0x9dd277af, 0x4db2615, 0x73dc1683,
    0xe3630b12, 0x94643b84, 0xd6d6a3e, 0x7a6a5aa8, 0xe40ecf0b, 0x9309ff9d, 0xa00ae27, 0x7d079eb1,
    0xf00f9344, 0x8708a3d2, 0x1e01f268, 0x6906c2fe, 0xf762575d, 0x806567cb, 0x196c3671, 0x6e6b06e7,
    0xfed41b76, 0x89d32be0, 0x10da7a5a, 0x67dd4acc, 0xf9b9df6f, 0x8ebeeff9, 0x17b7be43, 0x60b08ed5,
    0xd6d6a3e8, 0xa1d1937e, 0x38d8c2c4, 0x4fdff252, 0xd1bb67f1, 0xa6bc5767, 0x3fb506dd, 0x48b2364b,
    0xd80d2bda, 0xaf0a1b4c, 0x36034af6, 0x41047a60, 0xdf60efc3, 0xa867df55, 0x316e8eef, 0x4669be79,
    0xcb61b38c, 0xbc66831a, 0x256fd2a0, 0x5268e236, 0xcc0c7795, 0xbb0b4703, 0x220216b9, 0x5505262f,
    0xc5ba3bbe, 0xb2bd0b28, 0x2bb45a92, 0x5cb36a04, 0xc2d7ffa7, 0xb5d0cf31, 0x2cd99e8b, 0x5bdeae1d,
    0x9b64c2b0, 0xec63f226, 0x756aa39c, 0x26d930a, 0x9c0906a9, 0xeb0e363f, 0x72076785, 0x5005713,
    0x95bf4a82, 0xe2b87a14, 0x7bb12bae, 0xcb61b38, 0x92d28e9b, 0xe5d5be0d, 0x7cdcefb7, 0xbdbdf21,
    0x86d3d2d4, 0xf1d4e242, 0x68ddb3f8, 0x1fda836e, 0x81be16cd, 0xf6b9265b, 0x6fb077e1, 0x18b74777,
    0x88085ae6, 0xff0f6a70, 0x66063bca, 0x11010b5c, 0x8f659eff, 0xf862ae69, 0x616bffd3, 0x166ccf45,
    0xa00ae278, 0xd70dd2ee, 0x4e048354, 0x3903b3c2, 0xa7672661, 0xd06016f7, 0x4969474d, 0x3e6e77db,
    0xaed16a4a, 0xd9d65adc, 0x40df0b66, 0x37d83bf0, 0xa9bcae53, 0xdebb9ec5, 0x47b2cf7f, 0x30b5ffe9,
    0xbdbdf21c, 0xcabac28a, 0x53b39330, 0x24b4a3a6, 0xbad03605, 0xcdd70693, 0x54de5729, 0x23d967bf,
    0xb3667a2e, 0xc4614ab8, 0x5d681b02, 0x2a6f2b94, 0xb40bbe37, 0xc30c8ea1, 0x5a05df1b, 0x2d02ef8d]"

definition DO_CRC :: "u32 list \<Rightarrow> u32 \<Rightarrow> u32 \<Rightarrow> u32" where
  "DO_CRC tab x crc = tab ! unat ((crc XOR x) AND 255) XOR drop_bit 8 crc"

text \<open>The bytes up to the next multiple of four, the words, and the bytes that are left.  A word is
  loaded in the little-endian order of the machine.\<close>

fun crc_align :: "u32 list \<Rightarrow> nat \<Rightarrow> u32 \<Rightarrow> u8 list \<Rightarrow> u32 \<times> u8 list" where
  "crc_align tab addr crc [] = (crc, [])"
| "crc_align tab addr crc (b # bs) =
     (if addr mod 4 \<noteq> 0 then crc_align tab (addr + 1) (DO_CRC tab (ucast b) crc) bs else (crc, b # bs))"

definition le32 :: "u8 \<Rightarrow> u8 \<Rightarrow> u8 \<Rightarrow> u8 \<Rightarrow> u32" where
  "le32 b0 b1 b2 b3 = ucast b0 OR push_bit 8 (ucast b1) OR push_bit 16 (ucast b2) OR push_bit 24 (ucast b3)"

fun crc_words :: "u32 list \<Rightarrow> u32 \<Rightarrow> u8 list \<Rightarrow> u32 \<times> u8 list" where
  "crc_words tab crc (b0 # b1 # b2 # b3 # bs) =
     crc_words tab (DO_CRC tab 0 (DO_CRC tab 0 (DO_CRC tab 0 (DO_CRC tab 0 (crc XOR le32 b0 b1 b2 b3))))) bs"
| "crc_words tab crc bs = (crc, bs)"

fun crc_tail :: "u32 list \<Rightarrow> u32 \<Rightarrow> u8 list \<Rightarrow> u32" where
  "crc_tail tab crc [] = crc"
| "crc_tail tab crc (b # bs) = crc_tail tab (DO_CRC tab (ucast b) crc) bs"

definition crc32_no_comp :: "nat \<Rightarrow> u32 \<Rightarrow> u8 list \<Rightarrow> u32" where
  "crc32_no_comp addr crc buf =
     (let (crc, b) = crc_align crc_table addr crc buf;
          (crc, b) = crc_words crc_table crc b
      in crc_tail crc_table crc b)"

definition crc32 :: "nat \<Rightarrow> u32 \<Rightarrow> u8 list \<Rightarrow> u32" where
  "crc32 addr crc p = crc32_no_comp addr (crc XOR 0xffffffff) p XOR 0xffffffff"

text \<open>The variant for a watchdog feeds it between chunks; with chunks of no bytes it never ends.\<close>

partial_function (option) crc32_chunks :: "nat \<Rightarrow> u32 \<Rightarrow> u8 list \<Rightarrow> nat \<Rightarrow> u32 option" where
  "crc32_chunks addr crc buf chunk_sz =
     (if buf = [] then Some crc
      else let chunk = (if length buf > chunk_sz then chunk_sz else length buf)
           in crc32_chunks (addr + chunk) (crc32 addr crc (take chunk buf)) (drop chunk buf) chunk_sz)"

definition crc32_wd :: "bool \<Rightarrow> nat \<Rightarrow> u32 \<Rightarrow> u8 list \<Rightarrow> nat \<Rightarrow> u32 option" where
  "crc32_wd config_watchdog addr crc buf chunk_sz =
     (if config_watchdog then crc32_chunks addr crc buf chunk_sz else Some (crc32 addr crc buf))"

text \<open>\<^verbatim>\<open>htonl\<close> and the copy: the most significant byte comes first.\<close>

definition crc32_wd_buf :: "bool \<Rightarrow> nat \<Rightarrow> u8 list \<Rightarrow> nat \<Rightarrow> u8 list option" where
  "crc32_wd_buf config_watchdog addr input chunk_sz =
     map_option (\<lambda>crc. [ucast (drop_bit 24 crc), ucast (drop_bit 16 crc), ucast (drop_bit 8 crc), ucast crc])
       (crc32_wd config_watchdog addr 0 input chunk_sz)"

section \<open>The other checksums\<close>

fun crc32c_cal :: "u32 \<Rightarrow> u8 list \<Rightarrow> u32 list \<Rightarrow> u32" where
  "crc32c_cal crc [] tab = crc"
| "crc32c_cal crc (d # data) tab =
     crc32c_cal (tab ! unat (ucast (crc XOR ucast d) :: u8) XOR drop_bit 8 crc) data tab"

definition crc32c_init :: "u32 \<Rightarrow> u32 list" where
  "crc32c_init pol = map (\<lambda>i. ((\<lambda>v. drop_bit 1 v XOR (if v AND 1 \<noteq> 0 then pol else 0)) ^^ 8) (of_nat i)) [0..<256]"

definition crc16_tab :: "u16 list" where
  "crc16_tab = [
    0, 0x1021, 0x2042, 0x3063, 0x4084, 0x50a5, 0x60c6, 0x70e7, 0x8108, 0x9129, 0xa14a, 0xb16b, 0xc18c, 0xd1ad, 0xe1ce, 0xf1ef,
    0x1231, 0x210, 0x3273, 0x2252, 0x52b5, 0x4294, 0x72f7, 0x62d6, 0x9339, 0x8318, 0xb37b, 0xa35a, 0xd3bd, 0xc39c, 0xf3ff, 0xe3de,
    0x2462, 0x3443, 0x420, 0x1401, 0x64e6, 0x74c7, 0x44a4, 0x5485, 0xa56a, 0xb54b, 0x8528, 0x9509, 0xe5ee, 0xf5cf, 0xc5ac, 0xd58d,
    0x3653, 0x2672, 0x1611, 0x630, 0x76d7, 0x66f6, 0x5695, 0x46b4, 0xb75b, 0xa77a, 0x9719, 0x8738, 0xf7df, 0xe7fe, 0xd79d, 0xc7bc,
    0x48c4, 0x58e5, 0x6886, 0x78a7, 0x840, 0x1861, 0x2802, 0x3823, 0xc9cc, 0xd9ed, 0xe98e, 0xf9af, 0x8948, 0x9969, 0xa90a, 0xb92b,
    0x5af5, 0x4ad4, 0x7ab7, 0x6a96, 0x1a71, 0xa50, 0x3a33, 0x2a12, 0xdbfd, 0xcbdc, 0xfbbf, 0xeb9e, 0x9b79, 0x8b58, 0xbb3b, 0xab1a,
    0x6ca6, 0x7c87, 0x4ce4, 0x5cc5, 0x2c22, 0x3c03, 0xc60, 0x1c41, 0xedae, 0xfd8f, 0xcdec, 0xddcd, 0xad2a, 0xbd0b, 0x8d68, 0x9d49,
    0x7e97, 0x6eb6, 0x5ed5, 0x4ef4, 0x3e13, 0x2e32, 0x1e51, 0xe70, 0xff9f, 0xefbe, 0xdfdd, 0xcffc, 0xbf1b, 0xaf3a, 0x9f59, 0x8f78,
    0x9188, 0x81a9, 0xb1ca, 0xa1eb, 0xd10c, 0xc12d, 0xf14e, 0xe16f, 0x1080, 0xa1, 0x30c2, 0x20e3, 0x5004, 0x4025, 0x7046, 0x6067,
    0x83b9, 0x9398, 0xa3fb, 0xb3da, 0xc33d, 0xd31c, 0xe37f, 0xf35e, 0x2b1, 0x1290, 0x22f3, 0x32d2, 0x4235, 0x5214, 0x6277, 0x7256,
    0xb5ea, 0xa5cb, 0x95a8, 0x8589, 0xf56e, 0xe54f, 0xd52c, 0xc50d, 0x34e2, 0x24c3, 0x14a0, 0x481, 0x7466, 0x6447, 0x5424, 0x4405,
    0xa7db, 0xb7fa, 0x8799, 0x97b8, 0xe75f, 0xf77e, 0xc71d, 0xd73c, 0x26d3, 0x36f2, 0x691, 0x16b0, 0x6657, 0x7676, 0x4615, 0x5634,
    0xd94c, 0xc96d, 0xf90e, 0xe92f, 0x99c8, 0x89e9, 0xb98a, 0xa9ab, 0x5844, 0x4865, 0x7806, 0x6827, 0x18c0, 0x8e1, 0x3882, 0x28a3,
    0xcb7d, 0xdb5c, 0xeb3f, 0xfb1e, 0x8bf9, 0x9bd8, 0xabbb, 0xbb9a, 0x4a75, 0x5a54, 0x6a37, 0x7a16, 0xaf1, 0x1ad0, 0x2ab3, 0x3a92,
    0xfd2e, 0xed0f, 0xdd6c, 0xcd4d, 0xbdaa, 0xad8b, 0x9de8, 0x8dc9, 0x7c26, 0x6c07, 0x5c64, 0x4c45, 0x3ca2, 0x2c83, 0x1ce0, 0xcc1,
    0xef1f, 0xff3e, 0xcf5d, 0xdf7c, 0xaf9b, 0xbfba, 0x8fd9, 0x9ff8, 0x6e17, 0x7e36, 0x4e55, 0x5e74, 0x2e93, 0x3eb2, 0xed1, 0x1ef0]"

fun crc16_ccitt :: "u16 \<Rightarrow> u8 list \<Rightarrow> u16" where
  "crc16_ccitt cksum [] = cksum"
| "crc16_ccitt cksum (b # buf) =
     crc16_ccitt (crc16_tab ! unat ((drop_bit 8 cksum XOR ucast b) AND 0xff) XOR push_bit 8 cksum) buf"

definition POLY :: u16 where "POLY = push_bit 3 0x1070"

definition crc8_byte :: "u16 \<Rightarrow> u8" where
  "crc8_byte data =
     ucast (drop_bit 8 (((\<lambda>data. push_bit 1 (if data AND 0x8000 \<noteq> 0 then data XOR POLY else data)) ^^ 8) data))"

fun crc8 :: "u32 \<Rightarrow> u8 list \<Rightarrow> u32" where
  "crc8 crc [] = crc"
| "crc8 crc (v # vptr) = crc8 (ucast (crc8_byte (ucast (push_bit 8 (crc XOR ucast v))))) vptr"

definition crc7_syndrome_table :: "u8 list" where
  "crc7_syndrome_table = [
    0, 0x9, 0x12, 0x1b, 0x24, 0x2d, 0x36, 0x3f, 0x48, 0x41, 0x5a, 0x53, 0x6c, 0x65, 0x7e, 0x77,
    0x19, 0x10, 0xb, 0x2, 0x3d, 0x34, 0x2f, 0x26, 0x51, 0x58, 0x43, 0x4a, 0x75, 0x7c, 0x67, 0x6e,
    0x32, 0x3b, 0x20, 0x29, 0x16, 0x1f, 0x4, 0xd, 0x7a, 0x73, 0x68, 0x61, 0x5e, 0x57, 0x4c, 0x45,
    0x2b, 0x22, 0x39, 0x30, 0xf, 0x6, 0x1d, 0x14, 0x63, 0x6a, 0x71, 0x78, 0x47, 0x4e, 0x55, 0x5c,
    0x64, 0x6d, 0x76, 0x7f, 0x40, 0x49, 0x52, 0x5b, 0x2c, 0x25, 0x3e, 0x37, 0x8, 0x1, 0x1a, 0x13,
    0x7d, 0x74, 0x6f, 0x66, 0x59, 0x50, 0x4b, 0x42, 0x35, 0x3c, 0x27, 0x2e, 0x11, 0x18, 0x3, 0xa,
    0x56, 0x5f, 0x44, 0x4d, 0x72, 0x7b, 0x60, 0x69, 0x1e, 0x17, 0xc, 0x5, 0x3a, 0x33, 0x28, 0x21,
    0x4f, 0x46, 0x5d, 0x54, 0x6b, 0x62, 0x79, 0x70, 0x7, 0xe, 0x15, 0x1c, 0x23, 0x2a, 0x31, 0x38,
    0x41, 0x48, 0x53, 0x5a, 0x65, 0x6c, 0x77, 0x7e, 0x9, 0, 0x1b, 0x12, 0x2d, 0x24, 0x3f, 0x36,
    0x58, 0x51, 0x4a, 0x43, 0x7c, 0x75, 0x6e, 0x67, 0x10, 0x19, 0x2, 0xb, 0x34, 0x3d, 0x26, 0x2f,
    0x73, 0x7a, 0x61, 0x68, 0x57, 0x5e, 0x45, 0x4c, 0x3b, 0x32, 0x29, 0x20, 0x1f, 0x16, 0xd, 0x4,
    0x6a, 0x63, 0x78, 0x71, 0x4e, 0x47, 0x5c, 0x55, 0x22, 0x2b, 0x30, 0x39, 0x6, 0xf, 0x14, 0x1d,
    0x25, 0x2c, 0x37, 0x3e, 0x1, 0x8, 0x13, 0x1a, 0x6d, 0x64, 0x7f, 0x76, 0x49, 0x40, 0x5b, 0x52,
    0x3c, 0x35, 0x2e, 0x27, 0x18, 0x11, 0xa, 0x3, 0x74, 0x7d, 0x66, 0x6f, 0x50, 0x59, 0x42, 0x4b,
    0x17, 0x1e, 0x5, 0xc, 0x33, 0x3a, 0x21, 0x28, 0x5f, 0x56, 0x4d, 0x44, 0x7b, 0x72, 0x69, 0x60,
    0xe, 0x7, 0x1c, 0x15, 0x2a, 0x23, 0x38, 0x31, 0x46, 0x4f, 0x54, 0x5d, 0x62, 0x6b, 0x70, 0x79]"

text \<open>The index is an \<^verbatim>\<open>int\<close>: a checksum of more than seven bits reads past the table.\<close>

definition crc7_byte :: "u8 \<Rightarrow> u8 \<Rightarrow> u8 option" where
  "crc7_byte crc data = rd crc7_syndrome_table (unat (push_bit 1 (ucast crc) XOR ucast data :: u32))"

fun crc7 :: "u8 \<Rightarrow> u8 list \<Rightarrow> u8 option" where
  "crc7 crc [] = Some crc"
| "crc7 crc (b # buffer) = do { crc \<leftarrow> crc7_byte crc b; crc7 crc buffer }"

section \<open>Shift registers\<close>

text \<open>A function that takes in one byte after another and never forgets a difference.\<close>

locale byte_checksum =
  fixes upd :: "'c \<Rightarrow> u8 \<Rightarrow> 'c"
  assumes state_kept: "upd c b = upd c' b \<Longrightarrow> c = c'"
    and byte_kept: "upd c b = upd c b' \<Longrightarrow> b = b'"
begin

lemma checksum_state_kept: "foldl upd c bs = foldl upd c' bs \<Longrightarrow> c = c'"
  by (induction bs arbitrary: c c') (auto dest: state_kept)

lemma checksum_byte_kept:
  assumes "foldl upd c (xs @ b # ys) = foldl upd c (xs @ b' # ys)"
  shows "b = b'"
  using assms byte_kept by (auto dest: checksum_state_kept)

end

text \<open>A register of bits with a linear step; eight steps take in a byte.\<close>

locale bit_register =
  fixes step :: "'a::len word \<Rightarrow> 'a word" and emb :: "u8 \<Rightarrow> 'a word"
  assumes step_xor: "step (a XOR b) = step a XOR step b"
    and step_inj: "step a = step b \<Longrightarrow> a = b"
    and emb_inj: "emb x = emb y \<Longrightarrow> x = y"
begin

lemma steps_xor: "(step ^^ n) (a XOR b) = (step ^^ n) a XOR (step ^^ n) b"
  by (induction n) (simp_all add: step_xor)

lemma steps_inj: "(step ^^ n) a = (step ^^ n) b \<Longrightarrow> a = b"
  by (induction n) (auto dest: step_inj)

end

text \<open>The byte is added to the register and eight steps are made.\<close>

definition take_in :: "('a::len word \<Rightarrow> 'a word) \<Rightarrow> (u8 \<Rightarrow> 'a word) \<Rightarrow> 'a word \<Rightarrow> u8 \<Rightarrow> 'a word" where
  "take_in step emb c b = (step ^^ 8) (c XOR emb b)"

lemma take_in_alt: "take_in step emb = (\<lambda>c b. (step ^^ 8) (c XOR emb b))"
  by (intro ext) (rule take_in_def)

lemma xor_cancel: "a XOR x = b XOR x \<longleftrightarrow> a = (b :: 'a::len word)" "x XOR a = x XOR b \<longleftrightarrow> a = b"
  by (auto simp: bit_eq_iff bit_simps)

sublocale bit_register \<subseteq> byte_checksum "take_in step emb"
  by unfold_locales (auto simp: take_in_def xor_cancel dest!: steps_inj emb_inj)

lemma bit_double [simp]: "bit (c * 2 :: 'a::len word) n \<longleftrightarrow> 0 < n \<and> n < LENGTH('a) \<and> bit c (n - 1)"
proof -
  have "c * 2 = push_bit 1 c" by (simp add: push_bit_eq_mult)
  then show ?thesis by (simp only: bit_push_bit_iff) (auto simp: Suc_le_eq)
qed

lemma double_xor: "(a XOR b) * 2 = a * 2 XOR b * (2 :: 'a::len word)"
  by (rule bit_word_eqI) (auto simp: bit_xor_iff)

lemma byte_mask: "(255 :: 'a::len word) = mask 8"
  by (simp add: mask_eq_exp_minus_1)

text \<open>A table with a linear entry for every number of \<open>n\<close> bits is made of its entries at the powers
  of two.\<close>

fun spread :: "'a::len word list \<Rightarrow> 'a word list \<Rightarrow> 'a word list" where
  "spread xs [] = xs"
| "spread xs (e # es) = spread (xs @ map (\<lambda>x. e XOR x) xs) es"

lemma of_nat_pow_add: "i < 2 ^ k \<Longrightarrow> (of_nat (2 ^ k + i) :: 'a::len word) = of_nat (2 ^ k) XOR of_nat i"
proof -
  assume i: "i < 2 ^ k"
  have "\<not> bit i n" if "k \<le> n" for n
  proof -
    have "i < 2 ^ n" using i that by (meson less_le_trans one_le_numeral power_increasing)
    then show ?thesis by (simp add: bit_iff_odd)
  qed
  then have "2 ^ k AND i = 0"
    by (intro bit_eqI) (auto simp: bit_and_iff bit_exp_iff)
  then have "2 ^ k XOR i = 2 ^ k + i" by (simp only: disjunctive_add_eq_xor)
  then show ?thesis by (metis of_nat_xor_eq)
qed

lemma spread_step:
  fixes g :: "'a::len word \<Rightarrow> 'b::len word"
  assumes "\<And>a b. g (a XOR b) = g a XOR g b"
  shows "map (\<lambda>n. g (of_nat n)) [0..<2 ^ Suc k]
    = map (\<lambda>n. g (of_nat n)) [0..<2 ^ k] @ map (\<lambda>x. g (of_nat (2 ^ k)) XOR x) (map (\<lambda>n. g (of_nat n)) [0..<2 ^ k])"
proof -
  have "[0..<2 ^ Suc k] = [0..<2 ^ k] @ map (\<lambda>i. 2 ^ k + i) [0..<2 ^ k]"
    using upt_add_eq_append [of 0 "2 ^ k" "2 ^ k"] map_add_upt [of "2 ^ k" "2 ^ k"] by (simp add: mult_2 add.commute)
  then show ?thesis by (simp add: of_nat_pow_add assms del: of_nat_add of_nat_power)
qed

lemma spread_entries_from:
  fixes g :: "'a::len word \<Rightarrow> 'b::len word"
  assumes "\<And>a b. g (a XOR b) = g a XOR g b"
  shows "spread (map (\<lambda>n. g (of_nat n)) [0..<2 ^ k]) (map (\<lambda>i. g (of_nat (2 ^ i))) [k..<k + m])
    = map (\<lambda>n. g (of_nat n)) [0..<2 ^ (k + m)]"
proof (induction m arbitrary: k)
  case (Suc m)
  have "[k..<k + Suc m] = k # [Suc k..<Suc k + m]" by (simp add: upt_conv_Cons)
  then show ?case
    using Suc [of "Suc k"] by (simp only: list.map spread.simps spread_step [OF assms, symmetric]) simp
qed simp

lemma spread_entries:
  fixes g :: "'a::len word \<Rightarrow> 'b::len word"
  assumes "\<And>a b. g (a XOR b) = g a XOR g b"
  shows "spread [0] (map (\<lambda>i. g (of_nat (2 ^ i))) [0..<m]) = map (\<lambda>n. g (of_nat n)) [0..<2 ^ m]"
proof -
  have "g 0 = 0" using assms [of 0 0] by simp
  then show ?thesis using spread_entries_from [OF assms, of 0 m] by simp
qed

lemma foldl_by: "(\<And>c b. f c b = g c b) \<Longrightarrow> foldl f c bs = foldl g c bs"
  by (rule foldl_cong) auto

section \<open>The 32 bit register\<close>

lemma crc_bit_alt: "crc_bit p c = drop_bit 1 c XOR (if bit c 0 then p else 0)"
  by (simp add: crc_bit_def bit_0 and_one_eq xor.commute odd_iff_mod_2_eq_one)

lemma crc_bit_xor: "crc_bit p (a XOR b) = crc_bit p a XOR crc_bit p b"
  by (rule bit_word_eqI) (auto simp: crc_bit_alt bit_simps)

lemma crc_bit_inj:
  assumes "bit p 31" "crc_bit p a = crc_bit p b"
  shows "a = b"
proof -
  have h: "bit (crc_bit p c) 31 = bit c 0" for c
    using assms(1) by (auto simp: crc_bit_alt bit_simps dest: bit_imp_le_length)
  then have z: "bit a 0 = bit b 0" using assms(2) by metis
  then have d: "drop_bit 1 a = drop_bit 1 b"
    using assms(2) by (simp add: crc_bit_alt xor_cancel split: if_splits)
  show ?thesis
  proof (rule bit_word_eqI)
    fix n assume "n < LENGTH(32)"
    then show "bit a n = bit b n"
      using z arg_cong [OF d, of "\<lambda>c. bit c (n - 1)"] by (cases n) (simp_all add: bit_simps)
  qed
qed

lemma crc_poly_eq: "crc_poly = 0xedb88320"
  by code_simp

interpretation r32: bit_register "crc_bit crc_poly" "ucast :: u8 \<Rightarrow> u32"
proof
  show "crc_bit crc_poly (a XOR b) = crc_bit crc_poly a XOR crc_bit crc_poly b" for a b
    by (rule crc_bit_xor)
  have "bit crc_poly 31" by code_simp
  then show "crc_bit crc_poly a = crc_bit crc_poly b \<Longrightarrow> a = b" for a b by (rule crc_bit_inj)
  show "(ucast x :: u32) = ucast y \<Longrightarrow> x = y" for x y :: u8
    by (auto simp: bit_eq_iff bit_simps)
qed

lemma crc_bits_xor: "(crc_bit p ^^ n) (a XOR b) = (crc_bit p ^^ n) a XOR (crc_bit p ^^ n) b"
  by (induction n) (simp_all add: crc_bit_xor)

lemma crc_bits_low:
  assumes "\<And>n. n < k \<Longrightarrow> \<not> bit c n"
  shows "(crc_bit p ^^ k) c = drop_bit k c"
  using assms
proof (induction k arbitrary: c)
  case (Suc k)
  have "crc_bit p c = drop_bit 1 c" using Suc.prems [of 0] by (simp add: crc_bit_alt)
  moreover have "(crc_bit p ^^ k) (drop_bit 1 c) = drop_bit k (drop_bit 1 c)"
    using Suc.prems by (intro Suc.IH) (simp add: bit_simps)
  ultimately show ?case by (simp add: funpow_swap1 drop_bit_drop_bit)
qed simp

text \<open>Eight steps at once: what the table is for.\<close>

lemma crc_bits_table: "(crc_bit p ^^ 8) c = (crc_bit p ^^ 8) (c AND 255) XOR drop_bit 8 c"
proof -
  have s: "c = (c AND 255) XOR push_bit 8 (drop_bit 8 c)"
    by (rule bit_word_eqI) (auto simp: byte_mask bit_simps)
  have "(crc_bit p ^^ 8) (push_bit 8 (drop_bit 8 c)) = drop_bit 8 (push_bit 8 (drop_bit 8 c))"
    by (rule crc_bits_low) (simp add: bit_simps)
  also have "\<dots> = drop_bit 8 c"
    by (rule bit_word_eqI) (auto simp: bit_simps dest: bit_imp_le_length)
  finally show ?thesis by (subst s) (simp only: crc_bits_xor)
qed


definition r32_upd :: "u32 \<Rightarrow> u8 \<Rightarrow> u32" where
  "r32_upd = take_in (crc_bit crc_poly) ucast"

lemma nth_byte_table: "map f [0..<256] ! unat (c AND 255 :: u32) = f (unat (c AND 255))"
proof -
  have "c AND 255 \<le> 255" by (rule word_and_le1)
  then have "unat (c AND 255) \<le> 255" by (simp add: word_le_nat_alt)
  then show ?thesis by simp
qed

lemma DO_CRC_steps:
  assumes "drop_bit 8 x = 0"
  shows "DO_CRC (map (crc_entry p) [0..<256]) x c = (crc_bit p ^^ 8) (c XOR x)"
  using assms unfolding DO_CRC_def nth_byte_table crc_entry_def
  by (subst (2) crc_bits_table) (simp add: drop_bit_xor)

lemma drop_byte [simp]: "drop_bit 8 (ucast b :: u32) = 0" for b :: u8
  by (rule bit_word_eqI) (auto simp: bit_simps dest: bit_imp_le_length)

lemma crc_entry_powers:
  "map (\<lambda>i. crc_entry 0xedb88320 (2 ^ i)) [0..<8]
   = [0x77073096, 0xee0e612c, 0x76dc419, 0xedb8832, 0x1db71064, 0x3b6e20c8, 0x76dc4190, 0xedb88320]"
  by code_simp

lemma crc_table_spread:
  "crc_table = spread [0] [0x77073096, 0xee0e612c, 0x76dc419, 0xedb8832, 0x1db71064, 0x3b6e20c8, 0x76dc4190, 0xedb88320]"
  unfolding crc_table_def by simp

lemma crc_table_made: "crc_table = make_crc_table"
  unfolding make_crc_table_def crc_poly_eq crc_table_spread crc_entry_powers [symmetric]
  using spread_entries [of "crc_bit 0xedb88320 ^^ 8" 8] crc_bits_xor by (simp add: crc_entry_def [abs_def])

lemma DO_CRC_byte: "DO_CRC crc_table (ucast b) c = r32_upd c b"
  by (simp add: crc_table_made make_crc_table_def DO_CRC_steps r32_upd_def take_in_def)

lemma le32_nested: "le32 b0 b1 b2 b3
    = ucast b0 XOR push_bit 8 (ucast b1 XOR push_bit 8 (ucast b2 XOR push_bit 8 (ucast b3)))"
  unfolding le32_def by (rule bit_word_eqI) (auto simp: bit_simps dest: bit_imp_le_length)

lemma crc_bits_byte:
  assumes "drop_bit 24 w = 0"
  shows "(crc_bit p ^^ 8) (c XOR (b XOR push_bit 8 w)) = (crc_bit p ^^ 8) (c XOR b) XOR w"
proof -
  have w: "\<not> bit w n" if "24 \<le> n" for n
    using arg_cong [OF assms, of "\<lambda>v. bit v (n - 24)"] that by (simp add: bit_simps)
  have "(crc_bit p ^^ 8) (push_bit 8 w) = drop_bit 8 (push_bit 8 w)"
    by (rule crc_bits_low) (simp add: bit_simps)
  also have "\<dots> = w"
  proof (rule bit_word_eqI)
    fix n assume "n < LENGTH(32)"
    then show "bit (drop_bit 8 (push_bit 8 w)) n = bit w n"
      using w [of n] by (cases "24 \<le> n") (simp_all add: bit_simps)
  qed
  finally show ?thesis by (simp only: crc_bits_xor xor.assoc)
qed

lemma DO_CRC_word:
  "DO_CRC crc_table 0 (DO_CRC crc_table 0 (DO_CRC crc_table 0 (DO_CRC crc_table 0 (c XOR le32 b0 b1 b2 b3))))
   = foldl r32_upd c [b0, b1, b2, b3]"
proof -
  have d: "drop_bit 24 (ucast b XOR push_bit 8 (ucast b')) = (0 :: u32)"
    "drop_bit 24 (ucast b XOR push_bit 8 (ucast b' XOR push_bit 8 (ucast b''))) = (0 :: u32)"
    "drop_bit 24 (ucast b :: u32) = 0" for b b' b'' :: u8
    by ((rule bit_word_eqI, auto simp: bit_simps dest: bit_imp_le_length)[1])+
  show ?thesis
    by (simp only: crc_table_made make_crc_table_def DO_CRC_steps drop_bit_of_0 xor.comm_neutral foldl.simps r32_upd_def take_in_def
        le32_nested crc_bits_byte d)
qed

lemma crc_align_fold: "crc_align crc_table addr c bs = (c', bs') \<Longrightarrow> foldl r32_upd c' bs' = foldl r32_upd c bs"
  by (induction bs arbitrary: addr c) (auto simp: DO_CRC_byte split: if_splits)

lemma crc_words_fold: "crc_words tab c bs = (c', bs') \<Longrightarrow> tab = crc_table \<Longrightarrow> foldl r32_upd c' bs' = foldl r32_upd c bs"
  by (induction tab c bs rule: crc_words.induct) (auto simp: DO_CRC_word)

lemma crc_tail_fold: "crc_tail crc_table c bs = foldl r32_upd c bs"
  by (induction bs arbitrary: c) (simp_all add: DO_CRC_byte)

lemma crc32_no_comp_fold: "crc32_no_comp addr c bs = foldl r32_upd c bs"
  unfolding crc32_no_comp_def
  by (auto simp: crc_tail_fold split: prod.splits dest!: crc_align_fold crc_words_fold)

text \<open>The checksum as the shift register has it, whatever the alignment.\<close>

definition crc32_ref :: "u32 \<Rightarrow> u8 list \<Rightarrow> u32" where
  "crc32_ref crc bs = NOT (foldl (\<lambda>c b. (crc_bit 0xedb88320 ^^ 8) (c XOR ucast b)) (NOT crc) bs)"

lemma xor_ones: "c XOR 0xffffffff = NOT c" for c :: u32
proof -
  have "(0xffffffff :: u32) = - 1" by simp
  then show ?thesis by (metis bit.xor_one_right)
qed

lemma crc32_fold: "crc32 addr crc bs = NOT (foldl r32_upd (NOT crc) bs)"
  by (simp only: crc32_def crc32_no_comp_fold xor_ones)

lemma crc32_ref_fold: "crc32_ref crc bs = NOT (foldl r32_upd (NOT crc) bs)"
  unfolding crc32_ref_def r32_upd_def crc_poly_eq take_in_alt ..

lemma crc32_append: "crc32 addr' (crc32 addr crc xs) ys = crc32 addr'' crc (xs @ ys)"
  by (simp only: crc32_fold bit.double_compl foldl_append)

lemma crc32_byte_kept:
  assumes "crc32 addr crc (xs @ b # ys) = crc32 addr' crc (xs @ b' # ys)"
  shows "b = b'"
  using assms r32.checksum_byte_kept by (simp only: crc32_fold r32_upd_def bit.compl_eq_compl_iff)

text \<open>Every chunk size gives the same checksum, and the loop ends unless chunks are empty.\<close>

lemma crc32_chunks_run:
  assumes "0 < n"
  shows "crc32_chunks addr crc bs n = Some (crc32 addr crc bs)"
proof (induction "length bs" arbitrary: addr crc bs rule: less_induct)
  case less
  show ?case
  proof (cases "bs = []")
    case False
    let ?k = "if length bs > n then n else length bs"
    have "crc32_chunks addr crc bs n = crc32_chunks (addr + ?k) (crc32 addr crc (take ?k bs)) (drop ?k bs) n"
      by (subst crc32_chunks.simps) (simp add: False Let_def)
    also have "\<dots> = Some (crc32 (addr + ?k) (crc32 addr crc (take ?k bs)) (drop ?k bs))"
      using assms False by (intro less) auto
    also have "\<dots> = Some (crc32 addr crc (take ?k bs @ drop ?k bs))"
      using crc32_append by blast
    finally show ?thesis by (simp only: append_take_drop_id)
  qed (subst crc32_chunks.simps, simp add: crc32_fold)
qed

lemma crc32_wd_run: "config_watchdog \<Longrightarrow> 0 < n \<Longrightarrow> crc32_wd config_watchdog addr crc bs n = Some (crc32 addr crc bs)"
  by (simp add: crc32_wd_def crc32_chunks_run)

section \<open>CRC-32C\<close>

lemma crc32c_init_entries: "crc32c_init pol = map (crc_entry pol) [0..<256]"
proof -
  have "(\<lambda>v. drop_bit 1 v XOR (if v AND 1 \<noteq> 0 then pol else 0)) = crc_bit pol"
    by (auto simp: crc_bit_def xor.commute)
  then show ?thesis unfolding crc32c_init_def crc_entry_def by simp
qed

lemma byte_index: "unat (ucast c :: u8) = unat (c AND 255 :: u32)"
  by (simp add: byte_mask unsigned_ucast_eq unsigned_take_bit_eq flip: take_bit_eq_mask)

lemma crc32c_run: "crc32c_cal crc bs (crc32c_init pol) = foldl (take_in (crc_bit pol) ucast) crc bs"
proof (induction bs arbitrary: crc)
  case (Cons b bs)
  have "crc32c_init pol ! unat (ucast (crc XOR ucast b) :: u8) XOR drop_bit 8 crc
      = DO_CRC (map (crc_entry pol) [0..<256]) (ucast b) crc"
    unfolding DO_CRC_def byte_index crc32c_init_entries ..
  then show ?case using Cons by (simp add: DO_CRC_steps take_in_def)
qed simp

section \<open>Registers that shift to the left\<close>

definition msb_bit :: "'a::len word \<Rightarrow> 'a word \<Rightarrow> 'a word" where
  "msb_bit p c = push_bit 1 c XOR (if bit c (LENGTH('a) - 1) then p else 0)"

lemma msb_bit_xor: "msb_bit p (a XOR b) = msb_bit p a XOR msb_bit p b"
  by (rule bit_word_eqI) (auto simp: msb_bit_def bit_simps)

lemma msb_bits_xor: "(msb_bit p ^^ n) (a XOR b) = (msb_bit p ^^ n) a XOR (msb_bit p ^^ n) b"
  by (induction n) (simp_all add: msb_bit_xor)

lemma msb_bit_inj:
  fixes a b :: "'a::len word"
  assumes "bit p 0" "msb_bit p a = msb_bit p b"
  shows "a = b"
proof -
  have "bit (msb_bit p c) 0 = bit c (LENGTH('a) - 1)" for c
    using assms(1) by (simp add: msb_bit_def bit_simps)
  then have z: "bit a (LENGTH('a) - 1) = bit b (LENGTH('a) - 1)" using assms(2) by metis
  then have d: "push_bit 1 a = push_bit 1 b"
    using assms(2) by (simp add: msb_bit_def xor_cancel split: if_splits)
  show ?thesis
  proof (rule bit_word_eqI)
    fix n assume n: "n < LENGTH('a)"
    show "bit a n = bit b n"
    proof (cases "n = LENGTH('a) - 1")
      case False
      then have "Suc n < LENGTH('a)" using n by linarith
      then show ?thesis using arg_cong [OF d, of "\<lambda>c. bit c (Suc n)"] by (simp add: bit_simps)
    qed (use z in simp)
  qed
qed

lemma msb_bits_high:
  fixes c :: "'a::len word"
  assumes "\<And>n. LENGTH('a) - k \<le> n \<Longrightarrow> \<not> bit c n" "k \<le> LENGTH('a)"
  shows "(msb_bit p ^^ k) c = push_bit k c"
  using assms
proof (induction k arbitrary: c)
  case (Suc k)
  have "msb_bit p c = push_bit 1 c" using Suc.prems(1) [of "LENGTH('a) - 1"] by (simp add: msb_bit_def)
  moreover have "(msb_bit p ^^ k) (push_bit 1 c) = push_bit k (push_bit 1 c)"
    using Suc.prems by (intro Suc.IH) (auto simp: bit_simps)
  ultimately show ?case by (simp add: funpow_swap1 push_bit_push_bit)
qed simp

interpretation r16: bit_register "msb_bit 0x1021" "\<lambda>b. push_bit 8 (ucast b :: u16)"
proof
  show "msb_bit 0x1021 (a XOR b) = msb_bit 0x1021 a XOR msb_bit 0x1021 b" for a b :: u16
    by (rule msb_bit_xor)
  show "msb_bit 0x1021 a = msb_bit 0x1021 b \<Longrightarrow> a = b" for a b :: u16
    by (erule msb_bit_inj [rotated]) simp
  show "x = y" if "push_bit 8 (ucast x :: u16) = push_bit 8 (ucast y)" for x y :: u8
  proof (rule bit_word_eqI)
    fix n assume "n < LENGTH(8)"
    then show "bit x n = bit y n" using arg_cong [OF that, of "\<lambda>c. bit c (n + 8)"] by (simp add: bit_simps)
  qed
qed

definition crc16_entry :: "u16 \<Rightarrow> u16" where
  "crc16_entry c = (msb_bit 0x1021 ^^ 8) (push_bit 8 c)"

lemma crc16_entry_xor: "crc16_entry (a XOR b) = crc16_entry a XOR crc16_entry b"
  by (simp add: crc16_entry_def push_bit_xor msb_bits_xor)

lemma crc16_tab_made: "crc16_tab = map (\<lambda>n. crc16_entry (of_nat n)) [0..<256]"
proof -
  have e: "map (\<lambda>i. crc16_entry (of_nat (2 ^ i))) [0..<8]
      = [0x1021, 0x2042, 0x4084, 0x8108, 0x1231, 0x2462, 0x48c4, 0x9188]" by code_simp
  have "crc16_tab = spread [0] [0x1021, 0x2042, 0x4084, 0x8108, 0x1231, 0x2462, 0x48c4, 0x9188]"
    unfolding crc16_tab_def by simp
  then show ?thesis unfolding e [symmetric] using spread_entries [of crc16_entry 8, OF crc16_entry_xor] by simp
qed

lemma crc16_step:
  "crc16_tab ! unat ((drop_bit 8 c XOR ucast b) AND 0xff) XOR push_bit 8 c
   = take_in (msb_bit 0x1021) (\<lambda>b. push_bit 8 (ucast b)) c b"
proof -
  let ?i = "drop_bit 8 c XOR ucast b :: u16"
  have a: "?i AND 0xff = ?i" unfolding byte_mask by (rule bit_word_eqI) (auto simp: bit_simps dest: bit_imp_le_length)
  have "?i \<le> 0xff" using word_and_le1 [of ?i "0xff"] unfolding a .
  then have "unat ?i < 256" by (simp add: word_le_nat_alt)
  then have "crc16_tab ! unat ?i = crc16_entry ?i" by (simp add: crc16_tab_made)
  moreover have "c XOR push_bit 8 (ucast b) = push_bit 8 ?i XOR take_bit 8 c"
    by (rule bit_word_eqI) (auto simp: bit_simps)
  moreover have "(msb_bit 0x1021 ^^ 8) (take_bit 8 c) = push_bit 8 c"
  proof -
    have "(msb_bit 0x1021 ^^ 8) (take_bit 8 c) = push_bit 8 (take_bit 8 c)"
      by (rule msb_bits_high) (simp_all add: bit_simps)
    also have "\<dots> = push_bit 8 c" by (rule bit_word_eqI) (auto simp: bit_simps)
    finally show ?thesis .
  qed
  ultimately show ?thesis unfolding a by (simp add: take_in_def msb_bits_xor crc16_entry_def)
qed

lemma crc16_run: "crc16_ccitt c bs = foldl (take_in (msb_bit 0x1021) (\<lambda>b. push_bit 8 (ucast b))) c bs"
  by (induction bs arbitrary: c) (simp_all add: crc16_step)

interpretation r8: bit_register "msb_bit 7" "\<lambda>b :: u8. b"
  by unfold_locales (auto simp: msb_bit_xor elim: msb_bit_inj [rotated])

lemma msb_bit_embed: "msb_bit (push_bit 8 (ucast p)) (push_bit 8 (ucast d)) = (push_bit 8 (ucast (msb_bit p d)) :: u16)" for p d :: u8
  by (rule bit_word_eqI) (auto simp: msb_bit_def bit_simps)

lemma crc8_shift: "(msb_bit 0x700 ^^ n) (push_bit 8 (ucast c)) = (push_bit 8 (ucast ((msb_bit 7 ^^ n) c)) :: u16)" for c :: u8
proof (induction n)
  case (Suc n)
  have "msb_bit 0x700 (push_bit 8 (ucast d)) = (push_bit 8 (ucast (msb_bit 7 d)) :: u16)" for d :: u8
    using msb_bit_embed [of 7 d] by simp
  then show ?case using Suc by simp
qed simp

lemma crc8_byte_run: "crc8_byte (push_bit 8 (ucast c)) = (msb_bit 7 ^^ 8) c" for c :: u8
proof -
  have "(\<lambda>data. push_bit 1 (if data AND 0x8000 \<noteq> 0 then data XOR POLY else data)) = msb_bit 0x700"
  proof
    fix data :: u16
    have m: "data AND 0x8000 = 0 \<longleftrightarrow> \<not> bit data 15"
      using and_exp_eq_0_iff_not_bit [of data 15] by simp
    have "push_bit 1 (data XOR POLY) = push_bit 1 data XOR push_bit 1 POLY" by (rule push_bit_xor)
    moreover have "push_bit 1 POLY = 0x700" by (simp add: POLY_def)
    ultimately show "push_bit 1 (if data AND 0x8000 \<noteq> 0 then data XOR POLY else data) = msb_bit 0x700 data"
      by (simp add: msb_bit_def m double_xor)
  qed
  then have "crc8_byte (push_bit 8 (ucast c)) = ucast (drop_bit 8 (push_bit 8 (ucast ((msb_bit 7 ^^ 8) c)) :: u16))"
    unfolding crc8_byte_def by (simp only: crc8_shift)
  also have "\<dots> = (msb_bit 7 ^^ 8) c" by (rule bit_word_eqI) (auto simp: bit_simps)
  finally show ?thesis .
qed

lemma crc8_run: "crc8 (ucast c) bs = ucast (foldl (take_in (msb_bit 7) (\<lambda>b. b)) c bs)" for c :: u8
proof (induction bs arbitrary: c)
  case (Cons b bs)
  have "(ucast (push_bit 8 (ucast c XOR ucast b :: u32)) :: u16) = push_bit 8 (ucast (c XOR b))"
    by (rule bit_word_eqI) (auto simp: bit_simps)
  then show ?case using Cons by (simp add: crc8_byte_run take_in_def)
qed simp

definition crc7_entry :: "u8 \<Rightarrow> u8" where
  "crc7_entry c = drop_bit 1 ((msb_bit 0x12 ^^ 8) c)"

lemma crc7_entry_xor: "crc7_entry (a XOR b) = crc7_entry a XOR crc7_entry b"
  by (simp add: crc7_entry_def drop_bit_xor msb_bits_xor)

lemma crc7_table_made: "crc7_syndrome_table = map (\<lambda>n. crc7_entry (of_nat n)) [0..<256]"
proof -
  have e: "map (\<lambda>i. crc7_entry (of_nat (2 ^ i))) [0..<8] = [9, 0x12, 0x24, 0x48, 0x19, 0x32, 0x64, 0x41]" by code_simp
  have "crc7_syndrome_table = spread [0] [9, 0x12, 0x24, 0x48, 0x19, 0x32, 0x64, 0x41]"
    unfolding crc7_syndrome_table_def by simp
  then show ?thesis unfolding e [symmetric] using spread_entries [of crc7_entry 8, OF crc7_entry_xor] by simp
qed

lemma crc7_byte_run:
  assumes "\<not> bit r 0"
  shows "crc7_byte (drop_bit 1 r) b = Some (drop_bit 1 (take_in (msb_bit 0x12) (\<lambda>b. b) r b))"
proof -
  have "push_bit 1 (ucast (drop_bit 1 r)) XOR ucast b = (ucast (r XOR b) :: u32)"
  proof (rule bit_word_eqI)
    fix n
    show "bit (push_bit 1 (ucast (drop_bit 1 r)) XOR ucast b :: u32) n = bit (ucast (r XOR b) :: u32) n"
      using assms by (cases n) (auto simp: bit_simps dest: bit_imp_le_length)
  qed
  then show ?thesis
    unfolding crc7_byte_def using unsigned_less [of "r XOR b", where 'a = nat]
    by (simp add: crc7_table_made crc7_entry_def take_in_def unsigned_ucast_eq take_bit_nat_eq_self)
qed

lemma crc7_run:
  assumes "\<not> bit r 0"
  shows "crc7 (drop_bit 1 r) bs = Some (drop_bit 1 (foldl (take_in (msb_bit 0x12) (\<lambda>b. b)) r bs))"
  using assms
proof (induction bs arbitrary: r)
  case (Cons b bs)
  have "\<not> bit (msb_bit 0x12 c) 0" for c :: u8 by (simp add: msb_bit_def bit_simps)
  then have "\<not> bit (take_in (msb_bit 0x12) (\<lambda>b. b) r b) 0" by (simp add: take_in_def eval_nat_numeral)
  then show ?case using Cons crc7_byte_run [OF Cons.prems, of b] by simp
qed simp

lemma crc7_start: "c < 128 \<Longrightarrow> drop_bit 1 (push_bit 1 c) = c \<and> \<not> bit (push_bit 1 c) 0" for c :: u8
proof -
  assume c: "c < 128"
  have "\<not> bit c 7" using c by (simp add: bit_iff_odd div_word_less)
  then have "drop_bit 1 (push_bit 1 c) = c"
    by (intro bit_word_eqI) (auto simp: bit_simps less_Suc_eq numeral_eq_Suc)
  then show ?thesis by (simp add: bit_simps)
qed

section \<open>Bursts and chunks\<close>

lemma steps32: "(step ^^ 8) ((step ^^ 8) ((step ^^ 8) ((step ^^ 8) c))) = (step ^^ 32) c"
  by (simp flip: funpow_add [THEN fun_cong, unfolded comp_def])

lemma r32_word: "foldl r32_upd c [b0, b1, b2, b3] = (crc_bit crc_poly ^^ 32) (c XOR le32 b0 b1 b2 b3)"
  unfolding DO_CRC_word [symmetric]
  by (simp only: crc_table_made make_crc_table_def DO_CRC_steps drop_bit_of_0 xor.comm_neutral steps32)

lemma le32_inj: "le32 a0 a1 a2 a3 = le32 b0 b1 b2 b3 \<longleftrightarrow> a0 = b0 \<and> a1 = b1 \<and> a2 = b2 \<and> a3 = b3"
proof
  assume e: "le32 a0 a1 a2 a3 = le32 b0 b1 b2 b3"
  have b: "bit (le32 c0 c1 c2 c3) n = bit c0 n" "bit (le32 c0 c1 c2 c3) (n + 8) = bit c1 n"
    "bit (le32 c0 c1 c2 c3) (n + 16) = bit c2 n" "bit (le32 c0 c1 c2 c3) (n + 24) = bit c3 n"
    if "n < 8" for n c0 c1 c2 c3
    using that by (auto simp: le32_def bit_simps dest: bit_imp_le_length)
  show "a0 = b0 \<and> a1 = b1 \<and> a2 = b2 \<and> a3 = b3"
    by (intro conjI; rule bit_word_eqI; simp; metis b e)
qed simp

lemma burst4_kept:
  assumes "length v = 4" "length w = 4" "foldl r32_upd c v = foldl r32_upd c w"
  shows "v = w"
proof -
  from assms(1,2) obtain a0 a1 a2 a3 b0 b1 b2 b3 where vw: "v = [a0, a1, a2, a3]" "w = [b0, b1, b2, b3]"
    by (auto simp: eval_nat_numeral length_Suc_conv)
  show ?thesis
    using assms(3) unfolding vw r32_word by (auto dest!: r32.steps_inj simp: xor_cancel le32_inj)
qed

lemma burst_kept:
  assumes "length v \<le> 4" "length w = length v" "foldl r32_upd c v = foldl r32_upd c w"
  shows "v = w"
proof -
  let ?p = "replicate (4 - length v) 0"
  have "v @ ?p = w @ ?p"
    using assms by (intro burst4_kept [of _ _ c]) simp_all
  then show ?thesis by simp
qed

lemma crc32_burst_kept:
  assumes "length v \<le> 4" "length w = length v" "crc32 addr crc (xs @ v @ ys) = crc32 addr crc (xs @ w @ ys)"
  shows "v = w"
proof -
  have "foldl r32_upd (foldl r32_upd (foldl r32_upd (NOT crc) xs) v) ys
      = foldl r32_upd (foldl r32_upd (foldl r32_upd (NOT crc) xs) w) ys"
    using assms(3) by (simp add: crc32_fold)
  then show ?thesis using burst_kept [OF assms(1,2)] r32.checksum_state_kept unfolding r32_upd_def by blast
qed

lemma crc32_chunks_stuck: "crc32_chunks addr crc bs n = Some y \<Longrightarrow> n = 0 \<longrightarrow> bs = []"
proof (erule crc32_chunks.raw_induct [rotated])
  fix f :: "nat \<Rightarrow> u32 \<Rightarrow> u8 list \<Rightarrow> nat \<Rightarrow> u32 option" and addr crc bs n y
  assume IH: "\<And>addr crc bs n y. f addr crc bs n = Some y \<Longrightarrow> n = 0 \<longrightarrow> bs = []"
    and r: "(if bs = [] then Some crc
             else let chunk = if n < length bs then n else length bs
                  in f (addr + chunk) (crc32 addr crc (take chunk bs)) (drop chunk bs) n) = Some y"
  show "n = 0 \<longrightarrow> bs = []"
    using r IH [of addr "crc32 addr crc []" bs 0 y] by (cases "n = 0") (auto simp: Let_def split: if_splits)
qed

section \<open>Properties\<close>

text \<open> C10. The code of \<^verbatim>\<open>crc32\<close>, with its table, its alignment loop and its words of four bytes, computes the
  CRC-32 of the polynomial \<^verbatim>\<open>0xedb88320\<close>, bit by bit, wherever the buffer stands.\<close>

theorem crc32_correct: "crc32 addr crc bs = crc32_ref crc bs"
  by (simp only: crc32_fold crc32_ref_fold)

text \<open> C20. Two buffers that differ only inside four consecutive bytes never have the same checksum.\<close>

theorem crc32_detects_burst:
  assumes "length v \<le> 4" "length w = length v" "v \<noteq> w"
  shows "crc32 addr crc (xs @ v @ ys) \<noteq> crc32 addr crc (xs @ w @ ys)"
  using crc32_burst_kept [OF assms(1,2)] assms(3) by blast

theorem crc32_detects_burst_witness:
  "crc32 1 0 ([98, 61] @ [49, 50] @ [0]) \<noteq> crc32 1 0 ([98, 61] @ [51, 50] @ [0])"
  by (rule crc32_detects_burst) simp_all


text \<open> The shorter checksums are those of their polynomials too: CRC-16-CCITT, CRC-8 and CRC-7, whose
  table is never read out of bounds for a start value of seven bits.\<close>

theorem small_crcs_correct:
  "crc16_ccitt c16 bs = foldl (\<lambda>c b. (msb_bit 0x1021 ^^ 8) (c XOR push_bit 8 (ucast b))) c16 bs
   \<and> crc8 (ucast c8) bs = ucast (foldl (\<lambda>c b. (msb_bit 7 ^^ 8) (c XOR b)) (c8 :: u8) bs)
   \<and> (c7 < 128 \<longrightarrow> crc7 c7 bs = Some (drop_bit 1 (foldl (\<lambda>c b. (msb_bit 0x12 ^^ 8) (c XOR b)) (push_bit 1 c7) bs)))"
  using crc7_run [of "push_bit 1 c7" bs] crc7_start [of c7]
  unfolding crc16_run crc8_run take_in_alt by (cases "c7 < 128") simp_all

theorem small_crcs_correct_witness: "crc7 0 [0x40] = Some (drop_bit 1 ((msb_bit 0x12 ^^ 8) 0x40))"
  using small_crcs_correct [of 0 "[0x40]" 0 0] by simp

end
