(* ===== verification/Spi_Flash.thy ===== *)
theory Spi_Flash
  imports UBoot_Prelude
begin

text \<open>
  The SPI flash driver, \<^verbatim>\<open>drivers/mtd/spi/sf.c\<close> and \<^verbatim>\<open>drivers/mtd/spi/spi_flash.c\<close>: status and wait loop,
  page program, sector erase and array read, for a single flash without bank register, as the board
  is configured.  The SPI controller is a parameter: a record of its operations on a state that holds
  the chip behind it.  \<^const>\<open>None\<close> is a loop that never ends or undefined behaviour.

  The locale \<open>nor_device\<close> has what the loops rely on: one command reads, programs within a page or
  erases one sector.  Its lemmas give what whole reads, writes and erasures do to the contents.  It is
  interpreted on a chip that speaks the command protocol, with its write-enable latch and busy flag,
  and whose page program wraps around inside a page.
\<close>

section \<open>The driver\<close>

text \<open>\<open>spi_xfer sl dout n begins ends\<close> sends the bytes \<open>dout\<close> (none for a null pointer) and receives \<open>n\<close>;
  the last two arguments are the flags \<^verbatim>\<open>SPI_XFER_BEGIN\<close> and \<^verbatim>\<open>SPI_XFER_END\<close>.\<close>

record 's spi_slave =
  spi_claim_bus :: "'s \<Rightarrow> int \<times> 's"
  spi_release_bus :: "'s \<Rightarrow> 's"
  spi_xfer :: "u8 list option \<Rightarrow> nat \<Rightarrow> bool \<Rightarrow> bool \<Rightarrow> 's \<Rightarrow> int \<times> u8 list \<times> 's"
  get_timer :: "nat \<Rightarrow> 's \<Rightarrow> nat \<times> 's"
  max_read_size :: nat
  max_write_size :: nat

record 's spi_flash =
  shift :: nat
  use_fsr :: bool
  flash_size :: nat
  page_size :: nat
  erase_size :: nat
  erase_cmd :: u8
  read_cmd :: u8
  write_cmd :: u8
  dummy_byte :: nat
  cmd_len :: nat
  flash_is_locked :: "(nat \<Rightarrow> nat \<Rightarrow> 's \<Rightarrow> int \<times> 's) option"

definition CMD_WRITE_ENABLE :: u8 where "CMD_WRITE_ENABLE = 0x06"
definition CMD_READ_STATUS :: u8 where "CMD_READ_STATUS = 0x05"
definition CMD_FLAG_STATUS :: u8 where "CMD_FLAG_STATUS = 0x70"
definition CMD_PAGE_PROGRAM :: u8 where "CMD_PAGE_PROGRAM = 0x02"
definition CMD_ERASE_64K :: u8 where "CMD_ERASE_64K = 0xd8"
definition CMD_READ_ARRAY_FAST :: u8 where "CMD_READ_ARRAY_FAST = 0x0b"
definition SPI_FLASH_CMD_MAX_LEN :: nat where "SPI_FLASH_CMD_MAX_LEN = 5"
definition SPI_FLASH_16MB_BOUN :: nat where "SPI_FLASH_16MB_BOUN = 0x1000000"
definition SPI_FLASH_PROG_TIMEOUT :: nat where "SPI_FLASH_PROG_TIMEOUT = 2 * 1000"
definition SPI_FLASH_PAGE_ERASE_TIMEOUT :: nat where "SPI_FLASH_PAGE_ERASE_TIMEOUT = 5 * 1000"
definition STATUS_WIP :: u8 where "STATUS_WIP = 0x01"
definition STATUS_PEC :: u8 where "STATUS_PEC = 0x80"
definition E_TIMEDOUT :: int where "E_TIMEDOUT = 110"

definition spi_flash_read_write :: "'s spi_slave \<Rightarrow> u8 list \<Rightarrow> u8 list option \<Rightarrow> nat \<Rightarrow> 's \<Rightarrow> int \<times> u8 list \<times> 's" where
  "spi_flash_read_write sl cmd data_out data_len s =
     (let (ret, din, s1) = spi_xfer sl (Some cmd) (length cmd) True (data_len = 0) s
      in if ret \<noteq> 0 then (ret, [], s1)
         else if data_len \<noteq> 0 then spi_xfer sl data_out data_len False True s1
         else (ret, [], s1))"

definition spi_flash_cmd_read :: "'s spi_slave \<Rightarrow> u8 list \<Rightarrow> nat \<Rightarrow> 's \<Rightarrow> int \<times> u8 list \<times> 's" where
  "spi_flash_cmd_read sl cmd data_len s = spi_flash_read_write sl cmd None data_len s"

definition spi_flash_cmd :: "'s spi_slave \<Rightarrow> u8 \<Rightarrow> nat \<Rightarrow> 's \<Rightarrow> int \<times> u8 list \<times> 's" where
  "spi_flash_cmd sl cmd len s = spi_flash_cmd_read sl [cmd] len s"

definition spi_flash_cmd_write :: "'s spi_slave \<Rightarrow> u8 list \<Rightarrow> u8 list option \<Rightarrow> nat \<Rightarrow> 's \<Rightarrow> int \<times> 's" where
  "spi_flash_cmd_write sl cmd dat data_len s =
     (let (ret, din, s1) = spi_flash_read_write sl cmd dat data_len s in (ret, s1))"

text \<open>The address of a command, most significant byte first.\<close>

fun spi_flash_addr :: "nat \<Rightarrow> nat \<Rightarrow> u8 list" where
  "spi_flash_addr 0 addr = []"
| "spi_flash_addr (Suc n) addr = spi_flash_addr n (addr div 256) @ [of_nat addr]"

definition spi_flash_read_common :: "'s spi_slave \<Rightarrow> u8 list \<Rightarrow> nat \<Rightarrow> 's \<Rightarrow> int \<times> u8 list \<times> 's" where
  "spi_flash_read_common sl cmd data_len s =
     (let (ret, s1) = spi_claim_bus sl s
      in if ret \<noteq> 0 then (ret, [], s1)
         else let (ret, din, s2) = spi_flash_cmd_read sl cmd data_len s1
              in if ret < 0 then (ret, din, s2) else (ret, din, spi_release_bus sl s2))"

text \<open>The register is a byte; a transfer that gives none leaves it undefined.\<close>

definition read_reg :: "'s spi_slave \<Rightarrow> u8 \<Rightarrow> 's \<Rightarrow> (int \<times> u8 \<times> 's) option" where
  "read_reg sl cmd s =
     (let (ret, din, s1) = spi_flash_read_common sl [cmd] 1 s
      in if ret < 0 then Some (ret, 0, s1)
         else case din of [] \<Rightarrow> None | r # _ \<Rightarrow> Some (0, r, s1))"

definition read_sr :: "'s spi_slave \<Rightarrow> 's \<Rightarrow> (int \<times> u8 \<times> 's) option" where
  "read_sr sl s = read_reg sl CMD_READ_STATUS s"

definition read_fsr :: "'s spi_slave \<Rightarrow> 's \<Rightarrow> (int \<times> u8 \<times> 's) option" where
  "read_fsr sl s = read_reg sl CMD_FLAG_STATUS s"

definition spi_flash_sr_ready :: "'s spi_slave \<Rightarrow> 's \<Rightarrow> (int \<times> 's) option" where
  "spi_flash_sr_ready sl s =
     do { (ret, sr, s1) \<leftarrow> read_sr sl s;
          if ret < 0 then Some (ret, s1) else Some (if sr AND STATUS_WIP = 0 then 1 else 0, s1) }"

definition spi_flash_fsr_ready :: "'s spi_slave \<Rightarrow> 's \<Rightarrow> (int \<times> 's) option" where
  "spi_flash_fsr_ready sl s =
     do { (ret, fsr, s1) \<leftarrow> read_fsr sl s;
          if ret < 0 then Some (ret, s1) else Some (uint (fsr AND STATUS_PEC), s1) }"

definition spi_flash_ready :: "'s spi_flash \<Rightarrow> 's spi_slave \<Rightarrow> 's \<Rightarrow> (int \<times> 's) option" where
  "spi_flash_ready fl sl s =
     do { (sr, s1) \<leftarrow> spi_flash_sr_ready sl s;
          if sr < 0 then Some (sr, s1)
          else do { (fsr, s2) \<leftarrow> (if use_fsr fl then spi_flash_fsr_ready sl s1 else Some (1, s1));
                    if fsr < 0 then Some (fsr, s2)
                    else Some (if sr \<noteq> 0 \<and> fsr \<noteq> 0 then 1 else 0, s2) } }"

partial_function (option) wait_loop :: "'s spi_flash \<Rightarrow> 's spi_slave \<Rightarrow> nat \<Rightarrow> nat \<Rightarrow> 's \<Rightarrow> (int \<times> 's) option" where
  "wait_loop fl sl timebase timeout s =
     (let (t, s1) = get_timer sl timebase s
      in if t < timeout
         then do { (ret, s2) \<leftarrow> spi_flash_ready fl sl s1;
                   if ret < 0 then Some (ret, s2)
                   else if ret \<noteq> 0 then Some (0, s2)
                   else wait_loop fl sl timebase timeout s2 }
         else Some (- E_TIMEDOUT, s1))"

definition spi_flash_wait_till_ready :: "'s spi_flash \<Rightarrow> 's spi_slave \<Rightarrow> nat \<Rightarrow> 's \<Rightarrow> (int \<times> 's) option" where
  "spi_flash_wait_till_ready fl sl timeout s =
     (let (timebase, s1) = get_timer sl 0 s in wait_loop fl sl timebase timeout s1)"

definition spi_flash_write_common :: "'s spi_flash \<Rightarrow> 's spi_slave \<Rightarrow> u8 list \<Rightarrow> u8 list option \<Rightarrow> nat \<Rightarrow> 's \<Rightarrow> (int \<times> 's) option" where
  "spi_flash_write_common fl sl cmd buf buf_len s =
     (let timeout = (if buf = None then SPI_FLASH_PAGE_ERASE_TIMEOUT else SPI_FLASH_PROG_TIMEOUT);
          (ret, s1) = spi_claim_bus sl s
      in if ret \<noteq> 0 then Some (ret, s1)
         else let (ret, _, s2) = spi_flash_cmd sl CMD_WRITE_ENABLE 0 s1
              in if ret < 0 then Some (ret, s2)
                 else let (ret, s3) = spi_flash_cmd_write sl cmd buf buf_len s2
                      in if ret < 0 then Some (ret, s3)
                         else do { (ret, s4) \<leftarrow> spi_flash_wait_till_ready fl sl timeout s3;
                                   if ret < 0 then Some (ret, s4) else Some (ret, spi_release_bus sl s4) })"

text \<open>The check of the protection, the loops and the operations.  A write carries the bytes that are
  left, a read the bytes it has so far.\<close>

definition locked :: "'s spi_flash \<Rightarrow> nat \<Rightarrow> nat \<Rightarrow> 's \<Rightarrow> bool \<times> 's" where
  "locked fl offset len s =
     (case flash_is_locked fl of None \<Rightarrow> (False, s) | Some f \<Rightarrow> let (r, s1) = f offset len s in (r > 0, s1))"

partial_function (option) erase_loop :: "'s spi_flash \<Rightarrow> 's spi_slave \<Rightarrow> int \<Rightarrow> nat \<Rightarrow> nat \<Rightarrow> 's \<Rightarrow> (int \<times> 's) option" where
  "erase_loop fl sl ret offset len s =
     (if len = 0 then Some (ret, s)
      else do { (ret, s1) \<leftarrow> spi_flash_write_common fl sl (erase_cmd fl # spi_flash_addr (cmd_len fl - 1) offset) None 0 s;
                if ret < 0 then Some (ret, s1)
                else erase_loop fl sl ret ((offset + erase_size fl) mod 2 ^ 32) (len - erase_size fl) s1 })"

definition spi_flash_cmd_erase_ops :: "'s spi_flash \<Rightarrow> 's spi_slave \<Rightarrow> nat \<Rightarrow> nat \<Rightarrow> 's \<Rightarrow> (int \<times> 's) option" where
  "spi_flash_cmd_erase_ops fl sl offset len s =
     (if erase_size fl = 0 then None
      else if offset mod erase_size fl \<noteq> 0 \<or> len mod erase_size fl \<noteq> 0 then Some (- 1, s)
      else let (l, s1) = locked fl offset len s
           in if l then Some (- 22, s1) else erase_loop fl sl (- 1) offset len s1)"

definition chunk_len :: "'s spi_flash \<Rightarrow> 's spi_slave \<Rightarrow> nat \<Rightarrow> nat \<Rightarrow> nat" where
  "chunk_len fl sl offset left =
     (let chunk = min left (page_size fl - offset mod page_size fl)
      in if max_write_size sl \<noteq> 0
         then min chunk (if SPI_FLASH_CMD_MAX_LEN \<le> max_write_size sl then max_write_size sl - SPI_FLASH_CMD_MAX_LEN
                         else 2 ^ 64 + max_write_size sl - SPI_FLASH_CMD_MAX_LEN)
         else chunk)"

partial_function (option) write_loop :: "'s spi_flash \<Rightarrow> 's spi_slave \<Rightarrow> int \<Rightarrow> nat \<Rightarrow> u8 list \<Rightarrow> 's \<Rightarrow> (int \<times> 's) option" where
  "write_loop fl sl ret offset buf s =
     (if buf = [] then Some (ret, s)
      else if page_size fl = 0 then None
      else let n = chunk_len fl sl offset (length buf)
           in do { (ret, s1) \<leftarrow> spi_flash_write_common fl sl (write_cmd fl # spi_flash_addr (cmd_len fl - 1) offset)
                                  (Some (take n buf)) n s;
                   if ret < 0 then Some (ret, s1)
                   else write_loop fl sl ret ((offset + n) mod 2 ^ 32) (drop n buf) s1 })"

definition spi_flash_cmd_write_ops :: "'s spi_flash \<Rightarrow> 's spi_slave \<Rightarrow> nat \<Rightarrow> u8 list \<Rightarrow> 's \<Rightarrow> (int \<times> 's) option" where
  "spi_flash_cmd_write_ops fl sl offset buf s =
     (let (l, s1) = locked fl offset (length buf) s
      in if l then Some (- 22, s1) else write_loop fl sl (- 1) offset buf s1)"

definition read_chunk :: "'s spi_flash \<Rightarrow> 's spi_slave \<Rightarrow> nat \<Rightarrow> nat \<Rightarrow> nat" where
  "read_chunk fl sl offset len =
     (let remain_len = (if cmd_len fl = 5 then flash_size fl + 2 ^ 32 - offset
                        else SPI_FLASH_16MB_BOUN * 2 ^ shift fl + 2 ^ 32 - offset) mod 2 ^ 32;
          read_len = (if len < remain_len then len else remain_len)
      in if max_read_size sl \<noteq> 0 then min read_len (max_read_size sl) else read_len)"

partial_function (option) read_loop :: "'s spi_flash \<Rightarrow> 's spi_slave \<Rightarrow> int \<Rightarrow> nat \<Rightarrow> nat \<Rightarrow> u8 list \<Rightarrow> 's \<Rightarrow> (int \<times> u8 list \<times> 's) option" where
  "read_loop fl sl ret offset len acc s =
     (if len = 0 then Some (ret, acc, s)
      else let n = read_chunk fl sl offset len;
               (ret, din, s1) = spi_flash_read_common sl
                  (read_cmd fl # spi_flash_addr (cmd_len fl - 1) offset @ replicate (dummy_byte fl) 0) n s
           in if ret < 0 then Some (ret, acc, s1)
              else read_loop fl sl ret ((offset + n) mod 2 ^ 32) (len - n) (acc @ din) s1)"

definition spi_flash_cmd_read_ops :: "'s spi_flash \<Rightarrow> 's spi_slave \<Rightarrow> bool \<Rightarrow> nat \<Rightarrow> nat \<Rightarrow> 's \<Rightarrow> (int \<times> u8 list \<times> 's) option" where
  "spi_flash_cmd_read_ops fl sl calloc_ok offset len s =
     (if \<not> calloc_ok then Some (- 12, [], s) else read_loop fl sl (- 1) offset len [] s)"

section \<open>What the loops do to the contents\<close>

text \<open>A program can only clear bits.\<close>

definition programmed :: "u8 list \<Rightarrow> nat \<Rightarrow> u8 list \<Rightarrow> u8 list" where
  "programmed m a bs = put_seg m a (map2 (AND) (seg m a (length bs)) bs)"

definition erased :: "u8 list \<Rightarrow> nat \<Rightarrow> nat \<Rightarrow> u8 list" where
  "erased m a n = put_seg m a (replicate n 0xff)"

lemma length_programmed [simp]: "a + length bs \<le> length m \<Longrightarrow> length (programmed m a bs) = length m"
  by (simp add: programmed_def put_seg_def seg_def)

lemma length_erased [simp]: "a + n \<le> length m \<Longrightarrow> length (erased m a n) = length m"
  by (simp add: erased_def put_seg_def)

lemma nth_programmed:
  "a + length bs \<le> length m \<Longrightarrow> i < length m \<Longrightarrow>
   programmed m a bs ! i = (if a \<le> i \<and> i < a + length bs then m ! i AND bs ! (i - a) else m ! i)"
  by (auto simp: programmed_def put_seg_def seg_def nth_append)

lemma nth_erased:
  "a + n \<le> length m \<Longrightarrow> i < length m \<Longrightarrow> erased m a n ! i = (if a \<le> i \<and> i < a + n then 0xff else m ! i)"
  by (auto simp: erased_def put_seg_def nth_append)

lemma programmed_append:
  assumes "a + length bs + length cs \<le> length m"
  shows "programmed (programmed m a bs) (a + length bs) cs = programmed m a (bs @ cs)"
  by (rule nth_equalityI) (use assms in \<open>auto simp: nth_programmed nth_append\<close>)

lemma erased_add:
  assumes "a + k + n \<le> length m"
  shows "erased (erased m a k) (a + k) n = erased m a (k + n)"
  by (rule nth_equalityI) (use assms in \<open>auto simp: nth_erased\<close>)

lemma programmed_erased:
  assumes "a + n \<le> length m" "a \<le> b" "b + length bs \<le> a + n"
  shows "programmed (erased m a n) b bs = put_seg (erased m a n) b bs"
proof (rule nth_equalityI)
  have ff: "0xff AND c = c" for c :: u8
  proof -
    have "(0xff :: u8) = - 1" by simp
    then show ?thesis by (metis and.left_neutral)
  qed
  fix i assume "i < length (programmed (erased m a n) b bs)"
  then show "programmed (erased m a n) b bs ! i = put_seg (erased m a n) b bs ! i"
    using assms by (auto simp: nth_programmed nth_erased put_seg_def nth_append ff)
qed (use assms in \<open>simp add: put_seg_def\<close>)

text \<open>A read that goes past the last address of three bytes.\<close>

definition past_bank :: "('s \<Rightarrow> u8 list) \<Rightarrow> ('s \<Rightarrow> bool) \<Rightarrow> nat \<Rightarrow> nat \<Rightarrow> 's \<Rightarrow> bool" where
  "past_bank content idle off len s \<longleftrightarrow> idle s \<and> length (content s) = SPI_FLASH_16MB_BOUN
     \<and> off \<le> SPI_FLASH_16MB_BOUN \<and> SPI_FLASH_16MB_BOUN < off + len"

locale nor_device =
  fixes fl :: "'s spi_flash" and sl :: "'s spi_slave" and content :: "'s \<Rightarrow> u8 list" and idle :: "'s \<Rightarrow> bool"
  assumes geometry: "0 < page_size fl" "0 < erase_size fl" "cmd_len fl = 4" "shift fl = 0" "flash_is_locked fl = None"
    and transfers: "max_write_size sl = 0 \<or> 5 < max_write_size sl"
    and addressed: "idle s \<Longrightarrow> length (content s) \<le> SPI_FLASH_16MB_BOUN"
    and read_law: "idle s \<Longrightarrow> a + n \<le> length (content s) \<Longrightarrow>
      \<exists>s'. spi_flash_read_common sl (read_cmd fl # spi_flash_addr 3 a @ replicate (dummy_byte fl) 0) n s
             = (0, seg (content s) a n, s') \<and> idle s' \<and> content s' = content s"
    and program_law: "idle s \<Longrightarrow> bs \<noteq> [] \<Longrightarrow> a mod page_size fl + length bs \<le> page_size fl \<Longrightarrow> a + length bs \<le> length (content s) \<Longrightarrow>
      \<exists>s'. spi_flash_write_common fl sl (write_cmd fl # spi_flash_addr 3 a) (Some bs) (length bs) s = Some (0, s')
         \<and> idle s' \<and> content s' = programmed (content s) a bs"
    and erase_law: "idle s \<Longrightarrow> a mod erase_size fl = 0 \<Longrightarrow> a + erase_size fl \<le> length (content s) \<Longrightarrow>
      \<exists>s'. spi_flash_write_common fl sl (erase_cmd fl # spi_flash_addr 3 a) None 0 s = Some (0, s')
         \<and> idle s' \<and> content s' = erased (content s) a (erase_size fl)"
begin

lemma in_bank: "idle s \<Longrightarrow> a \<le> length (content s) \<Longrightarrow> a mod 4294967296 = a"
  using addressed by (fastforce simp: SPI_FLASH_16MB_BOUN_def)

lemma chunk_bounds:
  assumes "0 < left"
  shows "0 < chunk_len fl sl off left" "chunk_len fl sl off left \<le> left"
    "off mod page_size fl + chunk_len fl sl off left \<le> page_size fl"
proof -
  have "off mod page_size fl < page_size fl" using geometry(1) by simp
  then show "0 < chunk_len fl sl off left" "chunk_len fl sl off left \<le> left"
    "off mod page_size fl + chunk_len fl sl off left \<le> page_size fl"
    using assms transfers by (auto simp: chunk_len_def Let_def SPI_FLASH_CMD_MAX_LEN_def min_def)
qed

lemma write_loop_run:
  assumes "idle s" "off + length bs \<le> length (content s)"
  shows "\<exists>s'. write_loop fl sl ret off bs s = Some (if bs = [] then ret else 0, s') \<and> idle s'
           \<and> content s' = (if bs = [] then content s else programmed (content s) off bs)"
  using assms
proof (induction "length bs" arbitrary: bs off s ret rule: less_induct)
  case less
  show ?case
  proof (cases "bs = []")
    case True
    then show ?thesis using less.prems by (subst write_loop.simps) simp
  next
    case False
    define n where "n = chunk_len fl sl off (length bs)"
    have n: "0 < n" "n \<le> length bs" "off mod page_size fl + n \<le> page_size fl"
      using chunk_bounds [of "length bs" off] False by (simp_all add: n_def)
    have l: "length (take n bs) = n" using n(2) by simp
    from program_law [OF less.prems(1), of "take n bs" off] obtain s1 where
      s1: "spi_flash_write_common fl sl (write_cmd fl # spi_flash_addr 3 off) (Some (take n bs)) n s = Some (0, s1)"
        "idle s1" "content s1 = programmed (content s) off (take n bs)"
      using n less.prems(2) False unfolding l by auto
    have m: "(off + n) mod 4294967296 = off + n" using in_bank [OF less.prems(1), of "off + n"] n(2) less.prems(2) by simp
    have step: "write_loop fl sl ret off bs s = write_loop fl sl 0 (off + n) (drop n bs) s1"
      using geometry(1) by (subst write_loop.simps) (simp add: False geometry(3) n_def [symmetric] s1(1) m)
    have c: "length (content s1) = length (content s)" using s1(3) l n(2) less.prems(2) by simp
    have d: "length (drop n bs) < length bs" using n by simp
    from less.hyps [OF d s1(2), of "off + n" 0] obtain s' where
      s': "write_loop fl sl 0 (off + n) (drop n bs) s1 = Some (0, s')" "idle s'"
        "content s' = (if drop n bs = [] then content s1 else programmed (content s1) (off + n) (drop n bs))"
      using n less.prems(2) c by auto
    have "content s' = programmed (content s) off bs"
    proof (cases "drop n bs = []")
      case True
      then show ?thesis using s'(3) s1(3) by simp
    next
      case False
      have "programmed (programmed (content s) off (take n bs)) (off + n) (drop n bs) = programmed (content s) off (take n bs @ drop n bs)"
        using programmed_append [of off "take n bs" "drop n bs" "content s"] l n(2) less.prems(2) by simp
      then show ?thesis using s'(3) s1(3) False by simp
    qed
    then show ?thesis using step s' False by simp
  qed
qed

lemma erase_loop_run:
  assumes "idle s" "off mod erase_size fl = 0" "off + k * erase_size fl \<le> length (content s)"
  shows "\<exists>s'. erase_loop fl sl ret off (k * erase_size fl) s = Some (if k = 0 then ret else 0, s') \<and> idle s'
           \<and> content s' = (if k = 0 then content s else erased (content s) off (k * erase_size fl))"
  using assms
proof (induction k arbitrary: off s ret)
  case 0
  then show ?case by (subst erase_loop.simps) simp
next
  case (Suc k)
  have off: "off + erase_size fl \<le> length (content s)" using Suc.prems(3) by simp
  from erase_law [OF Suc.prems(1,2) off] obtain s1 where
    s1: "spi_flash_write_common fl sl (erase_cmd fl # spi_flash_addr 3 off) None 0 s = Some (0, s1)"
      "idle s1" "content s1 = erased (content s) off (erase_size fl)" by blast
  have m: "(off + erase_size fl) mod 4294967296 = off + erase_size fl" using in_bank [OF Suc.prems(1) off] .
  have step: "erase_loop fl sl ret off (Suc k * erase_size fl) s = erase_loop fl sl 0 (off + erase_size fl) (k * erase_size fl) s1"
    using geometry(2) by (subst erase_loop.simps) (simp add: geometry(3) s1(1) m)
  have c: "length (content s1) = length (content s)" using s1(3) off by simp
  from Suc.IH [OF s1(2), of "off + erase_size fl" 0] obtain s' where
    s': "erase_loop fl sl 0 (off + erase_size fl) (k * erase_size fl) s1 = Some (0, s')" "idle s'"
      "content s' = (if k = 0 then content s1 else erased (content s1) (off + erase_size fl) (k * erase_size fl))"
    using Suc.prems(2,3) c by auto
  have "content s' = erased (content s) off (Suc k * erase_size fl)"
    using s'(3) s1(3) erased_add [of off "erase_size fl" "k * erase_size fl" "content s"] Suc.prems(3) by (auto simp: add.assoc)
  then show ?case using step s'(1,2) by simp
qed

lemma read_chunk_min:
  assumes "off \<le> SPI_FLASH_16MB_BOUN"
  shows "read_chunk fl sl off len = (let n = min len (SPI_FLASH_16MB_BOUN - off)
           in if max_read_size sl \<noteq> 0 then min n (max_read_size sl) else n)"
proof -
  have "(SPI_FLASH_16MB_BOUN * 2 ^ shift fl + 2 ^ 32 - off) mod 2 ^ 32 = SPI_FLASH_16MB_BOUN - off"
    using assms geometry(4) by (simp add: SPI_FLASH_16MB_BOUN_def mod_if)
  then show ?thesis using geometry(3) by (simp only: read_chunk_def) (simp add: min_def Let_def)
qed

lemma read_chunk_bounds:
  assumes "0 < len" "off + len \<le> SPI_FLASH_16MB_BOUN"
  shows "0 < read_chunk fl sl off len" "read_chunk fl sl off len \<le> len"
  using assms by (auto simp: read_chunk_min Let_def)

lemma read_loop_run:
  assumes "idle s" "off + len \<le> length (content s)"
  shows "\<exists>s'. read_loop fl sl ret off len acc s = Some (if len = 0 then ret else 0, acc @ seg (content s) off len, s')
           \<and> idle s' \<and> content s' = content s"
  using assms
proof (induction len arbitrary: off acc s ret rule: less_induct)
  case (less len)
  show ?case
  proof (cases "len = 0")
    case True
    then show ?thesis using less.prems by (subst read_loop.simps) (simp add: seg_def)
  next
    case False
    define n where "n = read_chunk fl sl off len"
    have n: "0 < n" "n \<le> len"
      using read_chunk_bounds [of len off] False less.prems(2) addressed [OF less.prems(1)] by (simp_all add: n_def)
    from read_law [OF less.prems(1), of off n] obtain s1 where
      s1: "spi_flash_read_common sl (read_cmd fl # spi_flash_addr 3 off @ replicate (dummy_byte fl) 0) n s
             = (0, seg (content s) off n, s1)" "idle s1" "content s1 = content s"
      using n less.prems(2) by auto
    have m: "(off + n) mod 4294967296 = off + n" using in_bank [OF less.prems(1), of "off + n"] n(2) less.prems(2) by simp
    have step: "read_loop fl sl ret off len acc s = read_loop fl sl 0 (off + n) (len - n) (acc @ seg (content s) off n) s1"
      by (subst read_loop.simps) (simp add: False geometry(3) n_def [symmetric] s1(1) m)
    from less.IH [of "len - n" s1 "off + n" 0 "acc @ seg (content s) off n"] obtain s' where
      s': "read_loop fl sl 0 (off + n) (len - n) (acc @ seg (content s) off n) s1
             = Some (0, acc @ seg (content s) off n @ seg (content s) (off + n) (len - n), s')" "idle s'" "content s' = content s"
      using n False less.prems s1(2,3) by auto
    have "seg (content s) off n @ seg (content s) (off + n) (len - n) = seg (content s) off len"
      using take_add [of n "len - n" "drop off (content s)"] n(2) by (simp add: seg_def add.commute)
    then show ?thesis using step s' False by simp
  qed
qed

lemma erase_run:
  assumes "idle s" "off mod erase_size fl = 0" "0 < k" "off + k * erase_size fl \<le> length (content s)"
  shows "\<exists>s'. spi_flash_cmd_erase_ops fl sl off (k * erase_size fl) s = Some (0, s') \<and> idle s'
           \<and> content s' = erased (content s) off (k * erase_size fl)"
  using erase_loop_run [OF assms(1,2,4), of "- 1"] assms(2,3) geometry
  by (auto simp: spi_flash_cmd_erase_ops_def locked_def)

lemma write_run:
  assumes "idle s" "bs \<noteq> []" "off + length bs \<le> length (content s)"
  shows "\<exists>s'. spi_flash_cmd_write_ops fl sl off bs s = Some (0, s') \<and> idle s' \<and> content s' = programmed (content s) off bs"
  using write_loop_run [OF assms(1,3), of "- 1"] assms(2) geometry by (auto simp: spi_flash_cmd_write_ops_def locked_def)

lemma read_run:
  assumes "idle s" "0 < len" "off + len \<le> length (content s)"
  shows "\<exists>s'. spi_flash_cmd_read_ops fl sl True off len s = Some (0, seg (content s) off len, s') \<and> idle s' \<and> content s' = content s"
  using read_loop_run [OF assms(1,3), of "- 1" "[]"] assms(2) by (auto simp: spi_flash_cmd_read_ops_def)

lemma past_bank_step:
  assumes "past_bank content idle off len s" "n = read_chunk fl sl off len"
    and "spi_flash_read_common sl (read_cmd fl # spi_flash_addr 3 off @ replicate (dummy_byte fl) 0) n s = (ret, din, s1)"
  shows "\<not> ret < 0 \<and> past_bank content idle ((off + n) mod 2 ^ 32) (len - n) s1"
proof -
  have b: "idle s" "length (content s) = SPI_FLASH_16MB_BOUN" "off \<le> SPI_FLASH_16MB_BOUN" "SPI_FLASH_16MB_BOUN < off + len"
    using assms(1) by (auto simp: past_bank_def)
  have n: "n \<le> len" "off + n \<le> SPI_FLASH_16MB_BOUN"
    unfolding assms(2) read_chunk_min [OF b(3)] using b(3) by (auto simp: Let_def min_def)
  from read_law [OF b(1), of off n] assms(3) n(2) b(2) have "ret = 0" "idle s1" "content s1 = content s" by auto
  moreover have "(off + n) mod 2 ^ 32 = off + n" using in_bank [OF b(1), of "off + n"] n(2) b(2) by simp
  ultimately show ?thesis using b n by (simp add: past_bank_def)
qed

lemma read_loop_stuck:
  assumes "read_loop fl' sl' ret off len acc s = Some y"
  shows "fl' = fl \<and> sl' = sl \<longrightarrow> \<not> past_bank content idle off len s"
  using assms
proof (rule read_loop.raw_induct [rotated, of _ _ _ _ _ _ _ _ "\<lambda>fl' sl' ret off len acc s y. fl' = fl \<and> sl' = sl \<longrightarrow> \<not> past_bank content idle off len s"])
  fix f fl' sl' ret off len acc s y
  assume IH: "\<And>fl' sl' ret off len acc s y. f fl' sl' ret off len acc s = Some y \<Longrightarrow> fl' = fl \<and> sl' = sl \<longrightarrow> \<not> past_bank content idle off len s"
    and r: "(if len = 0 then Some (ret, acc, s)
      else let n = read_chunk fl' sl' off len;
               (ret, din, s1) = spi_flash_read_common sl'
                  (read_cmd fl' # spi_flash_addr (cmd_len fl' - 1) off @ replicate (dummy_byte fl') 0) n s
           in if ret < 0 then Some (ret, acc, s1)
              else f fl' sl' ret ((off + n) mod 2 ^ 32) (len - n) (acc @ din) s1) = Some y"
  show "fl' = fl \<and> sl' = sl \<longrightarrow> \<not> past_bank content idle off len s"
  proof (intro impI notI)
    assume e: "fl' = fl \<and> sl' = sl" and p: "past_bank content idle off len s"
    define n where "n = read_chunk fl sl off len"
    obtain ret1 din s1 where c: "spi_flash_read_common sl (read_cmd fl # spi_flash_addr 3 off @ replicate (dummy_byte fl) 0) n s = (ret1, din, s1)"
      by (metis prod_cases3)
    have "0 < len" using p by (auto simp: past_bank_def)
    then have "f fl sl ret1 ((off + n) mod 2 ^ 32) (len - n) (acc @ din) s1 = Some y"
      using r past_bank_step [OF p n_def c] e geometry(3) c by (simp add: n_def [symmetric] Let_def)
    from IH [OF this] show False using past_bank_step [OF p n_def c] by simp
  qed
qed

lemma read_past_bank:
  assumes "past_bank content idle off len s"
  shows "spi_flash_cmd_read_ops fl sl True off len s = None"
  using read_loop_stuck [of fl sl "- 1" off len "[]" s] assms by (cases "read_loop fl sl (- 1) off len [] s") (auto simp: spi_flash_cmd_read_ops_def)

end

section \<open>A chip\<close>

text \<open>A chip of 16 MiB behind a controller that sends at most 64 bytes at a time.  It takes the command
  with the first transfer and the data with the last one; it takes no program or erase command
  without a write enable before it, and none while it is busy.\<close>

record nor_chip =
  cells :: "u8 list"
  wel :: bool
  pending :: "u8 list"
  busy :: nat
  clock :: nat

definition addr_val :: "u8 list \<Rightarrow> nat" where
  "addr_val bs = foldl (\<lambda>v b. v * 256 + unat b) 0 bs"

fun page_program :: "u8 list \<Rightarrow> nat \<Rightarrow> u8 list \<Rightarrow> u8 list" where
  "page_program m a [] = m"
| "page_program m a (b # bs) = page_program (m[a := m ! a AND b]) (a div 256 * 256 + (a + 1) mod 256) bs"

definition nor_command :: "u8 list \<Rightarrow> nor_chip \<Rightarrow> nor_chip" where
  "nor_command dout c =
     (case pending c of
        [] \<Rightarrow> c
      | op # args \<Rightarrow>
          if busy c > 0 then c
          else if op = CMD_WRITE_ENABLE then c\<lparr>wel := True\<rparr>
          else if op = CMD_PAGE_PROGRAM \<and> wel c \<and> length args = 3
            then c\<lparr>cells := page_program (cells c) (addr_val args) dout, wel := False, busy := 2\<rparr>
          else if op = CMD_ERASE_64K \<and> wel c \<and> length args = 3
            then c\<lparr>cells := erased (cells c) (addr_val args div 0x10000 * 0x10000) 0x10000, wel := False, busy := 9\<rparr>
          else c)"

definition nor_reply :: "nat \<Rightarrow> nor_chip \<Rightarrow> u8 list \<times> nor_chip" where
  "nor_reply n c =
     (case pending c of
        [] \<Rightarrow> (replicate n 0xff, c)
      | op # args \<Rightarrow>
          if op = CMD_READ_STATUS then (replicate n (if busy c > 0 then STATUS_WIP else 0), c\<lparr>busy := busy c - 1\<rparr>)
          else if op = CMD_READ_ARRAY_FAST \<and> busy c = 0 \<and> length args = 4 then (seg (cells c) (addr_val (take 3 args)) n, c)
          else (replicate n 0xff, c))"

definition nor_xfer :: "u8 list option \<Rightarrow> nat \<Rightarrow> bool \<Rightarrow> bool \<Rightarrow> nor_chip \<Rightarrow> int \<times> u8 list \<times> nor_chip" where
  "nor_xfer dout n begins ends c =
     (let bs = (case dout of None \<Rightarrow> [] | Some d \<Rightarrow> d)
      in if begins then (0, [], if ends then nor_command [] (c\<lparr>pending := bs\<rparr>) else c\<lparr>pending := bs\<rparr>)
         else let (din, c1) = nor_reply n c in (0, din, nor_command bs c1))"

definition nor_slave :: "nor_chip spi_slave" where
  "nor_slave = \<lparr>spi_claim_bus = \<lambda>c. (0, c), spi_release_bus = \<lambda>c. c, spi_xfer = nor_xfer,
     get_timer = \<lambda>base c. (clock c - base, c\<lparr>clock := clock c + 1\<rparr>), max_read_size = 0, max_write_size = 64\<rparr>"

definition nor_flash :: "nor_chip spi_flash" where
  "nor_flash = \<lparr>shift = 0, use_fsr = False, flash_size = 0x1000000, page_size = 256, erase_size = 0x10000,
     erase_cmd = CMD_ERASE_64K, read_cmd = CMD_READ_ARRAY_FAST, write_cmd = CMD_PAGE_PROGRAM, dummy_byte = 1,
     cmd_len = 4, flash_is_locked = None\<rparr>"

definition nor_idle :: "nor_chip \<Rightarrow> bool" where
  "nor_idle c \<longleftrightarrow> busy c = 0 \<and> length (cells c) = SPI_FLASH_16MB_BOUN"

lemma length_spi_flash_addr [simp]: "length (spi_flash_addr n a) = n"
  by (induction n arbitrary: a) simp_all

lemma addr_val_bytes: "addr_val (spi_flash_addr n a) = a mod 256 ^ n"
proof (induction n arbitrary: a)
  case (Suc n)
  have "addr_val (spi_flash_addr (Suc n) a) = (a div 256) mod 256 ^ n * 256 + a mod 256"
    using Suc [of "a div 256"] by (simp add: addr_val_def unat_of_nat)
  then show ?case by (simp add: mod_mult2_eq)
qed (simp add: addr_val_def)

lemma page_program_in_page:
  assumes "a mod 256 + length bs \<le> 256" "a + length bs \<le> length m"
  shows "page_program m a bs = programmed m a bs"
  using assms
proof (induction bs arbitrary: m a)
  case Nil
  then show ?case by (auto simp: programmed_def put_seg_def)
next
  case (Cons b bs)
  have p: "programmed m a [b] = m[a := m ! a AND b]"
    by (rule nth_equalityI) (use Cons.prems(2) in \<open>auto simp: nth_programmed nth_list_update\<close>)
  show ?case
  proof (cases "bs = []")
    case True
    then show ?thesis using p by simp
  next
    case False
    then have "a mod 256 + 1 < 256" using Cons.prems(1) by (cases bs) simp_all
    then have "(a + 1) mod 256 = a mod 256 + 1" by (simp add: mod_Suc)
    then have n: "a div 256 * 256 + (a + 1) mod 256 = a + 1" "(a + 1) mod 256 = a mod 256 + 1"
      using div_mult_mod_eq [of a 256] by simp_all
    have "page_program (m[a := m ! a AND b]) (a + 1) bs = programmed (m[a := m ! a AND b]) (a + 1) bs"
      using Cons.prems n(2) by (intro Cons.IH) simp_all
    then show ?thesis using programmed_append [of a "[b]" bs m] Cons.prems(2) n(1) p by simp
  qed
qed

lemma nor_slave_simps [simp]:
  "spi_claim_bus nor_slave c = (0, c)" "spi_release_bus nor_slave c = c" "spi_xfer nor_slave = nor_xfer"
  "get_timer nor_slave base c = (clock c - base, c\<lparr>clock := clock c + 1\<rparr>)"
  "max_read_size nor_slave = 0" "max_write_size nor_slave = 64"
  by (simp_all add: nor_slave_def)

lemma nor_flash_simps [simp]:
  "shift nor_flash = 0" "use_fsr nor_flash = False" "page_size nor_flash = 256" "erase_size nor_flash = 0x10000"
  "erase_cmd nor_flash = CMD_ERASE_64K" "read_cmd nor_flash = CMD_READ_ARRAY_FAST" "write_cmd nor_flash = CMD_PAGE_PROGRAM"
  "dummy_byte nor_flash = 1" "cmd_len nor_flash = 4" "flash_is_locked nor_flash = None"
  by (simp_all add: nor_flash_def)

lemmas nor_defs = nor_xfer_def nor_command_def nor_reply_def spi_flash_read_write_def

lemma nor_read_status:
  "read_sr nor_slave c = Some (0, if busy c > 0 then STATUS_WIP else 0, c\<lparr>pending := [CMD_READ_STATUS], busy := busy c - 1\<rparr>)"
  by (simp add: read_sr_def read_reg_def spi_flash_read_common_def spi_flash_cmd_read_def nor_defs
      CMD_READ_STATUS_def CMD_WRITE_ENABLE_def CMD_PAGE_PROGRAM_def CMD_ERASE_64K_def)

lemma nor_ready:
  "spi_flash_ready nor_flash nor_slave c
   = Some (if busy c > 0 then 0 else 1, c\<lparr>pending := [CMD_READ_STATUS], busy := busy c - 1\<rparr>)"
  by (simp add: spi_flash_ready_def spi_flash_sr_ready_def nor_read_status STATUS_WIP_def)

lemma nor_wait_loop:
  assumes "clock c - base + busy c < timeout"
  shows "\<exists>c'. wait_loop nor_flash nor_slave base timeout c = Some (0, c') \<and> busy c' = 0 \<and> cells c' = cells c"
  using assms
proof (induction "busy c" arbitrary: c)
  case 0
  then show ?case by (subst wait_loop.simps) (simp add: nor_ready)
next
  case (Suc k)
  let ?c = "c\<lparr>clock := clock c + 1, pending := [CMD_READ_STATUS], busy := k\<rparr>"
  have "wait_loop nor_flash nor_slave base timeout c = wait_loop nor_flash nor_slave base timeout ?c"
    using Suc.prems Suc.hyps(2) [symmetric]
    by (subst wait_loop.simps) (simp add: nor_ready)
  moreover have "clock ?c - base + busy ?c < timeout" using Suc.prems Suc.hyps(2) by simp
  ultimately show ?case using Suc.hyps(1) [of ?c] by simp
qed

lemma nor_wait:
  assumes "busy c < 1000" "1001 \<le> timeout"
  shows "\<exists>c'. spi_flash_wait_till_ready nor_flash nor_slave timeout c = Some (0, c') \<and> busy c' = 0 \<and> cells c' = cells c"
  using nor_wait_loop [of "c\<lparr>clock := clock c + 1\<rparr>" "clock c" timeout] assms
  by (auto simp: spi_flash_wait_till_ready_def)

lemma nor_write_common:
  assumes "busy c = 0" "op \<noteq> CMD_WRITE_ENABLE" "op \<noteq> CMD_READ_STATUS" "op \<noteq> CMD_READ_ARRAY_FAST"
    and d: "nor_command (case buf of None \<Rightarrow> [] | Some b \<Rightarrow> b) (c\<lparr>wel := True, pending := op # args\<rparr>) = d" "busy d < 1000"
    and n: "n = (case buf of None \<Rightarrow> 0 | Some b \<Rightarrow> length b)" "buf \<noteq> Some []"
  shows "\<exists>c'. spi_flash_write_common nor_flash nor_slave (op # args) buf n c = Some (0, c') \<and> busy c' = 0 \<and> cells c' = cells d"
proof -
  have en: "spi_flash_cmd nor_slave CMD_WRITE_ENABLE 0 c = (0, [], c\<lparr>pending := [CMD_WRITE_ENABLE], wel := True\<rparr>)"
    using assms(1) by (simp add: spi_flash_cmd_def spi_flash_cmd_read_def nor_defs)
  have wr: "spi_flash_cmd_write nor_slave (op # args) buf n (c\<lparr>pending := [CMD_WRITE_ENABLE], wel := True\<rparr>) = (0, d)"
    using n(2) assms(3,4) unfolding n(1) d(1) [symmetric]
    by (cases buf) (simp_all add: spi_flash_cmd_write_def spi_flash_read_write_def nor_xfer_def nor_reply_def)
  have to: "1001 \<le> (if buf = None then SPI_FLASH_PAGE_ERASE_TIMEOUT else SPI_FLASH_PROG_TIMEOUT)"
    by (simp add: SPI_FLASH_PAGE_ERASE_TIMEOUT_def SPI_FLASH_PROG_TIMEOUT_def)
  from nor_wait [OF d(2) to] obtain c' where
    w: "spi_flash_wait_till_ready nor_flash nor_slave (if buf = None then SPI_FLASH_PAGE_ERASE_TIMEOUT else SPI_FLASH_PROG_TIMEOUT) d
         = Some (0, c')" "busy c' = 0" "cells c' = cells d" by blast
  then show ?thesis using en wr by (simp add: spi_flash_write_common_def Let_def)
qed

lemmas nor_cmds = CMD_WRITE_ENABLE_def CMD_READ_STATUS_def CMD_READ_ARRAY_FAST_def CMD_PAGE_PROGRAM_def CMD_ERASE_64K_def

interpretation nor: nor_device nor_flash nor_slave cells nor_idle
proof
  show "0 < page_size nor_flash" "0 < erase_size nor_flash" "cmd_len nor_flash = 4" "shift nor_flash = 0"
    "flash_is_locked nor_flash = None" "max_write_size nor_slave = 0 \<or> 5 < max_write_size nor_slave"
    by simp_all
  fix c
  assume "nor_idle c"
  then have c: "busy c = 0" "length (cells c) = SPI_FLASH_16MB_BOUN" by (simp_all add: nor_idle_def)
  show "length (cells c) \<le> SPI_FLASH_16MB_BOUN" using c(2) by simp
  have av: "addr_val (spi_flash_addr 3 a) = a" if "a < SPI_FLASH_16MB_BOUN" for a
    using that by (simp add: addr_val_bytes SPI_FLASH_16MB_BOUN_def)
  show "\<exists>c'. spi_flash_read_common nor_slave (read_cmd nor_flash # spi_flash_addr 3 a @ replicate (dummy_byte nor_flash) 0) n c
      = (0, seg (cells c) a n, c') \<and> nor_idle c' \<and> cells c' = cells c" if "a + n \<le> length (cells c)" for a n
  proof (cases "n = 0")
    case True
    then show ?thesis using c
      by (auto simp: spi_flash_read_common_def spi_flash_cmd_read_def nor_defs nor_idle_def nor_cmds seg_def)
  next
    case False
    then show ?thesis using c that av [of a]
      by (auto simp: spi_flash_read_common_def spi_flash_cmd_read_def nor_defs nor_idle_def nor_cmds)
  qed
  show "\<exists>c'. spi_flash_write_common nor_flash nor_slave (write_cmd nor_flash # spi_flash_addr 3 a) (Some bs) (length bs) c = Some (0, c')
      \<and> nor_idle c' \<and> cells c' = programmed (cells c) a bs"
    if "bs \<noteq> []" "a mod page_size nor_flash + length bs \<le> page_size nor_flash" "a + length bs \<le> length (cells c)" for a bs
  proof -
    have a: "a < SPI_FLASH_16MB_BOUN" using that(1,3) c(2) by (cases bs) simp_all
    let ?d = "c\<lparr>pending := CMD_PAGE_PROGRAM # spi_flash_addr 3 a, cells := programmed (cells c) a bs, wel := False, busy := 2\<rparr>"
    have "nor_command bs (c\<lparr>wel := True, pending := CMD_PAGE_PROGRAM # spi_flash_addr 3 a\<rparr>) = ?d"
      using c(1) av [OF a] that(2,3) page_program_in_page [of a bs "cells c"]
      by (simp add: nor_command_def nor_cmds)
    then show ?thesis
      using nor_write_common [of c CMD_PAGE_PROGRAM "Some bs" "spi_flash_addr 3 a" ?d "length bs"] that c
      by (auto simp: nor_idle_def nor_cmds)
  qed
  show "\<exists>c'. spi_flash_write_common nor_flash nor_slave (erase_cmd nor_flash # spi_flash_addr 3 a) None 0 c = Some (0, c')
      \<and> nor_idle c' \<and> cells c' = erased (cells c) a (erase_size nor_flash)"
    if "a mod erase_size nor_flash = 0" "a + erase_size nor_flash \<le> length (cells c)" for a
  proof -
    have a: "a < SPI_FLASH_16MB_BOUN" "a div 0x10000 * 0x10000 = a" using that c(2) by auto
    let ?d = "c\<lparr>pending := CMD_ERASE_64K # spi_flash_addr 3 a, cells := erased (cells c) a 0x10000, wel := False, busy := 9\<rparr>"
    have "nor_command [] (c\<lparr>wel := True, pending := CMD_ERASE_64K # spi_flash_addr 3 a\<rparr>) = ?d"
      using c(1) av [OF a(1)] a(2) by (simp add: nor_command_def nor_cmds)
    then show ?thesis
      using nor_write_common [of c CMD_ERASE_64K None "spi_flash_addr 3 a" ?d 0] that c
      by (auto simp: nor_idle_def nor_cmds)
  qed
qed

section \<open>Properties\<close>

text \<open> C18. On the chip, erasing whole sectors and then writing inside them stores exactly the bytes given,
  whatever page boundaries and transfer limits cut the write: a read of the place gives the bytes
  back, and every byte outside the sectors is as before.\<close>

theorem flash_rewrite_reads_back:
  assumes "nor_idle c" "off mod 0x10000 = 0" "0 < k" "off + k * 0x10000 \<le> SPI_FLASH_16MB_BOUN"
    and "off \<le> a" "a + length bs \<le> off + k * 0x10000" "bs \<noteq> []"
  shows "\<exists>c1 c2 c3. spi_flash_cmd_erase_ops nor_flash nor_slave off (k * 0x10000) c = Some (0, c1)
     \<and> spi_flash_cmd_write_ops nor_flash nor_slave a bs c1 = Some (0, c2)
     \<and> spi_flash_cmd_read_ops nor_flash nor_slave True a (length bs) c2 = Some (0, bs, c3)
     \<and> nor_idle c3 \<and> cells c3 = put_seg (erased (cells c) off (k * 0x10000)) a bs"
proof -
  have e: "erase_size nor_flash = 0x10000" by simp
  have l: "length (cells c) = SPI_FLASH_16MB_BOUN" using assms(1) by (simp add: nor_idle_def)
  from nor.erase_run [OF assms(1), of off k] obtain c1 where
    c1: "spi_flash_cmd_erase_ops nor_flash nor_slave off (k * 0x10000) c = Some (0, c1)" "nor_idle c1"
      "cells c1 = erased (cells c) off (k * 0x10000)" using assms(2-4) l unfolding e by auto
  have l1: "length (cells c1) = SPI_FLASH_16MB_BOUN" using c1(2) by (simp add: nor_idle_def)
  from nor.write_run [OF c1(2) assms(7), of a] obtain c2 where
    c2: "spi_flash_cmd_write_ops nor_flash nor_slave a bs c1 = Some (0, c2)" "nor_idle c2"
      "cells c2 = programmed (cells c1) a bs" using assms(4,6) l1 by auto
  have p: "cells c2 = put_seg (erased (cells c) off (k * 0x10000)) a bs"
    unfolding c2(3) c1(3) by (rule programmed_erased) (use assms(4-6) l in simp_all)
  have l2: "length (cells c2) = SPI_FLASH_16MB_BOUN" using c2(2) by (simp add: nor_idle_def)
  from nor.read_run [OF c2(2), of "length bs" a] obtain c3 where
    c3: "spi_flash_cmd_read_ops nor_flash nor_slave True a (length bs) c2 = Some (0, seg (cells c2) a (length bs), c3)"
      "nor_idle c3" "cells c3 = cells c2" using assms(4,6,7) l2 by auto
  have "seg (cells c2) a (length bs) = bs" unfolding p using assms(4-6) l by (simp add: seg_def put_seg_def)
  then show ?thesis using c1(1) c2(1) c3 p by auto
qed

theorem flash_rewrite_reads_back_witness:
  "\<exists>c1 c2 c3. spi_flash_cmd_erase_ops nor_flash nor_slave 0x200000 0x10000
       \<lparr>cells = replicate 0x1000000 0, wel = False, pending = [], busy = 0, clock = 0\<rparr> = Some (0, c1)
     \<and> spi_flash_cmd_write_ops nor_flash nor_slave 0x2000fe [1, 2, 3, 4] c1 = Some (0, c2)
     \<and> spi_flash_cmd_read_ops nor_flash nor_slave True 0x2000fe 4 c2 = Some (0, [1, 2, 3, 4], c3)"
proof -
  have l: "length [1, 2, 3, 4 :: u8] = 4" by simp
  show ?thesis
    using flash_rewrite_reads_back [of "\<lparr>cells = replicate 0x1000000 0, wel = False, pending = [], busy = 0, clock = 0\<rparr>"
      "0x200000" 1 "0x2000fe" "[1, 2, 3, 4]"] unfolding l
    by (auto simp: nor_idle_def SPI_FLASH_16MB_BOUN_def)
qed

text \<open> C36. A read that crosses the 16 MiB that three address bytes reach never returns: at the boundary
  the length of the next transfer is 0 and the loop repeats it for ever.\<close>

theorem flash_read_hangs:
  assumes "nor_idle c" "off \<le> SPI_FLASH_16MB_BOUN" "SPI_FLASH_16MB_BOUN < off + len"
  shows "spi_flash_cmd_read_ops nor_flash nor_slave True off len c = None"
  by (rule nor.read_past_bank) (use assms in \<open>simp add: past_bank_def nor_idle_def\<close>)

theorem flash_read_hangs_witness:
  "spi_flash_cmd_read_ops nor_flash nor_slave True 0xff0000 0x20000
     \<lparr>cells = replicate 0x1000000 0, wel = False, pending = [], busy = 0, clock = 0\<rparr> = None"
  by (rule flash_read_hangs) (simp_all add: nor_idle_def SPI_FLASH_16MB_BOUN_def)

end
