(* ===== verification/Env_Store.thy ===== *)
theory Env_Store
  imports Env_Flags Crc Spi_Flash
begin

text \<open>
  The environment and its place in flash: \<^verbatim>\<open>env/common.c\<close> (default values, import with checksum, export),
  \<^verbatim>\<open>env/sf.c\<close> (loading from and saving to SPI flash) and \<^verbatim>\<open>env/env.c\<close> (the table of locations).  The
  sizes are those of the board's configuration.  The field \<open>redundant\<close> stands for the option
  \<^verbatim>\<open>CONFIG_SYS_REDUNDAND_ENVIRONMENT\<close>, which the board leaves unset: two copies with a flags byte each.

  The locale \<open>flash_array\<close> is what saving and loading rely on: reads, erasures and programs of an array
  of bytes.  It is interpreted on the driver of \<open>Spi_Flash\<close> with the chip behind it.
\<close>

section \<open>State and configuration\<close>

definition CONFIG_ENV_SIZE :: nat where "CONFIG_ENV_SIZE = 0x2000"
definition CONFIG_ENV_OFFSET :: nat where "CONFIG_ENV_OFFSET = 0x200000"
definition CONFIG_ENV_SECT_SIZE :: nat where "CONFIG_ENV_SECT_SIZE = 0x10000"
definition H_INTERACTIVE :: int where "H_INTERACTIVE = 4"
definition E_IO :: int where "E_IO = 5"
definition E_NODEV :: int where "E_NODEV = 19"

datatype env_valid = ENV_INVALID | ENV_VALID | ENV_REDUND

datatype env_location = ENVL_UNKNOWN | ENVL_EEPROM | ENVL_EXT4 | ENVL_FAT | ENVL_FLASH | ENVL_MMC | ENVL_NAND
  | ENVL_NVRAM | ENVL_ONENAND | ENVL_REMOTE | ENVL_SPI_FLASH | ENVL_UBI | ENVL_NOWHERE | ENVL_COUNT

text \<open>What the code keeps in \<^verbatim>\<open>gd\<close> and in static variables.  \<open>env_addr\<close> holds the bytes at that
  address, \<open>env_flash\<close> tells whether the flash has been probed, \<open>env_serial\<close> is the static variable
  \<^verbatim>\<open>env_flags\<close>.\<close>

record env_state =
  env_htab :: hsearch_data
  env_ready :: bool
  env_is_default :: bool
  env_valid :: env_valid
  env_addr :: "u8 list"
  env_has_init :: "env_location list"
  env_load_prio :: nat
  env_flash :: bool
  env_serial :: u8

text \<open>The hooks of the table, the values of the configuration, and whether the allocations succeed.\<close>

record env_cfg =
  env_hk :: hooks
  env_re :: regex
  redundant :: bool
  default_environment :: "u8 list"
  buf_addr :: nat
  himport_malloc_ok :: bool
  himport_calloc_ok :: bool
  memalign_ok :: bool
  malloc_ok :: bool

definition ENV_HEADER_SIZE :: "env_cfg \<Rightarrow> nat" where "ENV_HEADER_SIZE cfg = (if redundant cfg then 5 else 4)"
definition ENV_SIZE :: "env_cfg \<Rightarrow> nat" where "ENV_SIZE cfg = CONFIG_ENV_SIZE - ENV_HEADER_SIZE cfg"

section \<open>Import and export\<close>

definition himport_env :: "env_cfg \<Rightarrow> u8 list \<Rightarrow> nat \<Rightarrow> int \<Rightarrow> ctext list \<Rightarrow> env_state \<Rightarrow> (int \<times> env_state) option" where
  "himport_env cfg buf n flags vars st =
     do { (r, _, h) \<leftarrow> himport_r (env_hk cfg) (himport_malloc_ok cfg) (himport_calloc_ok cfg) (env_htab st) buf n 0 flags False vars;
          Some (r, st\<lparr>env_htab := h\<rparr>) }"

definition set_default_env :: "env_cfg \<Rightarrow> int \<Rightarrow> env_state \<Rightarrow> env_state option" where
  "set_default_env cfg flags st =
     (if length (default_environment cfg) > ENV_SIZE cfg then Some st
      else do { (_, st1) \<leftarrow> himport_env cfg (default_environment cfg) (length (default_environment cfg)) flags [] st;
                Some (st1\<lparr>env_ready := True, env_is_default := True\<rparr>) })"

definition set_default_vars :: "env_cfg \<Rightarrow> ctext list \<Rightarrow> int \<Rightarrow> env_state \<Rightarrow> (int \<times> env_state) option" where
  "set_default_vars cfg vars flags st =
     himport_env cfg (default_environment cfg) (length (default_environment cfg)) (flags OR H_NOCLEAR) vars st"

text \<open>The bytes of an \<^verbatim>\<open>env_t\<close>: the checksum, least significant byte first, and the data.\<close>

definition crc_bytes :: "u32 \<Rightarrow> u8 list" where
  "crc_bytes c = [ucast c, ucast (drop_bit 8 c), ucast (drop_bit 16 c), ucast (drop_bit 24 c)]"

definition stored_crc :: "u8 list \<Rightarrow> u32" where
  "stored_crc buf = le32 (buf ! 0) (buf ! 1) (buf ! 2) (buf ! 3)"

definition env_data :: "env_cfg \<Rightarrow> u8 list \<Rightarrow> u8 list" where
  "env_data cfg buf = seg buf (ENV_HEADER_SIZE cfg) (ENV_SIZE cfg)"

definition crc_ok :: "env_cfg \<Rightarrow> u8 list \<Rightarrow> bool" where
  "crc_ok cfg buf \<longleftrightarrow> crc32 (buf_addr cfg + ENV_HEADER_SIZE cfg) 0 (env_data cfg buf) = stored_crc buf"

definition env_import :: "env_cfg \<Rightarrow> u8 list \<Rightarrow> bool \<Rightarrow> env_state \<Rightarrow> (int \<times> env_state) option" where
  "env_import cfg buf check st =
     (if length buf < CONFIG_ENV_SIZE then None
      else if check \<and> \<not> crc_ok cfg buf then do { st1 \<leftarrow> set_default_env cfg 0 st; Some (- E_IO, st1) }
      else do { (r, st1) \<leftarrow> himport_env cfg (env_data cfg buf) (ENV_SIZE cfg) 0 [] st;
                if r \<noteq> 0 then Some (0, st1\<lparr>env_ready := True\<rparr>)
                else do { st2 \<leftarrow> set_default_env cfg 0 st1; Some (- E_IO, st2) } })"

text \<open>The choice between two copies by their flags bytes.\<close>

definition newer_copy :: "u8 \<Rightarrow> u8 \<Rightarrow> env_valid" where
  "newer_copy flags1 flags2 =
     (if flags1 = 255 \<and> flags2 = 0 then ENV_REDUND
      else if flags2 = 255 \<and> flags1 = 0 then ENV_VALID
      else if flags1 > flags2 then ENV_VALID
      else if flags2 > flags1 then ENV_REDUND
      else ENV_VALID)"

definition env_import_redund :: "env_cfg \<Rightarrow> u8 list \<Rightarrow> bool \<Rightarrow> u8 list \<Rightarrow> bool \<Rightarrow> env_state \<Rightarrow> (int \<times> env_state) option" where
  "env_import_redund cfg buf1 fail1 buf2 fail2 st =
     (if fail1 \<and> fail2 then do { st1 \<leftarrow> set_default_env cfg 0 st; Some (- E_IO, st1) }
      else if \<not> fail1 \<and> fail2 then env_import cfg buf1 True (st\<lparr>env_valid := ENV_VALID\<rparr>)
      else if fail1 \<and> \<not> fail2 then env_import cfg buf2 True (st\<lparr>env_valid := ENV_REDUND\<rparr>)
      else if length buf1 < CONFIG_ENV_SIZE \<or> length buf2 < CONFIG_ENV_SIZE then None
      else let crc1_ok = crc_ok cfg buf1; crc2_ok = crc_ok cfg buf2
           in if \<not> crc1_ok \<and> \<not> crc2_ok then do { st1 \<leftarrow> set_default_env cfg 0 st; Some (- E_IO, st1) }
              else let v = (if crc1_ok \<and> \<not> crc2_ok then ENV_VALID
                            else if \<not> crc1_ok \<and> crc2_ok then ENV_REDUND
                            else newer_copy (buf1 ! 4) (buf2 ! 4));
                       ep = (if v = ENV_VALID then buf1 else buf2)
                   in env_import cfg ep False (st\<lparr>env_valid := v, env_serial := ep ! 4\<rparr>))"

text \<open>\<open>out\<close> is the memory of the structure before the call.\<close>

definition env_export :: "env_cfg \<Rightarrow> u8 list \<Rightarrow> env_state \<Rightarrow> (int \<times> u8 list \<times> env_state) option" where
  "env_export cfg out st =
     do { (len, _, res) \<leftarrow> hexport_r (env_re cfg) True (env_htab st) 0 0 (Some (env_data cfg out)) (ENV_SIZE cfg) [];
          if len < 0 then Some (1, out, st)
          else do { d \<leftarrow> res;
                    let crc = crc_bytes (crc32 (buf_addr cfg + ENV_HEADER_SIZE cfg) 0 d);
                    if redundant cfg then Some (0, crc @ (env_serial st + 1) # d, st\<lparr>env_serial := env_serial st + 1\<rparr>)
                    else Some (0, crc @ d, st) } }"

section \<open>SPI flash\<close>

record 'f flash_if =
  fi_probe :: "'f \<Rightarrow> bool \<times> 'f"
  fi_read :: "nat \<Rightarrow> nat \<Rightarrow> 'f \<Rightarrow> (int \<times> u8 list \<times> 'f) option"
  fi_write :: "nat \<Rightarrow> u8 list \<Rightarrow> 'f \<Rightarrow> (int \<times> 'f) option"
  fi_erase :: "nat \<Rightarrow> nat \<Rightarrow> 'f \<Rightarrow> (int \<times> 'f) option"

definition setup_flash_device :: "env_cfg \<Rightarrow> 'f flash_if \<Rightarrow> env_state \<times> 'f \<Rightarrow> (int \<times> env_state \<times> 'f) option" where
  "setup_flash_device cfg fi w =
     (let (st, f) = w
      in if env_flash st then Some (0, st, f)
         else let (found, f1) = fi_probe fi f
              in if \<not> found then do { st1 \<leftarrow> set_default_env cfg 0 st; Some (- E_IO, st1, f1) }
                 else Some (0, st\<lparr>env_flash := True\<rparr>, f1))"

text \<open>Saving: erase the sector, write the environment, and write back what else was in the sector.\<close>

definition sf_write_back :: "'f flash_if \<Rightarrow> u8 list \<Rightarrow> u8 list \<Rightarrow> env_state \<Rightarrow> 'f \<Rightarrow> (int \<times> env_state \<times> 'f) option" where
  "sf_write_back fi env_new saved st f =
     do { let sector = (CONFIG_ENV_SIZE + CONFIG_ENV_SECT_SIZE - 1) div CONFIG_ENV_SECT_SIZE;
          (ret, f1) \<leftarrow> fi_erase fi CONFIG_ENV_OFFSET (sector * CONFIG_ENV_SECT_SIZE) f;
          if ret \<noteq> 0 then Some (ret, st, f1)
          else do { (ret, f2) \<leftarrow> fi_write fi CONFIG_ENV_OFFSET env_new f1;
                    if ret \<noteq> 0 then Some (ret, st, f2)
                    else if CONFIG_ENV_SECT_SIZE > CONFIG_ENV_SIZE
                         then do { (ret, f3) \<leftarrow> fi_write fi (CONFIG_ENV_OFFSET + CONFIG_ENV_SIZE) saved f2;
                                   if ret \<noteq> 0 then Some (ret, st, f3) else Some (0, st, f3) }
                         else Some (0, st, f2) } }"

definition env_sf_save :: "env_cfg \<Rightarrow> 'f flash_if \<Rightarrow> u8 list \<Rightarrow> env_state \<times> 'f \<Rightarrow> (int \<times> env_state \<times> 'f) option" where
  "env_sf_save cfg fi out w =
     do { (ret, st, f) \<leftarrow> setup_flash_device cfg fi w;
          if ret \<noteq> 0 then Some (ret, st, f)
          else if CONFIG_ENV_SECT_SIZE > CONFIG_ENV_SIZE \<and> \<not> malloc_ok cfg then Some (ret, st, f)
          else do { (ret, saved, f1) \<leftarrow>
                      (if CONFIG_ENV_SECT_SIZE > CONFIG_ENV_SIZE
                       then fi_read fi (CONFIG_ENV_OFFSET + CONFIG_ENV_SIZE) (CONFIG_ENV_SECT_SIZE - CONFIG_ENV_SIZE) f
                       else Some (0, [], f));
                    if ret \<noteq> 0 then Some (ret, st, f1)
                    else do { (ret, env_new, st1) \<leftarrow> env_export cfg out st;
                              if ret \<noteq> 0 then Some (ret, st1, f1) else sf_write_back fi env_new saved st1 f1 } } }"

definition env_sf_load :: "env_cfg \<Rightarrow> 'f flash_if \<Rightarrow> env_state \<times> 'f \<Rightarrow> (int \<times> env_state \<times> 'f) option" where
  "env_sf_load cfg fi w =
     (if \<not> memalign_ok cfg then do { st1 \<leftarrow> set_default_env cfg 0 (fst w); Some (- E_IO, st1, snd w) }
      else do { (ret, st, f) \<leftarrow> setup_flash_device cfg fi w;
                if ret \<noteq> 0 then Some (ret, st, f)
                else do { (ret, buf, f1) \<leftarrow> fi_read fi CONFIG_ENV_OFFSET CONFIG_ENV_SIZE f;
                          if ret \<noteq> 0 then do { st1 \<leftarrow> set_default_env cfg 0 st; Some (ret, st1\<lparr>env_flash := False\<rparr>, f1) }
                          else do { (ret, st1) \<leftarrow> env_import cfg buf True st;
                                    let st2 = (if ret = 0 then st1\<lparr>env_valid := ENV_VALID\<rparr> else st1);
                                    Some (ret, st2\<lparr>env_flash := False\<rparr>, f1) } } })"

section \<open>The table of locations\<close>

record 'w env_driver =
  location :: env_location
  load :: "('w \<Rightarrow> (int \<times> 'w) option) option"
  save :: "('w \<Rightarrow> (int \<times> 'w) option) option"
  init :: "('w \<Rightarrow> (int \<times> 'w) option) option"

definition env_locations :: "env_location list" where
  "env_locations = [ENVL_SPI_FLASH]"

definition find_driver :: "'w env_driver list \<Rightarrow> env_location \<Rightarrow> 'w env_driver option" where
  "find_driver drvs loc = find (\<lambda>d. loc = location d) drvs"

definition env_has_inited :: "env_location \<Rightarrow> env_state \<Rightarrow> bool" where
  "env_has_inited loc st \<longleftrightarrow> loc \<in> set (env_has_init st)"

definition env_set_inited :: "env_location \<Rightarrow> env_state \<Rightarrow> env_state" where
  "env_set_inited loc st = st\<lparr>env_has_init := List.insert loc (env_has_init st)\<rparr>"

definition env_get_location :: "nat \<Rightarrow> env_state \<Rightarrow> env_location \<times> env_state" where
  "env_get_location prio st =
     (if prio \<ge> length env_locations then (ENVL_UNKNOWN, st)
      else (env_locations ! prio, st\<lparr>env_load_prio := prio\<rparr>))"

definition env_driver_lookup :: "'w env_driver list \<Rightarrow> nat \<Rightarrow> env_state \<Rightarrow> 'w env_driver option \<times> env_state" where
  "env_driver_lookup drvs prio st =
     (let (loc, st1) = env_get_location prio st
      in (if loc = ENVL_UNKNOWN then None else find_driver drvs loc, st1))"

lemma lookup_prio: "env_driver_lookup drvs prio st = (Some d, st1) \<Longrightarrow> prio < length env_locations"
  by (auto simp: env_driver_lookup_def env_get_location_def split: if_splits)

function env_load_loop :: "(env_state \<times> 'f) env_driver list \<Rightarrow> nat \<Rightarrow> env_state \<times> 'f \<Rightarrow> (int \<times> env_state \<times> 'f) option" where
  "env_load_loop drvs prio w =
     (case env_driver_lookup drvs prio (fst w) of
        (None, st) \<Rightarrow> Some (- E_NODEV, snd (env_get_location 0 st), snd w)
      | (Some drv, st) \<Rightarrow>
          (case load drv of
             None \<Rightarrow> env_load_loop drvs (prio + 1) (st, snd w)
           | Some ld \<Rightarrow>
               if \<not> env_has_inited (location drv) st then env_load_loop drvs (prio + 1) (st, snd w)
               else (case ld (st, snd w) of
                       None \<Rightarrow> None
                     | Some (ret, w1) \<Rightarrow> if ret \<noteq> 0 then env_load_loop drvs (prio + 1) w1 else Some (0, w1))))"
  by pat_completeness auto
termination
  by (relation "measure (\<lambda>(_, prio, _). length env_locations - prio)") (auto dest!: lookup_prio [OF sym] lookup_prio)

declare env_load_loop.simps [simp del]

definition env_load :: "(env_state \<times> 'f) env_driver list \<Rightarrow> env_state \<times> 'f \<Rightarrow> (int \<times> env_state \<times> 'f) option" where
  "env_load drvs w = env_load_loop drvs 0 w"

definition env_save :: "(env_state \<times> 'f) env_driver list \<Rightarrow> env_state \<times> 'f \<Rightarrow> (int \<times> env_state \<times> 'f) option" where
  "env_save drvs w =
     (case env_driver_lookup drvs (env_load_prio (fst w)) (fst w) of
        (None, st) \<Rightarrow> Some (- E_NODEV, st, snd w)
      | (Some drv, st) \<Rightarrow>
          (case save drv of
             None \<Rightarrow> Some (- E_NODEV, st, snd w)
           | Some sv \<Rightarrow>
               if \<not> env_has_inited (location drv) st then Some (- E_NODEV, st, snd w)
               else do { (ret, w1) \<leftarrow> sv (st, snd w);
                         Some (if ret = 0 then 0 else - E_NODEV, w1) }))"

text \<open>The result of the loop, the number of drivers it has been through, and the world.\<close>

function env_init_loop :: "(env_state \<times> 'f) env_driver list \<Rightarrow> int \<Rightarrow> nat \<Rightarrow> env_state \<times> 'f \<Rightarrow> (int \<times> nat \<times> env_state \<times> 'f) option" where
  "env_init_loop drvs ret prio w =
     (case env_driver_lookup drvs prio (fst w) of
        (None, st) \<Rightarrow> Some (ret, prio, st, snd w)
      | (Some drv, st) \<Rightarrow>
          (case init drv of
             None \<Rightarrow> env_init_loop drvs ret (prio + 1) (env_set_inited (location drv) st, snd w)
           | Some ini \<Rightarrow>
               (case ini (st, snd w) of
                  None \<Rightarrow> None
                | Some (ret1, w1) \<Rightarrow>
                    env_init_loop drvs ret1 (prio + 1)
                      (if ret1 = 0 then (env_set_inited (location drv) (fst w1), snd w1) else w1))))"
  by pat_completeness auto
termination
  by (relation "measure (\<lambda>(_, _, prio, _). length env_locations - prio)") (auto dest!: lookup_prio [OF sym] lookup_prio)

declare env_init_loop.simps [simp del]

definition env_init :: "env_cfg \<Rightarrow> (env_state \<times> 'f) env_driver list \<Rightarrow> env_state \<times> 'f \<Rightarrow> (int \<times> env_state \<times> 'f) option" where
  "env_init cfg drvs w =
     do { (ret, prio, st, f) \<leftarrow> env_init_loop drvs (- E_NOENT) 0 w;
          if prio = 0 then Some (- E_NODEV, st, f)
          else if ret = - E_NOENT
               then Some (0, st\<lparr>env_addr := default_environment cfg, env_valid := ENV_VALID\<rparr>, f)
               else Some (ret, st, f) }"

definition env_relocate :: "env_cfg \<Rightarrow> (env_state \<times> 'f) env_driver list \<Rightarrow> env_state \<times> 'f \<Rightarrow> (env_state \<times> 'f) option" where
  "env_relocate cfg drvs w =
     (if env_valid (fst w) = ENV_INVALID then do { st \<leftarrow> set_default_env cfg 0 (fst w); Some (st, snd w) }
      else map_option snd (env_load drvs w))"

text \<open>The driver of \<^verbatim>\<open>env/sf.c\<close>; the board has no \<^verbatim>\<open>CONFIG_ENV_ADDR\<close> and so no \<^verbatim>\<open>init\<close>.\<close>

definition sf_driver :: "env_cfg \<Rightarrow> 'f flash_if \<Rightarrow> u8 list \<Rightarrow> (env_state \<times> 'f) env_driver" where
  "sf_driver cfg fi out = \<lparr>location = ENVL_SPI_FLASH, load = Some (env_sf_load cfg fi), save = Some (env_sf_save cfg fi out), init = None\<rparr>"

section \<open>What is imported\<close>

lemmas env_sizes = ENV_SIZE_def ENV_HEADER_SIZE_def CONFIG_ENV_SIZE_def CONFIG_ENV_OFFSET_def CONFIG_ENV_SECT_SIZE_def

lemma length_crc_bytes [simp]: "length (crc_bytes c) = 4"
  by (simp add: crc_bytes_def)

lemma le32_bytes: "le32 (ucast c) (ucast (drop_bit 8 c)) (ucast (drop_bit 16 c)) (ucast (drop_bit 24 c)) = c"
proof (rule bit_word_eqI)
  fix n assume "n < LENGTH(32)"
  then consider "n < 8" | "8 \<le> n" "n < 16" | "16 \<le> n" "n < 24" | "24 \<le> n" "n < 32" by fastforce
  then show "bit (le32 (ucast c) (ucast (drop_bit 8 c)) (ucast (drop_bit 16 c)) (ucast (drop_bit 24 c))) n = bit c n"
    by cases (auto simp: le32_def bit_simps)
qed

lemma stored_crc_bytes: "stored_crc (crc_bytes c @ bs) = c"
  unfolding stored_crc_def crc_bytes_def by (simp add: le32_bytes)

text \<open>The allocations succeed and the environment is kept in one copy.\<close>

definition plain_cfg :: "env_cfg \<Rightarrow> bool" where
  "plain_cfg cfg \<longleftrightarrow> \<not> redundant cfg \<and> himport_malloc_ok cfg \<and> himport_calloc_ok cfg \<and> memalign_ok cfg \<and> malloc_ok cfg
     \<and> copies (env_hk cfg)"

text \<open>The variables as the export writes them, and what the storage asks of them.\<close>

definition env_pairs :: "env_cfg \<Rightarrow> hsearch_data \<Rightarrow> (ctext \<times> ctext) list" where
  "env_pairs cfg h = (case table h of None \<Rightarrow> [] | Some ts \<Rightarrow>
     (case export_list (env_re cfg) 0 [] (tl ts) of None \<Rightarrow> [] | Some l \<Rightarrow> qsort cmpkey l))"

definition storable :: "env_cfg \<Rightarrow> hsearch_data \<Rightarrow> bool" where
  "storable cfg h \<longleftrightarrow> htab_ok h \<and> filled h \<le> CONFIG_ENV_MAX_ENTRIES \<and> length (export_bytes 0 (env_pairs cfg h)) < ENV_SIZE cfg
     \<and> (\<forall>k d. htab_map h k = Some d \<longrightarrow> pair_ok 0 (k, d) \<and> creatable (env_hk cfg) k d 0)"

text \<open>The image in flash.\<close>

definition env_image :: "env_cfg \<Rightarrow> hsearch_data \<Rightarrow> u8 list" where
  "env_image cfg h =
     (let bs = export_bytes 0 (env_pairs cfg h); d = bs @ replicate (ENV_SIZE cfg - length bs) 0
      in crc_bytes (crc32 (buf_addr cfg + ENV_HEADER_SIZE cfg) 0 d) @ d)"

lemma hexport_image:
  assumes "plain_cfg cfg" "storable cfg h" "length buf = ENV_SIZE cfg"
  shows "hexport_r (env_re cfg) True h 0 0 (Some buf) (ENV_SIZE cfg) [] = Some (int (ENV_SIZE cfg), None, Some (drop 4 (env_image cfg h)))"
    "hexport_r (env_re cfg) True h 0 0 None (ENV_SIZE cfg) [] = Some (int (ENV_SIZE cfg), None, Some (drop 4 (env_image cfg h)))"
proof -
  have ok: "htab_ok h" using assms(2) by (simp add: storable_def)
  from htab_okE [OF ok] obtain ts where ts: "table h = Some ts" .
  from export_list_table [OF ok ts, of "env_re cfg"] obtain l where
    l: "export_list (env_re cfg) 0 [] (tl ts) = Some l" "distinct (map fst l)"
      "\<And>k d. (k, d) \<in> set l \<longleftrightarrow> htab_map h k = Some d" "length l = filled h" by blast
  have p: "env_pairs cfg h = qsort cmpkey l" using ts l(1) by (simp add: env_pairs_def)
  have "\<forall>kd\<in>set (qsort cmpkey l). 0 \<notin> set (snd kd)"
    using l(3) assms(2) by (auto simp: set_qsort storable_def pair_ok_def)
  from export_bytes_nul [OF this] have n: "totlen 0 l + backslashes l = length (export_bytes 0 (qsort cmpkey l))"
    by (simp add: sorted_lengths)
  have f: "length (export_bytes 0 (qsort cmpkey l)) < ENV_SIZE cfg" using assms(2) p by (simp add: storable_def)
  have i: "drop 4 (env_image cfg h) = (export_bytes 0 (qsort cmpkey l) @ [0]) @ replicate (ENV_SIZE cfg - (length (export_bytes 0 (qsort cmpkey l)) + 1)) 0"
    using f by (simp add: env_image_def p Let_def) (simp flip: replicate_Suc add: Suc_diff_Suc)
  show "hexport_r (env_re cfg) True h 0 0 (Some buf) (ENV_SIZE cfg) [] = Some (int (ENV_SIZE cfg), None, Some (drop 4 (env_image cfg h)))"
    "hexport_r (env_re cfg) True h 0 0 None (ENV_SIZE cfg) [] = Some (int (ENV_SIZE cfg), None, Some (drop 4 (env_image cfg h)))"
    unfolding i using ts l(1) n f assms(3)
    by (simp_all add: hexport_r_def Let_def clear_bytes_def put_bytes_def)
qed

lemma env_image_shape:
  assumes "plain_cfg cfg" "storable cfg h"
  shows "length (env_image cfg h) = CONFIG_ENV_SIZE" "env_data cfg (env_image cfg h) = drop 4 (env_image cfg h)" "crc_ok cfg (env_image cfg h)"
proof -
  have f: "length (export_bytes 0 (env_pairs cfg h)) < ENV_SIZE cfg" "ENV_HEADER_SIZE cfg = 4"
    using assms by (simp_all add: storable_def plain_cfg_def ENV_HEADER_SIZE_def)
  show l: "length (env_image cfg h) = CONFIG_ENV_SIZE"
    using f by (simp add: env_image_def Let_def env_sizes)
  show d: "env_data cfg (env_image cfg h) = drop 4 (env_image cfg h)"
    using f(2) l by (simp add: env_data_def seg_def ENV_SIZE_def)
  show "crc_ok cfg (env_image cfg h)"
    unfolding crc_ok_def d by (simp add: env_image_def Let_def stored_crc_bytes)
qed

lemma env_export_run:
  assumes "plain_cfg cfg" "storable cfg (env_htab st)" "length out = CONFIG_ENV_SIZE"
  shows "env_export cfg out st = Some (0, env_image cfg (env_htab st), st)"
proof -
  have e: "length (env_data cfg out) = ENV_SIZE cfg"
    using assms(3) by (simp add: env_data_def seg_def env_sizes)
  have i: "env_image cfg (env_htab st) = crc_bytes (crc32 (buf_addr cfg + ENV_HEADER_SIZE cfg) 0 (drop 4 (env_image cfg (env_htab st)))) @ drop 4 (env_image cfg (env_htab st))"
    by (simp add: env_image_def Let_def)
  show ?thesis
    using assms(1) i [symmetric] unfolding env_export_def hexport_image(1) [OF assms(1,2) e] by (simp add: plain_cfg_def Let_def)
qed

lemma env_import_image:
  assumes "plain_cfg cfg" "storable cfg h"
  shows "\<exists>h'. env_import cfg (env_image cfg h) check st = Some (0, st\<lparr>env_htab := h', env_ready := True\<rparr>) \<and> htab_ok h' \<and> htab_map h' = htab_map h"
proof -
  note sh = env_image_shape [OF assms]
  have l: "length (drop 4 (env_image cfg h)) = ENV_SIZE cfg" using sh(1) assms(1) by (simp add: env_sizes plain_cfg_def)
  have st: "htab_ok h" "filled h \<le> import_entries (ENV_SIZE cfg)" "\<And>k d. htab_map h k = Some d \<Longrightarrow> pair_ok 0 (k, d)"
    "\<And>k d. htab_map h k = Some d \<Longrightarrow> creatable (env_hk cfg) k d 0"
    using assms by (auto simp: storable_def import_entries_def Let_def env_sizes plain_cfg_def CONFIG_ENV_MIN_ENTRIES_def CONFIG_ENV_MAX_ENTRIES_def)
  have c: "copies (env_hk cfg)" "himport_malloc_ok cfg" "himport_calloc_ok cfg" using assms(1) by (simp_all add: plain_cfg_def)
  have z: "sep_ok 0" "ENV_SIZE cfg \<noteq> 0" by (simp_all add: sep_ok_def env_sizes)
  from roundtrip_run [OF st(1) z(1) st(3) hexport_image(2) [OF assms, of "replicate (ENV_SIZE cfg) 0"] z(2) c(1) st(4,2), of "env_htab st"] l
  obtain h' where h': "himport_r (env_hk cfg) True True (env_htab st) (drop 4 (env_image cfg h)) (ENV_SIZE cfg) 0 0 False [] = Some (1, None, h')"
    "htab_ok h'" "htab_map h' = htab_map h" by auto
  show ?thesis
    using sh c h' by (auto simp: env_import_def himport_env_def)
qed

section \<open>Saving and loading\<close>

lemma ff_and [simp]: "0xff AND c = (c :: u8)"
proof -
  have "(0xff :: u8) = - 1" by simp
  then show ?thesis by (metis and.left_neutral)
qed

lemma rewrite_sector:
  assumes "length img \<le> sect" "off + sect \<le> length m"
  shows "programmed (programmed (erased m off sect) off img) (off + length img) (seg m (off + length img) (sect - length img))
    = put_seg m off img"
proof (rule nth_equalityI)
  let ?s = "seg m (off + length img) (sect - length img)"
  have s: "length ?s = sect - length img" using assms by (simp add: seg_def)
  have n: "?s ! i = m ! (off + length img + i)" if "i < sect - length img" for i using that assms by (simp add: seg_def)
  have e: "length (erased m off sect) = length m" "length (programmed (erased m off sect) off img) = length m" using assms by simp_all
  show "length (programmed (programmed (erased m off sect) off img) (off + length img) ?s) = length (put_seg m off img)"
    using assms s by (simp add: put_seg_def)
  fix i assume "i < length (programmed (programmed (erased m off sect) off img) (off + length img) ?s)"
  then have i: "i < length m" using assms s by simp
  show "programmed (programmed (erased m off sect) off img) (off + length img) ?s ! i = put_seg m off img ! i"
    using assms s i e n [of "i - (off + length img)"] by (auto simp: nth_programmed nth_erased put_seg_def nth_append)
qed

locale flash_array =
  fixes fi :: "'f flash_if" and content :: "'f \<Rightarrow> u8 list" and good :: "'f \<Rightarrow> bool"
  assumes holds_env: "good f \<Longrightarrow> CONFIG_ENV_OFFSET + CONFIG_ENV_SECT_SIZE \<le> length (content f)"
    and probe_law: "good f \<Longrightarrow> \<exists>f'. fi_probe fi f = (True, f') \<and> good f' \<and> content f' = content f"
    and read_law: "good f \<Longrightarrow> 0 < n \<Longrightarrow> a + n \<le> length (content f) \<Longrightarrow>
      \<exists>f'. fi_read fi a n f = Some (0, seg (content f) a n, f') \<and> good f' \<and> content f' = content f"
    and write_law: "good f \<Longrightarrow> bs \<noteq> [] \<Longrightarrow> a + length bs \<le> length (content f) \<Longrightarrow>
      \<exists>f'. fi_write fi a bs f = Some (0, f') \<and> good f' \<and> content f' = programmed (content f) a bs"
    and erase_law: "good f \<Longrightarrow> a mod CONFIG_ENV_SECT_SIZE = 0 \<Longrightarrow> a + CONFIG_ENV_SECT_SIZE \<le> length (content f) \<Longrightarrow>
      \<exists>f'. fi_erase fi a CONFIG_ENV_SECT_SIZE f = Some (0, f') \<and> good f' \<and> content f' = erased (content f) a CONFIG_ENV_SECT_SIZE"
begin

lemma setup_run:
  assumes "good f"
  shows "\<exists>f'. setup_flash_device cfg fi (st, f) = Some (0, st\<lparr>env_flash := True\<rparr>, f') \<and> good f' \<and> content f' = content f"
  using probe_law [OF assms] assms by (cases "env_flash st") (auto simp: setup_flash_device_def)

lemma write_back_run:
  assumes "good f" "length img = CONFIG_ENV_SIZE"
    and s: "saved = seg (content f) (CONFIG_ENV_OFFSET + CONFIG_ENV_SIZE) (CONFIG_ENV_SECT_SIZE - CONFIG_ENV_SIZE)"
  shows "\<exists>f'. sf_write_back fi img saved st f = Some (0, st, f') \<and> good f' \<and> content f' = put_seg (content f) CONFIG_ENV_OFFSET img"
proof -
  have h: "CONFIG_ENV_OFFSET + CONFIG_ENV_SECT_SIZE \<le> length (content f)" by (rule holds_env [OF assms(1)])
  have al: "CONFIG_ENV_OFFSET mod CONFIG_ENV_SECT_SIZE = 0" "(CONFIG_ENV_SIZE + CONFIG_ENV_SECT_SIZE - 1) div CONFIG_ENV_SECT_SIZE = 1"
    "CONFIG_ENV_SIZE < CONFIG_ENV_SECT_SIZE" "0 < CONFIG_ENV_SIZE" by (simp_all add: env_sizes)
  from erase_law [OF assms(1) al(1) h] obtain f1 where f1: "fi_erase fi CONFIG_ENV_OFFSET CONFIG_ENV_SECT_SIZE f = Some (0, f1)"
    "good f1" "content f1 = erased (content f) CONFIG_ENV_OFFSET CONFIG_ENV_SECT_SIZE" by blast
  have l1: "length (content f1) = length (content f)" using f1(3) h by simp
  from write_law [OF f1(2), of img CONFIG_ENV_OFFSET] obtain f2 where f2: "fi_write fi CONFIG_ENV_OFFSET img f1 = Some (0, f2)"
    "good f2" "content f2 = programmed (content f1) CONFIG_ENV_OFFSET img" using assms(2) al(3,4) l1 h by fastforce
  have l2: "length (content f2) = length (content f)" using f2(3) l1 assms(2) al(3) h by simp
  have ls: "length saved = CONFIG_ENV_SECT_SIZE - CONFIG_ENV_SIZE" using h al(3) by (simp add: s seg_def)
  from write_law [OF f2(2), of saved "CONFIG_ENV_OFFSET + CONFIG_ENV_SIZE"] obtain f3 where
    f3: "fi_write fi (CONFIG_ENV_OFFSET + CONFIG_ENV_SIZE) saved f2 = Some (0, f3)" "good f3"
      "content f3 = programmed (content f2) (CONFIG_ENV_OFFSET + CONFIG_ENV_SIZE) saved" using ls al(3) l2 h by fastforce
  have "content f3 = put_seg (content f) CONFIG_ENV_OFFSET img"
    using rewrite_sector [of img CONFIG_ENV_SECT_SIZE CONFIG_ENV_OFFSET "content f"] assms(2) al(3) h by (simp add: f3(3) f2(3) f1(3) s)
  then show ?thesis using f1(1) f2(1) f3(1,2) al(2,3) by (simp add: sf_write_back_def Let_def)
qed

lemma sf_save_run:
  assumes "plain_cfg cfg" "storable cfg (env_htab st)" "length out = CONFIG_ENV_SIZE" "good f"
  shows "\<exists>f'. env_sf_save cfg fi out (st, f) = Some (0, st\<lparr>env_flash := True\<rparr>, f') \<and> good f'
     \<and> content f' = put_seg (content f) CONFIG_ENV_OFFSET (env_image cfg (env_htab st))"
proof -
  let ?st = "st\<lparr>env_flash := True\<rparr>"
  from setup_run [OF assms(4), of cfg st] obtain f1 where f1: "setup_flash_device cfg fi (st, f) = Some (0, ?st, f1)"
    "good f1" "content f1 = content f" by blast
  have sz: "CONFIG_ENV_SIZE < CONFIG_ENV_SECT_SIZE" by (simp add: env_sizes)
  from read_law [OF f1(2), of "CONFIG_ENV_SECT_SIZE - CONFIG_ENV_SIZE" "CONFIG_ENV_OFFSET + CONFIG_ENV_SIZE"] holds_env [OF f1(2)] sz
  obtain f2 where f2: "fi_read fi (CONFIG_ENV_OFFSET + CONFIG_ENV_SIZE) (CONFIG_ENV_SECT_SIZE - CONFIG_ENV_SIZE) f1
      = Some (0, seg (content f1) (CONFIG_ENV_OFFSET + CONFIG_ENV_SIZE) (CONFIG_ENV_SECT_SIZE - CONFIG_ENV_SIZE), f2)"
    "good f2" "content f2 = content f1" by auto
  have st: "storable cfg (env_htab ?st)" using assms(2) by simp
  from write_back_run [OF f2(2) env_image_shape(1) [OF assms(1) st] refl, of ?st] f1(3) f2(3) obtain f3 where
    f3: "sf_write_back fi (env_image cfg (env_htab ?st))
          (seg (content f1) (CONFIG_ENV_OFFSET + CONFIG_ENV_SIZE) (CONFIG_ENV_SECT_SIZE - CONFIG_ENV_SIZE)) ?st f2 = Some (0, ?st, f3)"
      "good f3" "content f3 = put_seg (content f) CONFIG_ENV_OFFSET (env_image cfg (env_htab ?st))" by auto
  show ?thesis
    using f1(1) f2(1) f3 env_export_run [OF assms(1) st assms(3)] assms(1) sz by (simp add: env_sf_save_def plain_cfg_def)
qed

lemma sf_load_run:
  assumes "plain_cfg cfg" "good f"
  shows "\<exists>f'. env_sf_load cfg fi (st, f) =
       map_option (\<lambda>(ret, st1). (ret, (if ret = 0 then st1\<lparr>env_valid := ENV_VALID\<rparr> else st1)\<lparr>env_flash := False\<rparr>, f'))
         (env_import cfg (seg (content f) CONFIG_ENV_OFFSET CONFIG_ENV_SIZE) True (st\<lparr>env_flash := True\<rparr>))
     \<and> good f' \<and> content f' = content f"
proof -
  from setup_run [OF assms(2), of cfg st] obtain f1 where f1: "setup_flash_device cfg fi (st, f) = Some (0, st\<lparr>env_flash := True\<rparr>, f1)"
    "good f1" "content f1 = content f" by blast
  have "CONFIG_ENV_OFFSET + CONFIG_ENV_SIZE \<le> length (content f1)" "0 < CONFIG_ENV_SIZE"
    using holds_env [OF f1(2)] by (simp_all add: env_sizes)
  from read_law [OF f1(2) this(2,1)] obtain f2 where f2: "fi_read fi CONFIG_ENV_OFFSET CONFIG_ENV_SIZE f1
      = Some (0, seg (content f1) CONFIG_ENV_OFFSET CONFIG_ENV_SIZE, f2)" "good f2" "content f2 = content f1" by blast
  have "env_sf_load cfg fi (st, f) =
       map_option (\<lambda>(ret, st1). (ret, (if ret = 0 then st1\<lparr>env_valid := ENV_VALID\<rparr> else st1)\<lparr>env_flash := False\<rparr>, f2))
         (env_import cfg (seg (content f) CONFIG_ENV_OFFSET CONFIG_ENV_SIZE) True (st\<lparr>env_flash := True\<rparr>))"
    using assms(1) f1 f2(1)
    by (cases "env_import cfg (seg (content f) CONFIG_ENV_OFFSET CONFIG_ENV_SIZE) True (st\<lparr>env_flash := True\<rparr>)")
      (auto simp: env_sf_load_def plain_cfg_def Let_def)
  then show ?thesis using f1(3) f2(2,3) by (intro exI [of _ f2]) simp
qed

lemma env_save_run:
  assumes "plain_cfg cfg" "storable cfg (env_htab st)" "length out = CONFIG_ENV_SIZE" "good f"
    and "env_load_prio st = 0" "ENVL_SPI_FLASH \<in> set (env_has_init st)"
  shows "\<exists>f'. env_save [sf_driver cfg fi out] (st, f) = Some (0, st\<lparr>env_flash := True\<rparr>, f') \<and> good f'
     \<and> content f' = put_seg (content f) CONFIG_ENV_OFFSET (env_image cfg (env_htab st))"
proof -
  have "env_driver_lookup [sf_driver cfg fi out] 0 st = (Some (sf_driver cfg fi out), st)"
    using assms(5) by (cases st) (simp add: env_driver_lookup_def env_get_location_def env_locations_def find_driver_def sf_driver_def)
  then show ?thesis
    using sf_save_run [OF assms(1-4)] assms(5,6) by (auto simp: env_save_def sf_driver_def env_has_inited_def)
qed

lemma env_init_run:
  "env_init cfg [sf_driver cfg fi out] (st, f) =
     Some (0, st\<lparr>env_load_prio := 0, env_has_init := List.insert ENVL_SPI_FLASH (env_has_init st),
               env_addr := default_environment cfg, env_valid := ENV_VALID\<rparr>, f)"
  by (simp add: env_init_def env_init_loop.simps [of _ _ 0] env_init_loop.simps [of _ _ "Suc 0"] env_driver_lookup_def env_get_location_def env_locations_def find_driver_def
      sf_driver_def env_set_inited_def)

text \<open>What the load finds is imported, whatever the state before.\<close>

lemma env_relocate_run:
  assumes "plain_cfg cfg" "good f" "env_valid st \<noteq> ENV_INVALID" "ENVL_SPI_FLASH \<in> set (env_has_init st)"
    and "storable cfg h" "seg (content f) CONFIG_ENV_OFFSET CONFIG_ENV_SIZE = env_image cfg h"
  shows "\<exists>st' f'. env_relocate cfg [sf_driver cfg fi out] (st, f) = Some (st', f') \<and> good f' \<and> content f' = content f
     \<and> htab_ok (env_htab st') \<and> htab_map (env_htab st') = htab_map h \<and> env_ready st' \<and> env_is_default st' = env_is_default st"
proof -
  let ?st = "st\<lparr>env_load_prio := 0\<rparr>"
  from env_import_image [OF assms(1,5), of True "?st\<lparr>env_flash := True\<rparr>"] obtain h' where
    h': "env_import cfg (env_image cfg h) True (?st\<lparr>env_flash := True\<rparr>) = Some (0, ?st\<lparr>env_flash := True, env_htab := h', env_ready := True\<rparr>)"
      "htab_ok h'" "htab_map h' = htab_map h" by auto
  from sf_load_run [OF assms(1,2), of ?st] obtain f' where
    f': "env_sf_load cfg fi (?st, f) = Some (0, ?st\<lparr>env_flash := False, env_htab := h', env_ready := True, env_valid := ENV_VALID\<rparr>, f')"
      "good f'" "content f' = content f" unfolding assms(6) h'(1) by auto
  have "env_relocate cfg [sf_driver cfg fi out] (st, f) = Some (?st\<lparr>env_flash := False, env_htab := h', env_ready := True, env_valid := ENV_VALID\<rparr>, f')"
    using assms(3,4) f'(1)
    by (simp add: env_relocate_def env_load_def env_load_loop.simps [of _ 0] env_driver_lookup_def env_get_location_def env_locations_def
        find_driver_def sf_driver_def env_has_inited_def)
  then show ?thesis using h'(2,3) f'(2,3) by auto
qed

text \<open>A save, and any start after it.\<close>

lemma save_restart:
  assumes "plain_cfg cfg" "storable cfg (env_htab st)" "length out = CONFIG_ENV_SIZE" "good f"
    and "env_load_prio st = 0" "ENVL_SPI_FLASH \<in> set (env_has_init st)"
  shows "\<exists>f1. env_save [sf_driver cfg fi out] (st, f) = Some (0, st\<lparr>env_flash := True\<rparr>, f1)
     \<and> content f1 = put_seg (content f) CONFIG_ENV_OFFSET (env_image cfg (env_htab st))
     \<and> (\<forall>st0. \<exists>st2 st3 f3. env_init cfg [sf_driver cfg fi out] (st0, f1) = Some (0, st2, f1)
          \<and> env_relocate cfg [sf_driver cfg fi out] (st2, f1) = Some (st3, f3)
          \<and> htab_ok (env_htab st3) \<and> htab_map (env_htab st3) = htab_map (env_htab st)
          \<and> env_ready st3 \<and> env_is_default st3 = env_is_default st0)"
proof -
  from env_save_run [OF assms] obtain f1 where
    f1: "env_save [sf_driver cfg fi out] (st, f) = Some (0, st\<lparr>env_flash := True\<rparr>, f1)" "good f1"
      "content f1 = put_seg (content f) CONFIG_ENV_OFFSET (env_image cfg (env_htab st))" by blast
  have i: "seg (content f1) CONFIG_ENV_OFFSET CONFIG_ENV_SIZE = env_image cfg (env_htab st)"
    using env_image_shape(1) [OF assms(1,2)] holds_env [OF assms(4)] by (simp add: f1(3) seg_def put_seg_def env_sizes)
  have "\<exists>st2 st3 f3. env_init cfg [sf_driver cfg fi out] (st0, f1) = Some (0, st2, f1)
          \<and> env_relocate cfg [sf_driver cfg fi out] (st2, f1) = Some (st3, f3)
          \<and> htab_ok (env_htab st3) \<and> htab_map (env_htab st3) = htab_map (env_htab st)
          \<and> env_ready st3 \<and> env_is_default st3 = env_is_default st0" for st0
    unfolding env_init_run
    using env_relocate_run [OF assms(1) f1(2) _ _ assms(2) i, of "st0\<lparr>env_load_prio := 0,
      env_has_init := List.insert ENVL_SPI_FLASH (env_has_init st0), env_addr := default_environment cfg, env_valid := ENV_VALID\<rparr>" out]
    by auto
  then show ?thesis using f1(1,3) by blast
qed

end

text \<open>The flash driver with the chip behind it.  The probe reads the identification of the chip; here it
  has been found.\<close>

definition sf_if :: "'s spi_flash \<Rightarrow> 's spi_slave \<Rightarrow> 's flash_if" where
  "sf_if fl sl = \<lparr>fi_probe = \<lambda>s. (True, s), fi_read = spi_flash_cmd_read_ops fl sl True,
     fi_write = spi_flash_cmd_write_ops fl sl, fi_erase = spi_flash_cmd_erase_ops fl sl\<rparr>"

interpretation fa: flash_array "sf_if nor_flash nor_slave" cells nor_idle
proof
  fix c assume c: "nor_idle c"
  then have l: "length (cells c) = SPI_FLASH_16MB_BOUN" by (simp add: nor_idle_def)
  show "CONFIG_ENV_OFFSET + CONFIG_ENV_SECT_SIZE \<le> length (cells c)" unfolding l by (simp add: env_sizes SPI_FLASH_16MB_BOUN_def)
  show "\<exists>c'. fi_probe (sf_if nor_flash nor_slave) c = (True, c') \<and> nor_idle c' \<and> cells c' = cells c"
    using c by (simp add: sf_if_def)
  show "\<exists>c'. fi_read (sf_if nor_flash nor_slave) a n c = Some (0, seg (cells c) a n, c') \<and> nor_idle c' \<and> cells c' = cells c"
    if "0 < n" "a + n \<le> length (cells c)" for a n
    using nor.read_run [OF c that] by (simp add: sf_if_def)
  show "\<exists>c'. fi_write (sf_if nor_flash nor_slave) a bs c = Some (0, c') \<and> nor_idle c' \<and> cells c' = programmed (cells c) a bs"
    if "bs \<noteq> []" "a + length bs \<le> length (cells c)" for a bs
    using nor.write_run [OF c that] by (simp add: sf_if_def)
  show "\<exists>c'. fi_erase (sf_if nor_flash nor_slave) a CONFIG_ENV_SECT_SIZE c = Some (0, c') \<and> nor_idle c'
      \<and> cells c' = erased (cells c) a CONFIG_ENV_SECT_SIZE"
    if "a mod CONFIG_ENV_SECT_SIZE = 0" "a + CONFIG_ENV_SECT_SIZE \<le> length (cells c)" for a
    using nor.erase_run [OF c, of a 1] that by (simp add: sf_if_def CONFIG_ENV_SECT_SIZE_def)
qed

section \<open>Damage\<close>

lemma bad_crc_import:
  assumes "length buf = CONFIG_ENV_SIZE" "\<not> crc_ok cfg buf"
  shows "env_import cfg buf True st = map_option (\<lambda>st1. (- E_IO, st1)) (set_default_env cfg 0 st)"
  using assms by (cases "set_default_env cfg 0 st") (simp_all add: env_import_def)

lemma burst_breaks_crc:
  assumes "plain_cfg cfg" "storable cfg h" "env_image cfg h = p @ v @ s" "4 \<le> length p"
    and "length v \<le> 4" "length w = length v" "w \<noteq> v"
  shows "length (p @ w @ s) = CONFIG_ENV_SIZE" "\<not> crc_ok cfg (p @ w @ s)"
proof -
  note sh = env_image_shape [OF assms(1,2)]
  show l: "length (p @ w @ s) = CONFIG_ENV_SIZE" using sh(1) assms(3,6) by simp
  have h: "ENV_HEADER_SIZE cfg = 4" using assms(1) by (simp add: plain_cfg_def ENV_HEADER_SIZE_def)
  obtain c0 c1 c2 c3 q where p: "p = c0 # c1 # c2 # c3 # q"
    using assms(4) by (auto simp: eval_nat_numeral Suc_le_length_iff)
  have d: "env_data cfg (p @ w @ s) = q @ w @ s" "env_data cfg (p @ v @ s) = q @ v @ s"
    using l sh(1) assms(3) h by (simp_all add: env_data_def seg_def ENV_SIZE_def p)
  have c: "stored_crc (p @ w @ s) = stored_crc (p @ v @ s)" by (simp add: stored_crc_def p)
  have wl: "length w \<le> 4" "length v = length w" using assms(5,6) by simp_all
  have "crc32 (buf_addr cfg + ENV_HEADER_SIZE cfg) 0 (q @ w @ s) \<noteq> crc32 (buf_addr cfg + ENV_HEADER_SIZE cfg) 0 (q @ v @ s)"
    using crc32_burst_kept [OF wl] assms(7) by blast
  then show "\<not> crc_ok cfg (p @ w @ s)"
    using sh(3) unfolding assms(3) crc_ok_def d c by simp
qed

lemma newer_copy_serial: "newer_copy f (f + 1) = ENV_REDUND" "newer_copy (f + 1) f = ENV_VALID"
proof -
  have "f = 255 \<or> f < f + 1"
  proof (cases "f = 255")
    case False
    have "unat f \<noteq> unat (255 :: u8)" using False by (simp only: word_unat_eq_iff) simp
    then have "unat f \<noteq> 255" by simp
    moreover have "unat f < 256" using unsigned_less [of f, where 'a = nat] by simp
    ultimately have "unat f + 1 < 256" by simp
    then have "unat (f + 1) = unat f + 1" by (simp add: unat_word_ariths)
    then show ?thesis by (simp add: word_less_nat_alt)
  qed simp
  then show "newer_copy f (f + 1) = ENV_REDUND" "newer_copy (f + 1) f = ENV_VALID"
    by (auto simp: newer_copy_def)
qed

definition copy_image :: "env_cfg \<Rightarrow> u8 \<Rightarrow> u8 list \<Rightarrow> u8 list" where
  "copy_image cfg flags d = crc_bytes (crc32 (buf_addr cfg + ENV_HEADER_SIZE cfg) 0 d) @ flags # d"

lemma copy_image_shape:
  assumes "redundant cfg" "length d = ENV_SIZE cfg"
  shows "length (copy_image cfg flags d) = CONFIG_ENV_SIZE" "crc_ok cfg (copy_image cfg flags d)" "copy_image cfg flags d ! 4 = flags"
proof -
  have "env_data cfg (copy_image cfg flags d) = d"
    using assms by (simp add: env_data_def seg_def copy_image_def ENV_HEADER_SIZE_def)
  then show "crc_ok cfg (copy_image cfg flags d)" by (simp add: crc_ok_def) (simp add: copy_image_def stored_crc_bytes)
qed (use assms in \<open>simp_all add: copy_image_def env_sizes nth_append\<close>)

lemma env_import_checked: "length buf = CONFIG_ENV_SIZE \<Longrightarrow> crc_ok cfg buf \<Longrightarrow> env_import cfg buf False st = env_import cfg buf True st"
  by (simp add: env_import_def)

section \<open>Properties\<close>

definition demo_cfg :: env_cfg where
  "demo_cfg = \<lparr>env_hk = decimal_env, env_re = demo_regex, redundant = False, default_environment = [97, 61, 49, 0, 0],
     buf_addr = 0, himport_malloc_ok = True, himport_calloc_ok = True, memalign_ok = True, malloc_ok = True\<rparr>"

definition demo_state :: env_state where
  "demo_state = \<lparr>env_htab = demo_htab, env_ready = True, env_is_default = False, env_valid = ENV_VALID, env_addr = [],
     env_has_init = [ENVL_SPI_FLASH], env_load_prio = 0, env_flash = False, env_serial = 0\<rparr>"

definition demo_chip :: nor_chip where
  "demo_chip = \<lparr>cells = replicate SPI_FLASH_16MB_BOUN 0, wel = False, pending = [], busy = 0, clock = 0\<rparr>"

lemma demo_plain: "plain_cfg demo_cfg"
  by (simp add: plain_cfg_def demo_cfg_def decimal_env_def env_hooks_def copies_def)

lemma demo_idle: "nor_idle demo_chip"
  by (simp add: nor_idle_def demo_chip_def)

lemma demo_storable: "storable demo_cfg demo_htab"
proof -
  have l: "length (export_bytes 0 (env_pairs demo_cfg demo_htab)) = 12" "filled demo_htab = 3" by code_simp+
  have p: "pair_ok 0 (k, d) \<and> creatable (env_hk demo_cfg) k d 0" if "htab_map demo_htab k = Some d" for k d
    using demo_htab_pairs [OF that]
  proof (elim insertE)
    assume "(k, d) = ([98], [48])" then show ?thesis by simp code_simp
  next
    assume "(k, d) = ([103], [49])" then show ?thesis by simp code_simp
  next
    assume "(k, d) = ([108], [50])" then show ?thesis by simp code_simp
  qed simp
  have "(12 :: nat) < ENV_SIZE demo_cfg" by (simp add: env_sizes demo_cfg_def)
  then show ?thesis using l p demo_htab_ok by (simp add: storable_def CONFIG_ENV_MAX_ENTRIES_def)
qed

text \<open> C6. Saving and starting again keeps the environment: for variables that the storage can hold, the
  save through the flash driver reports success and changes nothing in the flash but the environment's
  place; and from then on, whatever the state the next start begins with, the initialisation and the
  relocation give a well formed table with the same variables, not the default ones.\<close>

theorem env_save_load_restores:
  assumes "plain_cfg cfg" "storable cfg (env_htab st)" "length out = CONFIG_ENV_SIZE" "nor_idle c"
    and "env_load_prio st = 0" "ENVL_SPI_FLASH \<in> set (env_has_init st)"
  shows "\<exists>st1 c1. env_save [sf_driver cfg (sf_if nor_flash nor_slave) out] (st, c) = Some (0, st1, c1)
     \<and> cells c1 = put_seg (cells c) CONFIG_ENV_OFFSET (env_image cfg (env_htab st))
     \<and> (\<forall>st0. \<exists>st2 st3 c3. env_init cfg [sf_driver cfg (sf_if nor_flash nor_slave) out] (st0, c1) = Some (0, st2, c1)
          \<and> env_relocate cfg [sf_driver cfg (sf_if nor_flash nor_slave) out] (st2, c1) = Some (st3, c3)
          \<and> htab_ok (env_htab st3) \<and> htab_map (env_htab st3) = htab_map (env_htab st)
          \<and> env_ready st3 \<and> env_is_default st3 = env_is_default st0)"
  using fa.save_restart [OF assms] by blast

theorem env_save_load_restores_witness:
  "\<exists>st1 c1. env_save [sf_driver demo_cfg (sf_if nor_flash nor_slave) (replicate CONFIG_ENV_SIZE 0)] (demo_state, demo_chip) = Some (0, st1, c1)
     \<and> (\<exists>st2 st3 c3. env_init demo_cfg [sf_driver demo_cfg (sf_if nor_flash nor_slave) (replicate CONFIG_ENV_SIZE 0)] (demo_state, c1) = Some (0, st2, c1)
          \<and> env_relocate demo_cfg [sf_driver demo_cfg (sf_if nor_flash nor_slave) (replicate CONFIG_ENV_SIZE 0)] (st2, c1) = Some (st3, c3)
          \<and> htab_map (env_htab st3) [103] = Some [49])"
proof -
  have m: "htab_map demo_htab [103] = Some [49]" by code_simp
  have s: "storable demo_cfg (env_htab demo_state)" "length (replicate CONFIG_ENV_SIZE (0 :: u8)) = CONFIG_ENV_SIZE"
    "env_load_prio demo_state = 0" "ENVL_SPI_FLASH \<in> set (env_has_init demo_state)" "env_htab demo_state = demo_htab"
    using demo_storable by (simp_all add: demo_state_def)
  show ?thesis using env_save_load_restores [OF demo_plain s(1,2) demo_idle s(3,4)] m s(5) by metis
qed

text \<open> C7. Damage in flash is noticed: when up to four consecutive bytes of the stored variables change in
  any way, the import reports an error and takes the default environment instead.\<close>

theorem env_import_detects_burst:
  assumes "plain_cfg cfg" "storable cfg h" "env_image cfg h = p @ v @ s" "4 \<le> length p"
    and "length v \<le> 4" "length w = length v" "w \<noteq> v"
  shows "env_import cfg (p @ w @ s) True st = map_option (\<lambda>st1. (- E_IO, st1)) (set_default_env cfg 0 st)"
  by (rule bad_crc_import) (rule burst_breaks_crc [OF assms])+

theorem env_import_detects_burst_witness:
  "\<exists>p v s. env_image demo_cfg demo_htab = p @ [v] @ s \<and> length p = 5
     \<and> env_import demo_cfg (p @ [v + 1] @ s) True demo_state = map_option (\<lambda>st1. (- E_IO, st1)) (set_default_env demo_cfg 0 demo_state)"
proof -
  let ?i = "env_image demo_cfg demo_htab"
  have l: "5 < length ?i" using env_image_shape(1) [OF demo_plain demo_storable] by (simp add: CONFIG_ENV_SIZE_def)
  then have i: "?i = take 5 ?i @ [?i ! 5] @ drop 6 ?i" "length (take 5 ?i) = 5"
    using id_take_nth_drop [OF l] by simp_all
  have "env_import demo_cfg (take 5 ?i @ [?i ! 5 + 1] @ drop 6 ?i) True demo_state
      = map_option (\<lambda>st1. (- E_IO, st1)) (set_default_env demo_cfg 0 demo_state)"
    by (rule env_import_detects_burst [OF demo_plain demo_storable i(1)]) (use l in simp_all)
  then show ?thesis using i by metis
qed



text \<open> C37. When the buffer for the rest of the sector cannot be allocated, nothing is saved and the save
  reports success all the same.\<close>

theorem env_save_without_memory:
  assumes "\<not> malloc_ok cfg" "env_load_prio st = 0" "ENVL_SPI_FLASH \<in> set (env_has_init st)"
  shows "\<exists>st1. env_save [sf_driver cfg (sf_if fl sl) out] (st, f) = Some (0, st1, f)"
proof -
  have "env_driver_lookup [sf_driver cfg (sf_if fl sl) out] 0 st = (Some (sf_driver cfg (sf_if fl sl) out), st)"
    using assms(2) by (cases st) (simp add: env_driver_lookup_def env_get_location_def env_locations_def find_driver_def sf_driver_def)
  then show ?thesis
    using assms by (simp add: env_save_def sf_driver_def env_has_inited_def env_sf_save_def setup_flash_device_def sf_if_def env_sizes)
qed

theorem env_save_without_memory_witness:
  "\<exists>st1. env_save [sf_driver (demo_cfg\<lparr>malloc_ok := False\<rparr>) (sf_if nor_flash nor_slave) []] (demo_state, demo_chip) = Some (0, st1, demo_chip)"
  by (rule env_save_without_memory) (simp_all add: demo_state_def)

end
