(* ===== verification/Charset.thy ===== *)
theory Charset
  imports UBoot_Prelude
begin

text \<open>
  Conversion between UTF-8 and UTF-16, \<^verbatim>\<open>lib/charset.c\<close>.  A text is the array that the pointer
  \<^verbatim>\<open>src\<close> walks over; reading past its end is \<^const>\<open>None\<close>.  The result is what is written from \<^verbatim>\<open>dest\<close> on,
  so the returned pointer is \<^verbatim>\<open>dest\<close> plus its length.

  The reference are the encodings of a code point, \<open>utf16_of\<close> and \<open>utf8_of\<close>.
\<close>

unbundle bit_operations_syntax

section \<open>Definitions\<close>

fun utf16_strlen :: "u16 list \<Rightarrow> nat option" where
  "utf16_strlen [] = None"
| "utf16_strlen (c # cs) = (if c \<noteq> 0 then map_option Suc (utf16_strlen cs) else Some 0)"

fun utf16_strnlen :: "u16 list \<Rightarrow> nat \<Rightarrow> nat option" where
  "utf16_strnlen s 0 = Some 0"
| "utf16_strnlen [] (Suc n) = None"
| "utf16_strnlen (c # cs) (Suc n) = (if c \<noteq> 0 then map_option Suc (utf16_strnlen cs n) else Some 0)"

text \<open>The copy, terminator included.\<close>

fun utf16_strcpy :: "u16 list \<Rightarrow> u16 list option" where
  "utf16_strcpy [] = None"
| "utf16_strcpy (c # cs) = (if c \<noteq> 0 then map_option ((#) c) (utf16_strcpy cs) else Some [0])"

text \<open>The inner \<^const>\<open>None\<close> is the null pointer.\<close>

definition utf16_strdup :: "bool \<Rightarrow> u16 list option \<Rightarrow> u16 list option option" where
  "utf16_strdup malloc_ok s =
     (case s of None \<Rightarrow> Some None
      | Some cs \<Rightarrow> do { n \<leftarrow> utf16_strlen cs;
                        if \<not> malloc_ok then Some None
                        else do { copy \<leftarrow> utf16_strcpy cs; if length copy \<le> n + 1 then Some (Some copy) else None } })"

definition MAX_UTF8_PER_UTF16 :: nat where "MAX_UTF8_PER_UTF16 = 3"

definition four_bytes :: "u32 \<Rightarrow> u8 list" where
  "four_bytes code = [ucast (drop_bit 18 code OR 0xF0), ucast ((drop_bit 12 code AND 0x3F) OR 0x80),
                      ucast ((drop_bit 6 code AND 0x3F) OR 0x80), ucast ((code AND 0x3F) OR 0x80)]"

fun utf16_loop :: "nat \<Rightarrow> u32 \<Rightarrow> u16 list \<Rightarrow> u8 list option" where
  "utf16_loop 0 code_high src = Some []"
| "utf16_loop (Suc n) code_high [] = None"
| "utf16_loop (Suc n) code_high (c # src) =
     (let code = ucast c :: u32
      in if code_high \<noteq> 0 then
           (if code \<ge> 0xDC00 \<and> code \<le> 0xDFFF
            then map_option ((@) (four_bytes (push_bit 10 (code_high - 0xD800) + (code - 0xDC00) + 0x10000)))
                   (utf16_loop n 0 src)
            else map_option ((#) 63) (utf16_loop n 0 (c # src)))
         else if code \<le> 0x7F then map_option ((#) (ucast code)) (utf16_loop n 0 src)
         else if code \<le> 0x7FF
              then map_option ((@) [ucast (drop_bit 6 code OR 0xC0), ucast ((code AND 0x3F) OR 0x80)]) (utf16_loop n 0 src)
         else if code \<ge> 0xD800 \<and> code \<le> 0xDBFF then utf16_loop n code src
         else if code \<ge> 0xDC00 \<and> code \<le> 0xDFFF then map_option ((#) 63) (utf16_loop n 0 src)
         else if code < 0x10000
              then map_option ((@) [ucast (drop_bit 12 code OR 0xE0), ucast ((drop_bit 6 code AND 0x3F) OR 0x80),
                                    ucast ((code AND 0x3F) OR 0x80)]) (utf16_loop n 0 src)
         else map_option ((@) (four_bytes code)) (utf16_loop n 0 src))"

definition utf16_to_utf8 :: "u16 list \<Rightarrow> nat \<Rightarrow> u8 list option" where
  "utf16_to_utf8 src n = utf16_loop n 0 src"

text \<open>The continuation bytes: the code, what is left of \<^verbatim>\<open>size\<close> and of the source.\<close>

fun extension :: "nat \<Rightarrow> nat \<Rightarrow> u32 \<Rightarrow> u8 list \<Rightarrow> (u32 \<times> nat \<times> u8 list) option" where
  "extension 0 n code src = Some (code, n, src)"
| "extension (Suc e) 0 code src = Some (code, 0, src)"
| "extension (Suc e) (Suc n) code [] = None"
| "extension (Suc e) (Suc n) code (c # src) =
     (if c AND 0xC0 = 0x80 then extension e n (push_bit 6 code OR ucast (c AND 0x3F)) src
      else Some (63, n, src))"

definition units_of :: "u32 \<Rightarrow> u16 list" where
  "units_of code = (if code < 0x10000 then [ucast code]
                    else [ucast (drop_bit 10 code + 0xD7C0), ucast ((code AND 0x3FF) OR 0xDC00)])"

text \<open>The first byte: the code so far, the number of continuation bytes, the new \<^verbatim>\<open>size\<close>, and
  whether the byte is consumed.\<close>

definition lead_byte :: "u8 \<Rightarrow> nat \<Rightarrow> u32 \<times> nat \<times> nat \<times> bool" where
  "lead_byte c n =
     (if c \<le> 0x7F then (ucast c, 0, if c = 0 then 0 else n, True)
      else if c \<le> 0xBF then (63, 0, n, False)
      else if c \<le> 0xDF then (ucast (c AND 0x1F), 1, n, True)
      else if c \<le> 0xEF then (ucast (c AND 0x0F), 2, n, True)
      else if c \<le> 0xF7 then (ucast (c AND 0x07), 3, n, True)
      else (63, 0, n, False))"

lemma extension_size: "extension e n code src = Some (code', n', src') \<Longrightarrow> n' \<le> n"
  by (induction e n code src rule: extension.induct) (auto split: if_splits)

lemma lead_size: "lead_byte c n = (code, e, n', used) \<Longrightarrow> n' \<le> n"
  by (auto simp: lead_byte_def split: if_splits)

function utf8_to_utf16 :: "u8 list \<Rightarrow> nat \<Rightarrow> u16 list option" where
  "utf8_to_utf16 src 0 = Some []"
| "utf8_to_utf16 [] (Suc n) = None"
| "utf8_to_utf16 (c # src) (Suc n) =
     (case lead_byte c n of (code, e, n1, used) \<Rightarrow>
       (case extension e n1 code (if used then src else c # src) of
          None \<Rightarrow> None
        | Some (code', n2, src') \<Rightarrow> map_option ((@) (units_of code')) (utf8_to_utf16 src' n2)))"
  by pat_completeness auto
termination
  by (relation "measure snd") (auto dest!: extension_size lead_size [OF sym] simp: le_imp_less_Suc)

section \<open>Encodings of a code point\<close>

definition scalar :: "nat \<Rightarrow> bool" where
  "scalar n \<longleftrightarrow> n < 0x110000 \<and> \<not> (0xD800 \<le> n \<and> n \<le> 0xDFFF)"

definition utf16_of :: "nat \<Rightarrow> u16 list" where
  "utf16_of n = map of_nat (if n < 0x10000 then [n] else [0xD800 + (n - 0x10000) div 0x400, 0xDC00 + (n - 0x10000) mod 0x400])"

definition utf8_of :: "nat \<Rightarrow> u8 list" where
  "utf8_of n = map of_nat
     (if n < 0x80 then [n]
      else if n < 0x800 then [0xC0 + n div 0x40, 0x80 + n mod 0x40]
      else if n < 0x10000 then [0xE0 + n div 0x1000, 0x80 + n div 0x40 mod 0x40, 0x80 + n mod 0x40]
      else [0xF0 + n div 0x40000, 0x80 + n div 0x1000 mod 0x40, 0x80 + n div 0x40 mod 0x40, 0x80 + n mod 0x40])"

lemma or_high:
  fixes a b k :: nat
  assumes "a < 2 ^ k" shows "(2 ^ k * b) OR a = 2 ^ k * b + a"
proof -
  have "push_bit k b OR take_bit k a = push_bit k b + take_bit k a"
    by (rule disjunctive_add [symmetric]) (auto simp: bit_simps)
  then show ?thesis using assms by (simp add: push_bit_eq_mult take_bit_nat_eq_self mult.commute)
qed

lemma of_nat_or: "(of_nat a :: 'a :: len word) OR of_nat b = of_nat (a OR b)"
  by (rule bit_word_eqI) (simp add: bit_simps)

lemma of_nat_and: "(of_nat a :: 'a :: len word) AND of_nat b = of_nat (a AND b)"
  by (rule bit_word_eqI) (simp add: bit_simps)

lemma of_nat_drop: "a < 2 ^ LENGTH('a) \<Longrightarrow> drop_bit k (of_nat a :: 'a :: len word) = of_nat (a div 2 ^ k)"
  by (simp only: word_unat_eq_iff unat_drop_bit_eq unat_of_nat) (simp add: drop_bit_eq_div le_less_trans [OF div_le_dividend])

lemma ucast_of_nat_down: "ucast (of_nat a :: u32) = (of_nat a :: u8)" "ucast (of_nat a :: u32) = (of_nat a :: u16)"
  by (rule bit_word_eqI; auto simp: bit_simps)+

lemma ucast_of_nat_up: "a < 0x100 \<Longrightarrow> ucast (of_nat a :: u8) = (of_nat a :: u32)" "a < 0x10000 \<Longrightarrow> ucast (of_nat a :: u16) = (of_nat a :: u32)"
  by (simp_all add: unsigned_of_nat take_bit_nat_eq_self)

lemma and_low: "of_nat a AND 0x3F = (of_nat (a mod 0x40) :: 'a :: len word)" "of_nat a AND 0x3FF = (of_nat (a mod 0x400) :: 'a :: len word)"
  "of_nat a AND 0x1F = (of_nat (a mod 0x20) :: 'a :: len word)" "of_nat a AND 0x0F = (of_nat (a mod 0x10) :: 'a :: len word)"
  "of_nat a AND 0x07 = (of_nat (a mod 0x08) :: 'a :: len word)"
proof -
  have *: "of_nat a AND mask k = (of_nat (a mod 2 ^ k) :: 'a :: len word)" for k
    by (rule bit_word_eqI) (auto simp: bit_simps simp flip: take_bit_eq_mod)
  show "of_nat a AND 0x3F = (of_nat (a mod 0x40) :: 'a :: len word)" using * [of 6] by (simp add: mask_eq_exp_minus_1)
  show "of_nat a AND 0x3FF = (of_nat (a mod 0x400) :: 'a :: len word)" using * [of 10] by (simp add: mask_eq_exp_minus_1)
  show "of_nat a AND 0x1F = (of_nat (a mod 0x20) :: 'a :: len word)" using * [of 5] by (simp add: mask_eq_exp_minus_1)
  show "of_nat a AND 0x0F = (of_nat (a mod 0x10) :: 'a :: len word)" using * [of 4] by (simp add: mask_eq_exp_minus_1)
  show "of_nat a AND 0x07 = (of_nat (a mod 0x08) :: 'a :: len word)" using * [of 3] by (simp add: mask_eq_exp_minus_1)
qed

lemma or_lead: "a < 2 ^ k \<Longrightarrow> of_nat a OR of_nat (2 ^ k * b) = (of_nat (2 ^ k * b + a) :: 'a :: len word)"
  by (simp only: of_nat_or or.commute [of a] or_high)

lemma or_tags:
  "a < 0x20 \<Longrightarrow> of_nat a OR 0xC0 = (of_nat (0xC0 + a) :: u32)" "a < 0x10 \<Longrightarrow> of_nat a OR 0xE0 = (of_nat (0xE0 + a) :: u32)"
  "a < 0x08 \<Longrightarrow> of_nat a OR 0xF0 = (of_nat (0xF0 + a) :: u32)" "a < 0x40 \<Longrightarrow> of_nat a OR 0x80 = (of_nat (0x80 + a) :: u32)"
  "a < 0x400 \<Longrightarrow> of_nat a OR 0xDC00 = (of_nat (0xDC00 + a) :: u32)"
  using or_lead [of a 5 6, where 'a = 32] or_lead [of a 4 14, where 'a = 32] or_lead [of a 3 30, where 'a = 32]
    or_lead [of a 6 2, where 'a = 32] or_lead [of a 10 55, where 'a = 32] by simp_all

lemmas code_bytes = of_nat_drop and_low or_tags ucast_of_nat_down

lemma four_bytes_of:
  assumes "n < 0x110000" "0x10000 \<le> n"
  shows "four_bytes (of_nat n) = utf8_of n"
proof -
  have "n < 2 ^ 32" "n div 0x40000 < 0x08" using assms by auto
  then show ?thesis using assms
    by (simp add: four_bytes_def utf8_of_def code_bytes of_nat_drop [where k = 0, simplified] del: of_nat_add)
qed

text \<open>One character of each direction.\<close>

lemma surrogates:
  assumes "n < 0x110000" "0x10000 \<le> n"
  obtains h l where "utf16_of n = [of_nat (0xD800 + h), of_nat (0xDC00 + l)]" "h < 0x400" "l < 0x400" "n = h * 0x400 + l + 0x10000"
proof -
  have "(n - 0x10000) div 0x400 < 0x400" using assms by auto
  moreover have "n = (n - 0x10000) div 0x400 * 0x400 + (n - 0x10000) mod 0x400 + 0x10000"
    using assms(2) div_mult_mod_eq [of "n - 0x10000" "0x400"] by linarith
  ultimately show ?thesis using assms by (intro that [of "(n - 0x10000) div 0x400" "(n - 0x10000) mod 0x400"]) (auto simp: utf16_of_def)
qed

lemma of_nat_le_num: "a < 2 ^ LENGTH('a) \<Longrightarrow> b < 2 ^ LENGTH('a) \<Longrightarrow> (of_nat a :: 'a :: len word) \<le> of_nat b \<longleftrightarrow> a \<le> b"
  by (simp add: word_le_nat_alt unat_of_nat)

lemma u32_cmp:
  assumes "a < 0x100000000"
  shows "(of_nat a :: u32) \<le> numeral k \<longleftrightarrow> a \<le> unat (numeral k :: u32)" "numeral k \<le> (of_nat a :: u32) \<longleftrightarrow> unat (numeral k :: u32) \<le> a"
    "(of_nat a :: u32) < numeral k \<longleftrightarrow> a < unat (numeral k :: u32)" "(of_nat a :: u32) = 0 \<longleftrightarrow> a = 0"
proof -
  have u: "unat (of_nat a :: u32) = a" using assms by (simp add: unat_of_nat)
  show "(of_nat a :: u32) \<le> numeral k \<longleftrightarrow> a \<le> unat (numeral k :: u32)" "numeral k \<le> (of_nat a :: u32) \<longleftrightarrow> unat (numeral k :: u32) \<le> a"
    "(of_nat a :: u32) < numeral k \<longleftrightarrow> a < unat (numeral k :: u32)" using u by (simp_all add: word_le_nat_alt word_less_nat_alt)
  show "(of_nat a :: u32) = 0 \<longleftrightarrow> a = 0" using u by (simp only: unat_eq_0 [symmetric])
qed

lemma utf16_pair:
  assumes "n < 0x110000" "0x10000 \<le> n"
  shows "utf16_loop (Suc (Suc m)) 0 (utf16_of n @ src) = map_option ((@) (utf8_of n)) (utf16_loop m 0 src)"
proof -
  from surrogates [OF assms] obtain h l where s: "utf16_of n = [of_nat (0xD800 + h), of_nat (0xDC00 + l)]" "h < 0x400" "l < 0x400"
    "n = h * 0x400 + l + 0x10000" .
  have c: "push_bit 10 (of_nat (0xD800 + h) - 0xD800) + (of_nat (0xDC00 + l) - 0xDC00) + 0x10000 = (of_nat n :: u32)"
    by (simp add: s(4) push_bit_eq_mult algebra_simps)
  have "ucast (of_nat (0xD800 + h) :: u16) = (of_nat (0xD800 + h) :: u32)" "ucast (of_nat (0xDC00 + l) :: u16) = (of_nat (0xDC00 + l) :: u32)"
    using s(2,3) by (simp_all only: ucast_of_nat_up)
  then show ?thesis using s(2,3) four_bytes_of [OF assms] c unfolding s(1)
    by (simp add: Let_def u32_cmp del: of_nat_add)
qed

lemma utf16_single:
  assumes "scalar n" "n < 0x10000"
  shows "utf16_loop (Suc m) 0 (utf16_of n @ src) = map_option ((@) (utf8_of n)) (utf16_loop m 0 src)"
proof -
  have "n div 0x40 < 0x20" if "n < 0x800" using that by auto
  moreover have "n div 0x1000 < 0x10" using assms(2) by auto
  moreover have "map_option ((#) x) y = map_option ((@) [x]) y" for x :: u8 and y by (cases y) auto
  ultimately show ?thesis using assms
    by (auto simp: utf16_of_def utf8_of_def scalar_def Let_def u32_cmp ucast_of_nat_up code_bytes
        of_nat_drop [where k = 0, simplified] simp del: of_nat_add)
qed

lemma u8_cmp:
  assumes "a < 0x100"
  shows "(of_nat a :: u8) \<le> numeral k \<longleftrightarrow> a \<le> unat (numeral k :: u8)" "(of_nat a :: u8) = 0 \<longleftrightarrow> a = 0"
proof -
  have u: "unat (of_nat a :: u8) = a" using assms by (simp add: unat_of_nat)
  show "(of_nat a :: u8) \<le> numeral k \<longleftrightarrow> a \<le> unat (numeral k :: u8)" using u by (simp add: word_le_nat_alt)
  show "(of_nat a :: u8) = 0 \<longleftrightarrow> a = 0" using u by (simp only: unat_eq_0 [symmetric])
qed

lemma cont_tag:
  assumes "a < 0x40" shows "of_nat (0x80 + a) AND 0xC0 = (0x80 :: u8)"
proof -
  have "take_bit 6 a = a" using assms by (simp add: take_bit_nat_eq_self_iff)
  then have "of_nat a AND push_bit 6 3 = (0 :: u8)"
    by (metis (no_types, lifting) bit_word_eqI bit_and_iff bit_push_bit_iff bit_take_bit_iff bit_of_nat_iff bit_0_eq bot_apply bot_bool_def linorder_not_less)
  then have z: "of_nat a AND 0xC0 = (0 :: u8)" by (simp add: push_bit_eq_mult)
  have "of_nat (0x80 + a) = of_nat a OR (0x80 :: u8)" using or_lead [of a 6 2, where 'a = 8] assms by simp
  then show ?thesis by (simp add: bit.conj_disj_distrib2 z)
qed

lemma mod_past: "k mod m = 0 \<Longrightarrow> a < m \<Longrightarrow> (k + a) mod m = (a :: nat)"
  by (metis add_0 mod_add_left_eq mod_less)

lemma cont_byte:
  assumes "a < 0x40" "x < 0x4000000"
  shows "extension (Suc e) (Suc n) (of_nat x) (of_nat (0x80 + a) # src) = extension e n (of_nat (x * 0x40 + a)) src"
proof -
  have m: "(0x80 + a) mod 0x40 = a" using assms(1) by (simp add: mod_past)
  have "push_bit 6 (of_nat x) OR of_nat a = (of_nat (x * 0x40 + a) :: u32)"
    using or_lead [of a 6 x, where 'a = 32] assms(1) by (simp add: push_bit_eq_mult or.commute mult.commute)
  moreover have "ucast (of_nat a :: u8) = (of_nat a :: u32)" using assms(1) by (simp add: ucast_of_nat_up)
  ultimately show ?thesis using cont_tag [OF assms(1)] by (simp only: extension.simps and_low m if_True simp_thms)
qed

lemma units_of_nat:
  assumes "n < 0x110000" shows "units_of (of_nat n) = utf16_of n"
proof (cases "n < 0x10000")
  case True then show ?thesis by (simp add: units_of_def utf16_of_def u32_cmp ucast_of_nat_down)
next
  case False
  then have "n = n - 0x10000 + 64 * 0x400" by simp
  then have "n div 0x400 = 64 + (n - 0x10000) div 0x400" "n mod 0x400 = (n - 0x10000) mod 0x400"
    by (metis div_mult_self1 zero_neq_numeral, metis mod_mult_self1)
  then have e: "n div 0x400 + 0xD7C0 = 0xD800 + (n - 0x10000) div 0x400" "n mod 0x400 = (n - 0x10000) mod 0x400" by simp_all
  have "drop_bit 10 (of_nat n :: u32) + 0xD7C0 = of_nat (n div 0x400 + 0xD7C0)" using assms by (simp add: of_nat_drop)
  moreover have "(of_nat n AND 0x3FF) OR 0xDC00 = (of_nat (0xDC00 + n mod 0x400) :: u32)" by (simp add: and_low or_tags del: of_nat_add)
  ultimately show ?thesis using False assms unfolding e
    by (simp add: units_of_def utf16_of_def u32_cmp ucast_of_nat_down del: of_nat_add)
qed

lemma utf8_step:
  assumes "lead_byte c (e + m) = (of_nat x, e, e + m, True)" "extension e (e + m) (of_nat x) (bs @ src) = Some (of_nat n, m, src)"
    "n < 0x110000"
  shows "utf8_to_utf16 (c # bs @ src) (Suc e + m) = map_option ((@) (utf16_of n)) (utf8_to_utf16 src m)"
  using assms by (simp add: units_of_nat)

lemma lead_bytes:
  "0 < a \<Longrightarrow> a < 0x80 \<Longrightarrow> lead_byte (of_nat a) n = (of_nat a, 0, n, True)"
  "a < 0x20 \<Longrightarrow> lead_byte (of_nat (0xC0 + a)) n = (of_nat a, 1, n, True)"
  "a < 0x10 \<Longrightarrow> lead_byte (of_nat (0xE0 + a)) n = (of_nat a, 2, n, True)"
  "a < 0x08 \<Longrightarrow> lead_byte (of_nat (0xF0 + a)) n = (of_nat a, 3, n, True)"
proof -
  show "0 < a \<Longrightarrow> a < 0x80 \<Longrightarrow> lead_byte (of_nat a) n = (of_nat a, 0, n, True)"
    by (simp add: lead_byte_def u8_cmp ucast_of_nat_up)
  have "a < 0x20 \<Longrightarrow> (0xC0 + a) mod 0x20 = a" "a < 0x10 \<Longrightarrow> (0xE0 + a) mod 0x10 = a" "a < 0x08 \<Longrightarrow> (0xF0 + a) mod 0x08 = a"
    by (simp_all add: mod_past)
  then show "a < 0x20 \<Longrightarrow> lead_byte (of_nat (0xC0 + a)) n = (of_nat a, 1, n, True)"
    "a < 0x10 \<Longrightarrow> lead_byte (of_nat (0xE0 + a)) n = (of_nat a, 2, n, True)"
    "a < 0x08 \<Longrightarrow> lead_byte (of_nat (0xF0 + a)) n = (of_nat a, 3, n, True)"
    by (simp_all add: lead_byte_def u8_cmp ucast_of_nat_up and_low del: of_nat_add)
qed

lemma utf8_char:
  assumes "n < 0x110000" "0 < n"
  shows "utf8_to_utf16 (utf8_of n @ src) (length (utf8_of n) + m) = map_option ((@) (utf16_of n)) (utf8_to_utf16 src m)"
proof -
  define a b c d where "a = n mod 0x40" and "b = n div 0x40 mod 0x40" and "c = n div 0x1000 mod 0x40" and "d = n div 0x40000"
  have s: "a < 0x40" "b < 0x40" "c < 0x40" by (simp_all add: a_def b_def c_def)
  have e: "n div 0x1000 = n div 0x40 div 0x40" "d = n div 0x40 div 0x40 div 0x40" by (simp_all add: d_def flip: div_mult2_eq)
  have n2: "n = n div 0x40 * 0x40 + a" unfolding a_def by (rule div_mult_mod_eq [symmetric])
  have h: "n div 0x40 = n div 0x1000 * 0x40 + b" unfolding b_def e by (rule div_mult_mod_eq [symmetric])
  have k: "n div 0x1000 = d * 0x40 + c" unfolding c_def e by (rule div_mult_mod_eq [symmetric])
  have u: "Suc (Suc (Suc m)) = 3 + m" "Suc (Suc (Suc (Suc m))) = 4 + m" by simp_all
  note n3 = n2 [unfolded h] note n4 = n3 [unfolded k]
  consider "n < 0x80" | "0x80 \<le> n" "n < 0x800" | "0x800 \<le> n" "n < 0x10000" | "0x10000 \<le> n" by linarith
  then show ?thesis
  proof cases
    case 1
    then show ?thesis using utf8_step [of "of_nat n" 0 m n "[]" src n] lead_bytes(1) [of n m] assms by (simp add: utf8_of_def)
  next
    case 2
    then have q: "n div 0x40 < 0x20" by auto
    have "extension 1 (1 + m) (of_nat (n div 0x40)) ([of_nat (0x80 + a)] @ src) = Some (of_nat n, m, src)"
      using cont_byte [of a "n div 0x40" 0 m src] s q n2 by (simp del: of_nat_add extension.simps(4)) 
    from utf8_step [OF lead_bytes(2) [OF q] this assms(1)] show ?thesis using 2 by (simp add: utf8_of_def a_def del: of_nat_add utf8_to_utf16.simps)
  next
    case 3
    then have q: "n div 0x1000 < 0x10" by auto
    have "extension 2 (2 + m) (of_nat (n div 0x1000)) ([of_nat (0x80 + b), of_nat (0x80 + a)] @ src) = Some (of_nat n, m, src)"
      using cont_byte [of a "n div 0x1000 * 0x40 + b" 0 m src] cont_byte [of b "n div 0x1000" 1 "Suc m" "of_nat (0x80 + a) # src"] s q n3
      by (simp add: numeral_2_eq_2 del: of_nat_add extension.simps(4))
    from utf8_step [OF lead_bytes(3) [OF q] this assms(1)] show ?thesis using 3
      by (simp add: utf8_of_def a_def b_def u(1) del: of_nat_add utf8_to_utf16.simps)
  next
    case 4
    then have q: "d < 0x08" using assms by (auto simp: d_def)
    have "extension 3 (3 + m) (of_nat d) ([of_nat (0x80 + c), of_nat (0x80 + b), of_nat (0x80 + a)] @ src) = Some (of_nat n, m, src)"
      using cont_byte [of a "(d * 0x40 + c) * 0x40 + b" 0 m src] cont_byte [of b "d * 0x40 + c" 1 "Suc m" "of_nat (0x80 + a) # src"]
        cont_byte [of c d 2 "Suc (Suc m)" "of_nat (0x80 + b) # of_nat (0x80 + a) # src"] s q n4
      by (simp add: numeral_3_eq_3 numeral_2_eq_2 del: of_nat_add extension.simps(4))
    from utf8_step [OF lead_bytes(4) [OF q] this assms(1)] show ?thesis using 4
      by (simp add: utf8_of_def a_def b_def c_def d_def u(2) del: of_nat_add utf8_to_utf16.simps)
  qed
qed

section \<open>Whole texts\<close>

definition utf16_text :: "nat list \<Rightarrow> u16 list" where
  "utf16_text cps = concat (map utf16_of cps)"

definition utf8_text :: "nat list \<Rightarrow> u8 list" where
  "utf8_text cps = concat (map utf8_of cps)"

lemma utf16_text_run:
  "\<forall>n\<in>set cps. scalar n \<Longrightarrow> utf16_loop (length (utf16_text cps)) 0 (utf16_text cps @ src) = Some (utf8_text cps)"
proof (induction cps)
  case (Cons n cps)
  have "length (utf16_of n) = (if n < 0x10000 then 1 else 2)" by (simp add: utf16_of_def)
  then show ?case using Cons utf16_single [of n "length (utf16_text cps)" "utf16_text cps @ src"]
      utf16_pair [of n "length (utf16_text cps)" "utf16_text cps @ src"]
    by (cases "n < 0x10000") (auto simp: utf16_text_def utf8_text_def scalar_def)
qed (simp add: utf16_text_def utf8_text_def)

lemma utf8_text_run:
  "\<forall>n\<in>set cps. scalar n \<and> 0 < n \<Longrightarrow>
   utf8_to_utf16 (utf8_text cps @ 0 # src) (length (utf8_text cps) + Suc k) = Some (utf16_text cps @ [0])"
proof (induction cps)
  case Nil show ?case by (simp add: utf8_text_def utf16_text_def lead_byte_def units_of_def)
next
  case (Cons n cps)
  then show ?case using utf8_char [of n "utf8_text cps @ 0 # src" "length (utf8_text cps) + Suc k"]
    by (auto simp: utf16_text_def utf8_text_def scalar_def add.assoc)
qed

lemma utf16_loop_length:
  "utf16_loop n code_high src = Some out \<Longrightarrow> length out \<le> 3 * n + (if code_high \<noteq> 0 then 1 else 0)"
proof (induction n code_high src arbitrary: out rule: utf16_loop.induct)
  case (3 n hi c src)
  have "ucast c < (0x10000 :: u32)" using unsigned_less [of c, where 'a = nat]
    by (simp add: word_less_nat_alt unsigned_ucast_eq take_bit_nat_eq_self)
  then show ?case using "3.prems" "3.IH"
    by (fastforce simp: Let_def four_bytes_def split: if_splits)
qed simp_all

lemma lead_illegal: "(0x80 \<le> c \<and> c \<le> 0xBF) \<or> 0xF8 \<le> c \<Longrightarrow> lead_byte c n = (63, 0, n, False)"
  by (auto simp: lead_byte_def word_le_nat_alt)

lemma utf8_illegal:
  assumes "(0x80 \<le> c \<and> c \<le> 0xBF) \<or> 0xF8 \<le> c"
  shows "utf8_to_utf16 (c # src) n = Some (replicate n 63)"
  by (induction n) (simp_all add: lead_illegal [OF assms] units_of_def)

section \<open>Properties\<close>

text \<open> C34. Texts of code points are converted from one encoding to the other and back: from UTF-16 to the UTF-8
  of the same code points, and from UTF-8, up to and including the terminator, to their UTF-16.
\<close>

theorem charset_roundtrip:
  assumes "\<forall>n\<in>set cps. scalar n \<and> 0 < n"
  shows "utf16_to_utf8 (utf16_text cps @ src) (length (utf16_text cps)) = Some (utf8_text cps)
       \<and> utf8_to_utf16 (utf8_text cps @ 0 # src') (length (utf8_text cps) + Suc k) = Some (utf16_text cps @ [0])"
  using utf16_text_run [of cps src] utf8_text_run [OF assms, of src' k] assms by (simp add: utf16_to_utf8_def)

theorem charset_roundtrip_witness:
  "utf16_to_utf8 [0x41, 0xE9, 0x20AC, 0xD83D, 0xDE00, 0] 5 = Some [0x41, 0xC3, 0xA9, 0xE2, 0x82, 0xAC, 0xF0, 0x9F, 0x98, 0x80]
   \<and> utf8_to_utf16 [0x41, 0xC3, 0xA9, 0xE2, 0x82, 0xAC, 0xF0, 0x9F, 0x98, 0x80, 0] 20 = Some [0x41, 0xE9, 0x20AC, 0xD83D, 0xDE00, 0]"
proof -
  have t: "utf16_text [0x41, 0xE9, 0x20AC, 0x1F600] = [0x41, 0xE9, 0x20AC, 0xD83D, 0xDE00]"
    "utf8_text [0x41, 0xE9, 0x20AC, 0x1F600] = [0x41, 0xC3, 0xA9, 0xE2, 0x82, 0xAC, 0xF0, 0x9F, 0x98, 0x80]"
    by (simp_all add: utf16_text_def utf16_of_def utf8_text_def utf8_of_def)
  have l: "length [0x41, 0xE9, 0x20AC, 0xD83D, 0xDE00 :: u16] = 5" "length [0x41, 0xC3, 0xA9, 0xE2, 0x82, 0xAC, 0xF0, 0x9F, 0x98, 0x80 :: u8] + Suc 9 = 20"
    by simp_all
  have "\<forall>n\<in>set [0x41, 0xE9, 0x20AC, 0x1F600]. scalar n \<and> 0 < n" by (simp add: scalar_def)
  from charset_roundtrip [OF this, of "[0]" "[]" 9] show ?thesis unfolding t l by (simp del: utf8_to_utf16.simps)
qed

text \<open> The buffer that the formatter of strings reserves for a text, \<^verbatim>\<open>MAX_UTF8_PER_UTF16\<close> bytes for a
  16-bit unit, is large enough for any text, well formed or not.
\<close>

theorem utf16_to_utf8_fits:
  assumes "utf16_to_utf8 src n = Some out"
  shows "length out \<le> n * MAX_UTF8_PER_UTF16"
  using utf16_loop_length [of n 0 src out] assms by (simp add: utf16_to_utf8_def MAX_UTF8_PER_UTF16_def)

theorem utf16_to_utf8_fits_witness: "length [0xE2, 0x82, 0xAC :: u8] \<le> 1 * MAX_UTF8_PER_UTF16"
proof -
  have "utf16_to_utf8 [0x20AC] 1 = Some [0xE2, 0x82, 0xAC]" by (simp add: utf16_to_utf8_def Let_def)
  from utf16_to_utf8_fits [OF this] show ?thesis .
qed

text \<open> A byte that cannot start a character is not consumed: the rest of the text is lost,
  and question marks fill everything up to the given size, with no terminator.
\<close>

theorem utf8_to_utf16_stuck:
  assumes "(0x80 \<le> c \<and> c \<le> 0xBF) \<or> 0xF8 \<le> c" "\<forall>n\<in>set cps. scalar n \<and> 0 < n"
  shows "utf8_to_utf16 (utf8_text cps @ c # src) (length (utf8_text cps) + n) = Some (utf16_text cps @ replicate n 63)"
  using assms(2)
proof (induction cps)
  case Nil show ?case using utf8_illegal [OF assms(1)] by (simp add: utf8_text_def utf16_text_def)
next
  case (Cons m cps)
  then show ?case using utf8_char [of m "utf8_text cps @ c # src" "length (utf8_text cps) + n"]
    by (auto simp: utf16_text_def utf8_text_def scalar_def add.assoc)
qed

theorem utf8_to_utf16_stuck_witness:
  "utf8_to_utf16 [0x41, 0x80, 0x42, 0x43, 0] 5 = Some [0x41, 63, 63, 63, 63]"
proof -
  have t: "utf8_text [0x41] = [0x41]" "utf16_text [0x41] = [0x41]"
    by (simp_all add: utf16_text_def utf16_of_def utf8_text_def utf8_of_def)
  have r: "replicate 4 (63 :: u16) = [63, 63, 63, 63]" "length [0x41 :: u8] + 4 = 5" by (simp_all add: numeral_eq_Suc)
  have "\<forall>n\<in>set [0x41]. scalar n \<and> 0 < n" by (simp add: scalar_def)
  from utf8_to_utf16_stuck [of "0x80", OF _ this, of "[0x42, 0x43, 0]" 4] show ?thesis
    unfolding t r by (simp del: utf8_to_utf16.simps add: word_le_nat_alt)
qed

text \<open>A high surrogate with no low surrogate after it costs the last unit of the text: the unit
  is looked at twice but \<^verbatim>\<open>size\<close> has been counted down for both looks.\<close>

lemma utf16_to_utf8_loses_last: "utf16_to_utf8 [0xD800, 0x41, 0x42, 0] 3 = Some [63, 0x41]"
  by (simp add: utf16_to_utf8_def Let_def numeral_3_eq_3)

end
