(* ===== verification/Vsprintf.thy ===== *)
theory Vsprintf
  imports C_Strto Charset
begin

text \<open>
  Formatted output, \<^verbatim>\<open>lib/vsprintf.c\<close>, with \<^verbatim>\<open>uuid_bin_to_str\<close> of \<^verbatim>\<open>lib/uuid.c\<close> and \<^verbatim>\<open>hex_byte_pack\<close> of
  \<^verbatim>\<open>include/hexdump.h\<close>.

  The routines pass characters to \<^verbatim>\<open>ADDCH\<close>, which stores a character only below the end of the
  buffer and always advances.  Nothing reads the buffer back, so a routine is modelled by the list of the characters
  it passes, and \<open>vsnprintf_internal\<close> hands the list to \<open>addch\<close>.  A format and a string are the bytes before
  the NUL.  \<^const>\<open>None\<close> is undefined behaviour: a store outside the buffer's memory, an argument that is
  missing or has another type than the conversion takes, an overflow of an \<^verbatim>\<open>int\<close>.
\<close>

unbundle bit_operations_syntax

section \<open>Numbers\<close>

text \<open>Decimal digits, least significant first.\<close>

definition put_dec_trunc :: "u32 \<Rightarrow> u8 list" where
  "put_dec_trunc q0 =
     (let d1 = drop_bit 4 q0 AND 0xF; d2 = drop_bit 8 q0 AND 0xF; d3 = drop_bit 12 q0;
          d0 = 6 * (d3 + d2 + d1) + (q0 AND 0xF);
          q = drop_bit 11 (d0 * 0xCD); d0 = d0 - 10 * q;
          d1 = q + 9 * d3 + 5 * d2 + d1
      in ucast (d0 + 48) #
        (if d1 \<noteq> 0 then
           (let q = drop_bit 11 (d1 * 0xCD); d1 = d1 - 10 * q; d2 = q + 2 * d2
            in ucast (d1 + 48) #
              (if d2 \<noteq> 0 \<or> d3 \<noteq> 0 then
                 (let q = drop_bit 7 (d2 * 0xD); d2 = d2 - 10 * q; d3 = q + 4 * d3
                  in ucast (d2 + 48) #
                    (if d3 \<noteq> 0 then
                       (let q = drop_bit 11 (d3 * 0xCD); d3 = d3 - 10 * q
                        in ucast (d3 + 48) # (if q \<noteq> 0 then [ucast (q + 48)] else []))
                     else []))
               else []))
         else []))"

definition put_dec_full :: "u32 \<Rightarrow> u8 list" where
  "put_dec_full q0 =
     (let d1 = drop_bit 4 q0 AND 0xF; d2 = drop_bit 8 q0 AND 0xF; d3 = drop_bit 12 q0;
          d0 = 6 * (d3 + d2 + d1) + (q0 AND 0xF);
          qa = drop_bit 11 (d0 * 0xCD); c0 = d0 - 10 * qa;
          d1 = qa + 9 * d3 + 5 * d2 + d1; qb = drop_bit 11 (d1 * 0xCD); c1 = d1 - 10 * qb;
          d2 = qb + 2 * d2; qc = drop_bit 7 (d2 * 0xD); c2 = d2 - 10 * qc;
          d3 = qc + 4 * d3; qd = drop_bit 11 (d3 * 0xCD); c3 = d3 - 10 * qd
      in map (\<lambda>d. ucast (d + 48)) [c0, c1, c2, c3, qd])"

function put_dec :: "u64 \<Rightarrow> u8 list" where
  "put_dec num = (if num < 100000 then put_dec_trunc (ucast num)
                  else put_dec_full (ucast (num mod 100000)) @ put_dec (num div 100000))"
  by pat_completeness auto
termination
proof (relation "measure unat", goal_cases)
  case (2 num)
  then have "100000 \<le> unat num" by (simp add: word_less_nat_alt)
  then show ?case by (simp add: unat_div)
qed simp

declare put_dec.simps [simp del]

definition ZEROPAD :: int where "ZEROPAD = 1"
definition SIGN :: int where "SIGN = 2"
definition PLUS :: int where "PLUS = 4"
definition SPACE :: int where "SPACE = 8"
definition LEFT :: int where "LEFT = 16"
definition SMALL :: int where "SMALL = 32"
definition SPECIAL :: int where "SPECIAL = 64"

definition digits :: "u8 list" where
  "digits = [48, 49, 50, 51, 52, 53, 54, 55, 56, 57, 65, 66, 67, 68, 69, 70]"

text \<open>The digits of base 8 or 16, least significant first.\<close>

function shift_digits :: "bool \<Rightarrow> u8 \<Rightarrow> u64 \<Rightarrow> u8 list" where
  "shift_digits hex locase num =
     (let mask = (if hex then 15 else 7); shift = (if hex then 4 else 3); num' = drop_bit shift num
      in (digits ! unat ((ucast num :: u8) AND mask) OR locase) # (if num' \<noteq> 0 then shift_digits hex locase num' else []))"
  by pat_completeness auto
termination
proof (relation "measure (\<lambda>(_, _, num). unat num)", goal_cases)
  case (2 hex locase num mask shift num')
  then have "unat num \<noteq> 0" by (auto simp: unat_eq_0)
  moreover have "unat num' = unat num div 2 ^ shift" unfolding 2 by (simp only: unat_drop_bit_eq) (simp add: drop_bit_eq_div)
  ultimately show ?case using 2 by (auto split: if_splits)
qed simp

declare shift_digits.simps [simp del]

definition number_tmp :: "u64 \<Rightarrow> nat \<Rightarrow> u8 \<Rightarrow> u8 list" where
  "number_tmp num base locase =
     (if num = 0 then [48] else if base \<noteq> 10 then shift_digits (base = 16) locase num else put_dec num)"

text \<open>The loop \<^verbatim>\<open>while (--size >= 0) ADDCH(buf, c)\<close>: its characters and the value it leaves in \<^verbatim>\<open>size\<close>.\<close>

definition pad_down :: "u8 \<Rightarrow> int \<Rightarrow> u8 list \<times> int" where
  "pad_down c n = (replicate (nat n) c, min n 0 - 1)"

definition number_sign :: "u64 \<Rightarrow> int \<Rightarrow> int \<Rightarrow> u8 list \<times> u64 \<times> int" where
  "number_sign num n type =
     (if type AND SIGN \<noteq> 0 then
        (if sint num < 0 then ([45], - num, n - 1)
         else if type AND PLUS \<noteq> 0 then ([43], num, n - 1)
         else if type AND SPACE \<noteq> 0 then ([32], num, n - 1)
         else ([], num, n))
      else ([], num, n))"

definition number :: "u64 \<Rightarrow> nat \<Rightarrow> int \<Rightarrow> int \<Rightarrow> int \<Rightarrow> u8 list" where
  "number num0 base width precision0 type0 =
     (let need_pfx = (type0 AND SPECIAL \<noteq> 0 \<and> base \<noteq> 10);
          locase = (if type0 AND SMALL \<noteq> 0 then 0x20 else 0);
          type = (if type0 AND LEFT \<noteq> 0 then type0 AND NOT ZEROPAD else type0);
          (sign, num, n0) = number_sign num0 width type;
          n1 = (if need_pfx then (if base = 16 then n0 - 1 - 1 else n0 - 1) else n0);
          tmp = number_tmp num base locase;
          i = int (length tmp);
          precision = (if i > precision0 then i else precision0);
          (lead, n2) = (if type AND (ZEROPAD + LEFT) = 0 then pad_down 32 (n1 - precision) else ([], n1 - precision));
          prefix = (if need_pfx then 48 # (if base = 16 then [88 OR locase] else []) else []);
          (fill, n3) = (if type AND LEFT = 0 then pad_down (if type AND ZEROPAD \<noteq> 0 then 48 else 32) n2 else ([], n2));
          (trail, _) = pad_down 32 n3
      in lead @ sign @ prefix @ fill @ replicate (nat (precision - i)) 48 @ rev tmp @ trail)"

section \<open>Strings and addresses\<close>

text \<open>The loop \<^verbatim>\<open>while (len < field_width--) ADDCH(buf, ' ')\<close>.\<close>

definition pad_width :: "nat \<Rightarrow> int \<Rightarrow> u8 list \<times> int" where
  "pad_width len width = (replicate (nat (width - int len)) 32, min width (int len) - 1)"

text \<open>\<^verbatim>\<open>(size_t)precision\<close>\<close>

definition to_size :: "int \<Rightarrow> nat" where
  "to_size i = nat (i mod 2 ^ 64)"

definition padded :: "u8 list \<Rightarrow> int \<Rightarrow> int \<Rightarrow> u8 list" where
  "padded s width flags =
     (let (lead, width') = (if flags AND LEFT = 0 then pad_width (length s) width else ([], width))
      in lead @ s @ fst (pad_width (length s) width'))"

definition NULL_text :: "u8 list" where
  "NULL_text = [60, 78, 85, 76, 76, 62]"

definition string :: "u8 list option \<Rightarrow> int \<Rightarrow> int \<Rightarrow> int \<Rightarrow> u8 list" where
  "string s width precision flags =
     padded (take (to_size precision) (case s of None \<Rightarrow> NULL_text | Some t \<Rightarrow> t)) width flags"

text \<open>A wide string is its array, terminator included.\<close>

definition string16 :: "u16 list option \<Rightarrow> int \<Rightarrow> int \<Rightarrow> int \<Rightarrow> u8 list option" where
  "string16 s width precision flags =
     (let str = (case s of None \<Rightarrow> map ucast NULL_text @ [0] | Some t \<Rightarrow> t)
      in do { utf16_len \<leftarrow> utf16_strnlen str (to_size precision);
              utf8 \<leftarrow> utf16_to_utf8 str utf16_len;
              if length utf8 > utf16_len * MAX_UTF8_PER_UTF16 then None
              else Some (padded utf8 width flags) })"

definition hex_asc :: "u8 list" where
  "hex_asc = [48, 49, 50, 51, 52, 53, 54, 55, 56, 57, 97, 98, 99, 100, 101, 102]"

definition hex_byte_pack :: "u8 \<Rightarrow> u8 list" where
  "hex_byte_pack b = [hex_asc ! unat (drop_bit 4 (b AND 0xF0)), hex_asc ! unat (b AND 0x0F)]"

text \<open>Bytes or groups of bytes with a separator between them.\<close>

fun separated :: "u8 list \<Rightarrow> u8 list list \<Rightarrow> u8 list" where
  "separated sep [] = []"
| "separated sep [g] = g"
| "separated sep (g # gs) = g @ sep @ separated sep gs"

definition mac_address_string :: "u8 list \<Rightarrow> int \<Rightarrow> int \<Rightarrow> int \<Rightarrow> u8 list option" where
  "mac_address_string addr width precision flags =
     (if length addr < 6 then None
      else Some (string (Some (separated (if flags AND SPECIAL = 0 then [58] else []) (map hex_byte_pack (take 6 addr))))
                   width precision (flags AND NOT SPECIAL)))"

definition ip6_addr_string :: "u8 list \<Rightarrow> int \<Rightarrow> int \<Rightarrow> int \<Rightarrow> u8 list option" where
  "ip6_addr_string addr width precision flags =
     (if length addr < 16 then None
      else Some (string (Some (separated (if flags AND SPECIAL = 0 then [58] else [])
                                (map (\<lambda>i. hex_byte_pack (addr ! (2 * i)) @ hex_byte_pack (addr ! (2 * i + 1))) [0..<8])))
                   width precision (flags AND NOT SPECIAL)))"

text \<open>\<^verbatim>\<open>temp\<close> has room for three digits, \<^verbatim>\<open>ip4_addr\<close> for sixteen bytes.\<close>

definition ip4_addr_string :: "u8 list \<Rightarrow> int \<Rightarrow> int \<Rightarrow> int \<Rightarrow> u8 list option" where
  "ip4_addr_string addr width precision flags =
     (if length addr < 4 then None
      else let quads = map (\<lambda>b. put_dec_trunc (ucast b)) (take 4 addr); ip4_addr = separated [46] (map rev quads)
           in if (\<exists>q\<in>set quads. length q > 3) \<or> length ip4_addr \<ge> 16 then None
              else Some (string (Some ip4_addr) width precision (flags AND NOT SPECIAL)))"

text \<open>\<^verbatim>\<open>sprintf(uuid_str, "%02x", b)\<close> and a dash after the bytes 3, 5, 7 and 9.\<close>

definition uuid_bin_to_str :: "u8 list \<Rightarrow> bool \<Rightarrow> u8 list option" where
  "uuid_bin_to_str uuid_bin guid =
     (if length uuid_bin < 16 then None
      else let order = (if guid then [3, 2, 1, 0, 5, 4, 7, 6, 8, 9, 10, 11, 12, 13, 14, 15] else [0..<16])
           in Some (concat (map (\<lambda>i. number (ucast (uuid_bin ! (order ! i))) 16 2 (- 1) (ZEROPAD OR SMALL)
                                     @ (if i \<in> {3, 5, 7, 9} then [45] else [])) [0..<16])))"

text \<open>\<open>spec\<close> is the character after the U, NUL at the end of the format.\<close>

definition uuid_string :: "u64 \<Rightarrow> u8 list \<Rightarrow> int \<Rightarrow> int \<Rightarrow> int \<Rightarrow> u8 \<Rightarrow> u8 list option" where
  "uuid_string ptr addr width precision flags spec =
     do { uuid \<leftarrow> (if ptr \<noteq> 0 then uuid_bin_to_str addr (spec = 76 \<or> spec = 108) else Some NULL_text);
          Some (string (Some uuid) width precision flags) }"

definition ENOMEM_code :: int where "ENOMEM_code = 12"

text \<open>\<open>dp_str\<close> is \<^verbatim>\<open>efi_dp_str\<close>: the text of a device path, \<^const>\<open>None\<close> when there is no memory for it.
  \<open>Inl\<close> is the error.\<close>

definition device_path_string :: "(u64 \<Rightarrow> u16 list option) \<Rightarrow> u64 \<Rightarrow> int \<Rightarrow> int \<Rightarrow> int \<Rightarrow> (int + u8 list) option" where
  "device_path_string dp_str dp width precision flags =
     (if dp = 0 then map_option Inr (string16 None width precision flags)
      else case dp_str dp of None \<Rightarrow> Some (Inl (- ENOMEM_code))
           | Some str \<Rightarrow> map_option Inr (string16 (Some str) width precision flags))"

fun le64 :: "u8 list \<Rightarrow> u64" where
  "le64 [] = 0"
| "le64 (b # bs) = ucast b OR push_bit 8 (le64 bs)"

definition pointer_number :: "u64 \<Rightarrow> int \<Rightarrow> int \<Rightarrow> int \<Rightarrow> u8 list" where
  "pointer_number num width precision flags =
     (let flags = flags OR SMALL
      in if width = - 1 then number num 16 16 precision (flags OR ZEROPAD) else number num 16 width precision flags)"

text \<open>\<open>fmt\<close> is the rest of the format after the p, \<open>bytes\<close> what the pointer points to.\<close>

definition pointer :: "(u64 \<Rightarrow> u16 list option) \<Rightarrow> u8 list \<Rightarrow> u64 \<Rightarrow> u8 list \<Rightarrow> int \<Rightarrow> int \<Rightarrow> int \<Rightarrow> (int + u8 list) option" where
  "pointer dp_str fmt ptr bytes width precision flags =
     (let c0 = (case fmt of [] \<Rightarrow> 0 | c # _ \<Rightarrow> c); c1 = (case fmt of _ # c # _ \<Rightarrow> c | _ \<Rightarrow> 0)
      in if c0 = 68 then device_path_string dp_str ptr width precision flags
         else if c0 = 97 then
           (if length bytes < 8 then None
            else Some (Inr (pointer_number (le64 (take 8 bytes)) 18 precision (flags OR (SPECIAL OR ZEROPAD)))))
         else if c0 = 109 then map_option Inr (mac_address_string bytes width precision (flags OR SPECIAL))
         else if c0 = 77 then map_option Inr (mac_address_string bytes width precision flags)
         else if c0 = 105 \<or> c0 = 73 then
           (let flags = (if c0 = 105 then flags OR SPECIAL else flags)
            in if c1 = 54 then map_option Inr (ip6_addr_string bytes width precision flags)
               else if c1 = 52 then map_option Inr (ip4_addr_string bytes width precision flags)
               else Some (Inr (pointer_number ptr width precision (flags AND NOT SPECIAL))))
         else if c0 = 85 then map_option Inr (uuid_string ptr bytes width precision flags c1)
         else Some (Inr (pointer_number ptr width precision flags)))"

section \<open>The format\<close>

text \<open>The arguments: an \<^verbatim>\<open>int\<close>, a 64-bit integer, a string, a wide string, a pointer with the bytes it points
  to, and the address of an integer.\<close>

datatype va = VInt u32 | VLong u64 | VStr "u8 list option" | VWide "u16 list option" | VPtr u64 "u8 list" | VRef

definition INT_MAX :: int where "INT_MAX = 0x7FFFFFFF"

definition is_digit :: "u8 \<Rightarrow> bool" where
  "is_digit c \<longleftrightarrow> 48 \<le> c \<and> c \<le> 57"

fun skip_atoi :: "u8 list \<Rightarrow> int \<Rightarrow> (int \<times> u8 list) option" where
  "skip_atoi [] i = Some (i, [])"
| "skip_atoi (c # cs) i =
     (if is_digit c then (if i * 10 + uint c > INT_MAX then None else skip_atoi cs (i * 10 + uint c - 48))
      else Some (i, c # cs))"

fun get_flags :: "u8 list \<Rightarrow> int \<Rightarrow> int \<times> u8 list" where
  "get_flags [] flags = (flags, [])"
| "get_flags (c # cs) flags =
     (if c = 45 then get_flags cs (flags OR LEFT)
      else if c = 43 then get_flags cs (flags OR PLUS)
      else if c = 32 then get_flags cs (flags OR SPACE)
      else if c = 35 then get_flags cs (flags OR SPECIAL)
      else if c = 48 then get_flags cs (flags OR ZEROPAD)
      else (flags, c # cs))"

fun va_int :: "va list \<Rightarrow> (int \<times> va list) option" where
  "va_int (VInt w # args) = Some (sint w, args)"
| "va_int args = None"

fun va_long :: "va list \<Rightarrow> (u64 \<times> va list) option" where
  "va_long (VLong w # args) = Some (w, args)"
| "va_long args = None"

text \<open>The field width, the flags, and the rest of the format and of the arguments.\<close>

definition get_width :: "u8 list \<Rightarrow> int \<Rightarrow> va list \<Rightarrow> (int \<times> int \<times> u8 list \<times> va list) option" where
  "get_width fmt flags args =
     (case fmt of
        [] \<Rightarrow> Some (- 1, flags, fmt, args)
      | c # cs \<Rightarrow>
          if is_digit c then do { (w, r) \<leftarrow> skip_atoi fmt 0; Some (w, flags, r, args) }
          else if c = 42 then
            do { (w, args') \<leftarrow> va_int args;
                 if w < 0 then (if w = - INT_MAX - 1 then None else Some (- w, flags OR LEFT, cs, args'))
                 else Some (w, flags, cs, args') }
          else Some (- 1, flags, fmt, args))"

definition get_precision :: "u8 list \<Rightarrow> va list \<Rightarrow> (int \<times> u8 list \<times> va list) option" where
  "get_precision fmt args =
     (if fmt \<noteq> [] \<and> hd fmt = 46 then
        do { (p, r, args') \<leftarrow>
               (case tl fmt of
                  [] \<Rightarrow> Some (- 1, [], args)
                | c # cs \<Rightarrow>
                    if is_digit c then do { (p, r) \<leftarrow> skip_atoi (c # cs) 0; Some (p, r, args) }
                    else if c = 42 then do { (p, args') \<leftarrow> va_int args; Some (p, cs, args') }
                    else Some (- 1, c # cs, args));
             Some (if p < 0 then 0 else p, r, args') }
      else Some (- 1, fmt, args))"

definition get_qualifier :: "u8 list \<Rightarrow> u8 option \<times> u8 list" where
  "get_qualifier fmt =
     (case fmt of
        [] \<Rightarrow> (None, fmt)
      | c # cs \<Rightarrow>
          if c \<in> {104, 108, 76, 90, 122, 116}
          then (if c = 108 \<and> cs \<noteq> [] \<and> hd cs = 108 then (Some 76, tl cs) else (Some c, cs))
          else (None, fmt))"

text \<open>The integer argument of a conversion, as the 64-bit value given to \<^verbatim>\<open>number\<close>.\<close>

definition get_num :: "u8 option \<Rightarrow> int \<Rightarrow> va list \<Rightarrow> (u64 \<times> va list) option" where
  "get_num qualifier flags args =
     (if qualifier \<in> {Some 76, Some 108, Some 90, Some 122, Some 116} then va_long args
      else do { (i, args') \<leftarrow> va_int args;
                let w = (word_of_int i :: u32);
                if qualifier = Some 104
                then Some (if flags AND SIGN \<noteq> 0 then scast (ucast w :: u16) else ucast (ucast w :: u16), args')
                else Some (if flags AND SIGN \<noteq> 0 then scast w else ucast w, args') })"

text \<open>The result of a conversion or of a format: the error, the characters, and the values that \<^verbatim>\<open>%n\<close> stores.\<close>

type_synonym formatted = "int option \<times> u8 list \<times> va list"

text \<open>The conversion after flags, width, precision and qualifier; \<open>pos\<close> is \<^verbatim>\<open>str - buf\<close>.  The result is followed by the rest
  of the format and of the arguments.\<close>

definition convert :: "(u64 \<Rightarrow> u16 list option) \<Rightarrow> nat \<Rightarrow> int \<Rightarrow> int \<Rightarrow> int \<Rightarrow> u8 option \<Rightarrow> u8 list \<Rightarrow> va list
    \<Rightarrow> (formatted \<times> u8 list \<times> va list) option" where
  "convert dp_str pos flags width precision qualifier fmt args =
     (case fmt of
        [] \<Rightarrow> Some ((None, [37], []), [], args)
      | c # cs \<Rightarrow>
          if c = 99 then
            do { (i, args') \<leftarrow> va_int args;
                 let pad = replicate (nat (width - 1)) 32;
                 Some ((None, if flags AND LEFT = 0 then pad @ [word_of_int i] else word_of_int i # pad, []), cs, args') }
          else if c = 115 then
            (case args of
               VStr s # args' \<Rightarrow> if qualifier = Some 108 then None
                                else Some ((None, string s width precision flags, []), cs, args')
             | VWide s # args' \<Rightarrow> if qualifier = Some 108
                                 then do { out \<leftarrow> string16 s width precision flags; Some ((None, out, []), cs, args') }
                                 else None
             | _ \<Rightarrow> None)
          else if c = 112 then
            (case args of
               VPtr ptr bytes # args' \<Rightarrow>
                 do { r \<leftarrow> pointer dp_str cs ptr bytes width precision flags;
                      case r of Inl err \<Rightarrow> Some ((Some err, [], []), [], args')
                      | Inr out \<Rightarrow> Some ((None, out, []), dropWhile isalnum cs, args') }
             | _ \<Rightarrow> None)
          else if c = 110 then
            (case args of
               VRef # args' \<Rightarrow> Some ((None, [], [if qualifier = Some 108 then VLong (of_nat pos) else VInt (of_nat pos)]), cs, args')
             | _ \<Rightarrow> None)
          else if c = 37 then Some ((None, [37], []), cs, args)
          else if c \<in> {111, 120, 88, 100, 105, 117} then
            (let flags = (if c = 120 then flags OR SMALL else if c = 100 \<or> c = 105 then flags OR SIGN else flags);
                 base = (if c = 111 then 8 else if c = 120 \<or> c = 88 then 16 else 10)
             in do { (num, args') \<leftarrow> get_num qualifier flags args;
                     Some ((None, number num base width precision flags, []), cs, args') })
          else Some ((None, [37, c], []), cs, args))"

definition conversion :: "(u64 \<Rightarrow> u16 list option) \<Rightarrow> nat \<Rightarrow> u8 list \<Rightarrow> va list \<Rightarrow> (formatted \<times> u8 list \<times> va list) option" where
  "conversion dp_str pos fmt args =
     do { let (flags, fmt) = get_flags fmt 0;
          (width, flags, fmt, args) \<leftarrow> get_width fmt flags args;
          (precision, fmt, args) \<leftarrow> get_precision fmt args;
          let (qualifier, fmt) = get_qualifier fmt;
          convert dp_str pos flags width precision qualifier fmt args }"

lemma skip_atoi_length: "skip_atoi cs i = Some (v, r) \<Longrightarrow> length r \<le> length cs"
  by (induction cs i rule: skip_atoi.induct) (auto split: if_splits)

lemma get_flags_length: "get_flags cs flags = (f, r) \<Longrightarrow> length r \<le> length cs"
  by (induction cs flags rule: get_flags.induct) (auto split: if_splits)

lemma get_width_length: "get_width fmt flags args = Some (w, f, r, args') \<Longrightarrow> length r \<le> length fmt"
  by (auto simp: get_width_def bind_eq_Some_conv dest: skip_atoi_length split: list.splits if_splits)

lemma get_precision_length: "get_precision fmt args = Some (p, r, args') \<Longrightarrow> length r \<le> length fmt"
  by (cases fmt) (auto simp: get_precision_def bind_eq_Some_conv dest: skip_atoi_length split: list.splits if_splits)

lemma get_qualifier_length: "get_qualifier fmt = (q, r) \<Longrightarrow> length r \<le> length fmt"
  by (auto simp: get_qualifier_def split: list.splits if_splits)

lemma convert_length: "convert dps pos f w p q fmt args = Some (res, r, args') \<Longrightarrow> length r \<le> length fmt"
  using length_dropWhile_le [of isalnum "tl fmt"]
  apply (auto simp: convert_def Let_def bind_eq_Some_conv split: list.splits if_splits va.splits sum.splits)
  subgoal for cs args0 ptr bytes y by (cases y) auto
  done

lemma conversion_length:
  assumes "conversion dps pos fmt args = Some (res, r, args')" shows "length r \<le> length fmt"
proof -
  obtain f a where f: "get_flags fmt 0 = (f, a)" by fastforce
  with assms obtain w f' b args1 where w: "get_width a f args = Some (w, f', b, args1)"
    by (auto simp: conversion_def bind_eq_Some_conv)
  with assms f obtain p c args2 where p: "get_precision b args1 = Some (p, c, args2)"
    by (auto simp: conversion_def bind_eq_Some_conv)
  obtain q d where q: "get_qualifier c = (q, d)" by fastforce
  have "convert dps pos f' w p q d args2 = Some (res, r, args')" using assms f w p q by (simp add: conversion_def)
  then show ?thesis using f w p q
    by (meson convert_length get_flags_length get_precision_length get_qualifier_length get_width_length le_trans)
qed

definition prepend :: "formatted \<Rightarrow> formatted \<Rightarrow> formatted" where
  "prepend a b = (case (a, b) of ((_, out, st), (err, out', st')) \<Rightarrow> (err, out @ out', st @ st'))"

function vformat :: "(u64 \<Rightarrow> u16 list option) \<Rightarrow> nat \<Rightarrow> u8 list \<Rightarrow> va list \<Rightarrow> formatted option" where
  "vformat dp_str pos [] args = Some (None, [], [])"
| "vformat dp_str pos (c # fmt) args =
     (if c \<noteq> 37 then map_option (prepend (None, [c], [])) (vformat dp_str (pos + 1) fmt args)
      else case conversion dp_str pos fmt args of
             None \<Rightarrow> None
           | Some ((Some err, out, st), _, _) \<Rightarrow> Some (Some err, out, st)
           | Some ((None, out, st), fmt', args') \<Rightarrow>
               map_option (prepend (None, out, st)) (vformat dp_str (pos + length out) fmt' args'))"
  by pat_completeness auto
termination
  by (relation "measure (\<lambda>(_, _, fmt, _). length fmt)") (auto dest: conversion_length)

section \<open>Printing into a buffer\<close>

text \<open>\<open>n\<close> is the size given by the caller; the memory may end before it.\<close>

definition addch :: "nat \<Rightarrow> u8 \<Rightarrow> nat \<times> mem \<Rightarrow> (nat \<times> mem) option" where
  "addch n c s = (case s of (pos, m) \<Rightarrow> if pos < n then do { m' \<leftarrow> wr m pos c; Some (pos + 1, m') } else Some (pos + 1, m))"

fun addchs :: "nat \<Rightarrow> u8 list \<Rightarrow> nat \<times> mem \<Rightarrow> (nat \<times> mem) option" where
  "addchs n [] s = Some s"
| "addchs n (c # cs) s = do { s' \<leftarrow> addch n c s; addchs n cs s' }"

text \<open>A difference of pointers returned as an \<^verbatim>\<open>int\<close>.\<close>

definition as_int :: "nat \<Rightarrow> int" where
  "as_int n = sint (of_nat n :: u32)"

text \<open>\<open>m\<close> is the memory from \<^verbatim>\<open>buf\<close> on, \<open>addr\<close> the address of \<^verbatim>\<open>buf\<close>.  The result is the return value, the memory and
  the stored values.\<close>

definition vsnprintf_internal :: "(u64 \<Rightarrow> u16 list option) \<Rightarrow> mem \<Rightarrow> nat \<Rightarrow> nat \<Rightarrow> u8 list \<Rightarrow> va list \<Rightarrow> (int \<times> mem \<times> va list) option" where
  "vsnprintf_internal dp_str m addr size0 fmt args =
     do { let n = (if addr + size0 \<ge> 2 ^ 64 then 2 ^ 64 - 1 - addr else size0);
          (err, out, st) \<leftarrow> vformat dp_str 0 fmt args;
          (str, m1) \<leftarrow> addchs n out (0, m);
          case err of
            Some e \<Rightarrow> Some (e, m1, st)
          | None \<Rightarrow>
              if n > 0 then
                do { (str', m2) \<leftarrow> addch n 0 (str, m1);
                     m3 \<leftarrow> (if str' > n then wr m2 (n - 1) 0 else Some m2);
                     Some (as_int (str' - 1), m3, st) }
              else Some (as_int str, m1, st) }"

definition vsnprintf :: "(u64 \<Rightarrow> u16 list option) \<Rightarrow> mem \<Rightarrow> nat \<Rightarrow> nat \<Rightarrow> u8 list \<Rightarrow> va list \<Rightarrow> (int \<times> mem \<times> va list) option" where
  "vsnprintf dp_str m addr n fmt args = vsnprintf_internal dp_str m addr n fmt args"

text \<open>The comparison \<^verbatim>\<open>i < size\<close> is one of \<^verbatim>\<open>size_t\<close> values.\<close>

definition vscnprintf :: "(u64 \<Rightarrow> u16 list option) \<Rightarrow> mem \<Rightarrow> nat \<Rightarrow> nat \<Rightarrow> u8 list \<Rightarrow> va list \<Rightarrow> (int \<times> mem \<times> va list) option" where
  "vscnprintf dp_str m addr n fmt args =
     do { (i, m', st) \<leftarrow> vsnprintf dp_str m addr n fmt args;
          Some (if to_size i < n then i else if n \<noteq> 0 then as_int (n - 1) else 0, m', st) }"

definition vsprintf :: "(u64 \<Rightarrow> u16 list option) \<Rightarrow> mem \<Rightarrow> nat \<Rightarrow> u8 list \<Rightarrow> va list \<Rightarrow> (int \<times> mem \<times> va list) option" where
  "vsprintf dp_str m addr fmt args = vsnprintf_internal dp_str m addr (nat INT_MAX) fmt args"

text \<open>The text that \<^verbatim>\<open>puts\<close> prints from the start of a buffer.\<close>

definition text_at :: "mem \<Rightarrow> u8 list option" where
  "text_at m = (if 0 \<in> set m then Some (takeWhile (\<lambda>c. c \<noteq> 0) m) else None)"

definition CONFIG_SYS_PBSIZE :: nat where "CONFIG_SYS_PBSIZE = 512 + 4 + 16"

text \<open>\<open>m\<close> is the uninitialised \<^verbatim>\<open>printbuffer\<close>, of \<^verbatim>\<open>CONFIG_SYS_PBSIZE\<close> bytes, with the memory behind it.  The result is the
  return value and what is printed.\<close>

definition printf :: "(u64 \<Rightarrow> u16 list option) \<Rightarrow> mem \<Rightarrow> nat \<Rightarrow> u8 list \<Rightarrow> va list \<Rightarrow> (int \<times> u8 list) option" where
  "printf dp_str m addr fmt args =
     do { (i, m', _) \<leftarrow> vscnprintf dp_str m addr CONFIG_SYS_PBSIZE fmt args;
          if i = 0 then Some (i, []) else do { out \<leftarrow> text_at m'; Some (i, out) } }"

text \<open>\<^verbatim>\<open>simple_itoa\<close> fills its static array from the end; \<open>room\<close> bytes are left in front.\<close>

function itoa_loop :: "nat \<Rightarrow> u64 \<Rightarrow> u8 list \<Rightarrow> u8 list option" where
  "itoa_loop room i acc =
     (if room = 0 then None
      else let acc' = ucast (48 + i mod 10) # acc; i' = i div 10
           in if i' > 0 then itoa_loop (room - 1) i' acc' else Some acc')"
  by pat_completeness auto
termination by (relation "measure fst") auto

declare itoa_loop.simps [simp del]

definition simple_itoa :: "u64 \<Rightarrow> u8 list option" where
  "simple_itoa i = itoa_loop 21 i []"

definition str2off :: "mem \<Rightarrow> ptr \<Rightarrow> (bool \<times> u64) option" where
  "str2off m p = do { (num, endptr) \<leftarrow> simple_strtoull m p 16; c \<leftarrow> rd m p; e \<leftarrow> rd m endptr; Some (c \<noteq> 0 \<and> e = 0, num) }"

definition str2long :: "mem \<Rightarrow> ptr \<Rightarrow> (bool \<times> u64) option" where
  "str2long m p = do { (num, endptr) \<leftarrow> simple_strtoul m p 16; c \<leftarrow> rd m p; e \<leftarrow> rd m endptr; Some (c \<noteq> 0 \<and> e = 0, num) }"

section \<open>Decimal digits\<close>

text \<open>Multiplying and shifting divides by ten.\<close>

lemma div_205:
  assumes "x < 1020" shows "x * 205 div 2048 = (x div 10 :: nat)"
proof -
  define q r where "q = x div 10" and "r = x mod 10"
  have x: "x = 10 * q + r" "r < 10" by (simp_all add: q_def r_def)
  have "x * 205 = 2 * q + 205 * r + q * 2048" using x by simp
  moreover have "2 * q + 205 * r < 2048" using x assms by linarith
  ultimately show ?thesis by (simp add: q_def)
qed

lemma div_13:
  assumes "x < 65" shows "x * 13 div 128 = (x div 10 :: nat)"
proof -
  define q r where "q = x div 10" and "r = x mod 10"
  have x: "x = 10 * q + r" "r < 10" by (simp_all add: q_def r_def)
  have "x * 13 = 2 * q + 13 * r + q * 128" using x by simp
  moreover have "q \<le> 5 \<or> q = 6 \<and> r < 5" using x assms by arith
  then have "2 * q + 13 * r < 128" using x by auto
  ultimately show ?thesis by (simp add: q_def)
qed

lemma word_div10:
  "x < 1020 \<Longrightarrow> drop_bit 11 (of_nat x * 0xCD) = (of_nat (x div 10) :: u32)"
  "x < 65 \<Longrightarrow> drop_bit 7 (of_nat x * 0xD) = (of_nat (x div 10) :: u32)"
proof -
  assume x: "x < 1020"
  have "of_nat x * 0xCD = (of_nat (x * 205) :: u32)" by simp
  then have "drop_bit 11 (of_nat x * 0xCD) = (of_nat (x * 205 div 2 ^ 11) :: u32)"
    using of_nat_drop [of "x * 205" 11, where 'a = 32] x by (simp del: of_nat_mult)
  then show "drop_bit 11 (of_nat x * 0xCD) = (of_nat (x div 10) :: u32)" using div_205 [OF x] by simp
next
  assume x: "x < 65"
  have "of_nat x * 0xD = (of_nat (x * 13) :: u32)" by simp
  then have "drop_bit 7 (of_nat x * 0xD) = (of_nat (x * 13 div 2 ^ 7) :: u32)"
    using of_nat_drop [of "x * 13" 7, where 'a = 32] x by (simp del: of_nat_mult)
  then show "drop_bit 7 (of_nat x * 0xD) = (of_nat (x div 10) :: u32)" using div_13 [OF x] by simp
qed

lemma word_mod10: "of_nat x - 10 * of_nat (x div 10) = (of_nat (x mod 10) :: u32)"
proof -
  have "of_nat x = (of_nat (10 * (x div 10)) + of_nat (x mod 10) :: u32)" by (metis of_nat_add mult_div_mod_eq)
  then show ?thesis by simp
qed

text \<open>The carries of the conversion: the rows of the multiplication of the hexadecimal digits.\<close>

definition row0 :: "nat \<Rightarrow> nat" where "row0 n = 6 * (n div 4096 + n div 256 mod 16 + n div 16 mod 16) + n mod 16"
definition row1 :: "nat \<Rightarrow> nat" where "row1 n = row0 n div 10 + 9 * (n div 4096) + 5 * (n div 256 mod 16) + n div 16 mod 16"
definition row2 :: "nat \<Rightarrow> nat" where "row2 n = row1 n div 10 + 2 * (n div 256 mod 16)"
definition row3 :: "nat \<Rightarrow> nat" where "row3 n = row2 n div 10 + 4 * (n div 4096)"

lemma rows_bound:
  assumes "n < 100000" shows "row0 n < 1020" "row1 n < 1020" "row2 n < 65" "row3 n < 1020"
proof -
  have d: "n div 4096 \<le> 24" "n div 256 mod 16 \<le> 15" "n div 16 mod 16 \<le> 15" "n mod 16 \<le> 15"
    using assms by (auto simp: less_Suc_eq_le [symmetric])
  have r0: "row0 n \<le> 339" using d by (simp add: row0_def)
  have r1: "row1 n \<le> 339" using d div_le_mono [OF r0, of 10] by (simp add: row1_def)
  have r2: "row2 n \<le> 63" using d div_le_mono [OF r1, of 10] by (simp add: row2_def)
  have "row3 n \<le> 102" using d div_le_mono [OF r2, of 10] by (simp add: row3_def)
  then show "row0 n < 1020" "row1 n < 1020" "row2 n < 65" "row3 n < 1020" using r0 r1 r2 by simp_all
qed

lemma hex_split: "(n :: nat) = 4096 * (n div 4096) + 256 * (n div 256 mod 16) + 16 * (n div 16 mod 16) + n mod 16"
proof -
  have "n div 256 = n div 16 div 16" "n div 4096 = n div 256 div 16" by (simp_all flip: div_mult2_eq)
  then have "n = 16 * (n div 16) + n mod 16" "n div 16 = 16 * (n div 256) + n div 16 mod 16"
    "n div 256 = 16 * (n div 4096) + n div 256 mod 16" by simp_all
  then show ?thesis by linarith
qed

lemma div10_add: "n = x + 10 * k \<Longrightarrow> n div 10 = x div 10 + k \<and> n mod 10 = (x :: nat) mod 10"
  by simp

lemma rows_value:
  "n mod 10 = row0 n mod 10" "n div 10 = row1 n + 10 * (2 * (n div 256 mod 16) + 40 * (n div 4096))"
  "n div 10 mod 10 = row1 n mod 10" "n div 100 = row2 n + 10 * (4 * (n div 4096))"
  "n div 100 mod 10 = row2 n mod 10" "n div 1000 = row3 n"
proof -
  define a b c where "a = n div 4096" and "b = n div 256 mod 16" and "c = n div 16 mod 16"
  note d = row0_def [of n, folded a_def b_def c_def] row1_def [of n, folded a_def b_def c_def]
    row2_def [of n, folded b_def] row3_def [of n, folded a_def]
  have n: "n = row0 n + 10 * (9 * a + 5 * b + c + 10 * (2 * b + 40 * a))"
    using hex_split [of n] by (simp add: d(1) flip: a_def b_def c_def)
  note 1 = div10_add [OF n]
  have h: "n div 10 = row1 n + 10 * (2 * b + 40 * a)" using 1 by (simp add: d(2))
  note 2 = div10_add [OF h]
  have c: "n div 100 = n div 10 div 10" "n div 1000 = n div 10 div 10 div 10" by (simp_all flip: div_mult2_eq)
  have k: "n div 10 div 10 = row2 n + 10 * (4 * a)" using 2 by (simp add: d(3))
  note 3 = div10_add [OF k]
  have l: "n div 10 div 10 div 10 = row3 n" using 3 by (simp add: d(4))
  show "n mod 10 = row0 n mod 10" using 1 by simp
  show "n div 10 = row1 n + 10 * (2 * (n div 256 mod 16) + 40 * (n div 4096))" using h by (simp add: a_def b_def)
  show "n div 10 mod 10 = row1 n mod 10" using 2 by simp
  show "n div 100 = row2 n + 10 * (4 * (n div 4096))" using k c by (simp add: a_def)
  show "n div 100 mod 10 = row2 n mod 10" using 3 c by simp
  show "n div 1000 = row3 n" using l c by simp
qed

lemma word_nibbles:
  assumes "n < 100000"
  shows "drop_bit 12 (of_nat n :: u32) = of_nat (n div 4096)" "drop_bit 8 (of_nat n :: u32) AND 0xF = of_nat (n div 256 mod 16)"
    "drop_bit 4 (of_nat n :: u32) AND 0xF = of_nat (n div 16 mod 16)" "of_nat n AND 0xF = (of_nat (n mod 16) :: u32)"
  using assms of_nat_drop [of n 12, where 'a = 32] of_nat_drop [of n 8, where 'a = 32] of_nat_drop [of n 4, where 'a = 32]
  by (simp_all add: and_low)

lemma word_rows:
  "6 * (of_nat (n div 4096) + of_nat (n div 256 mod 16) + of_nat (n div 16 mod 16)) + of_nat (n mod 16) = (of_nat (row0 n) :: u32)"
  "of_nat (row0 n div 10) + 9 * of_nat (n div 4096) + 5 * of_nat (n div 256 mod 16) + of_nat (n div 16 mod 16) = (of_nat (row1 n) :: u32)"
  "of_nat (row1 n div 10) + 2 * of_nat (n div 256 mod 16) = (of_nat (row2 n) :: u32)"
  "of_nat (row2 n div 10) + 4 * of_nat (n div 4096) = (of_nat (row3 n) :: u32)"
  by (simp_all add: row0_def row1_def row2_def row3_def)

definition dec_char :: "nat \<Rightarrow> u8" where "dec_char d = of_nat (48 + d)"

lemma ucast_dec: "ucast (of_nat d + 48 :: u32) = dec_char d"
  using ucast_of_nat_down(1) [of "48 + d"] by (simp add: dec_char_def add.commute)

lemma put_dec_full_rows:
  assumes "n < 100000"
  shows "put_dec_full (of_nat n) = map dec_char [n mod 10, n div 10 mod 10, n div 100 mod 10, n div 1000 mod 10, n div 10000]"
proof -
  note b = rows_bound [OF assms]
  have q: "n div 10000 = row3 n div 10" using rows_value(6) [of n] by (simp flip: div_mult2_eq)
  show ?thesis unfolding put_dec_full_def Let_def word_nibbles [OF assms] word_rows word_div10(1) [OF b(1)] word_div10(1) [OF b(2)]
      word_div10(2) [OF b(3)] word_div10(1) [OF b(4)] word_mod10 q rows_value(1,3,5,6) [of n]
    by (simp add: ucast_dec)
qed

lemma put_dec_trunc_rows:
  assumes "n < 100000"
  shows "put_dec_trunc (of_nat n) = dec_char (n mod 10) # (if n div 10 \<noteq> 0 then dec_char (n div 10 mod 10) #
           (if n div 100 \<noteq> 0 then dec_char (n div 100 mod 10) #
             (if n div 1000 \<noteq> 0 then dec_char (n div 1000 mod 10) # (if n div 10000 \<noteq> 0 then [dec_char (n div 10000)] else []) else [])
            else []) else [])"
proof -
  note b = rows_bound [OF assms]
  have q: "n div 10000 = row3 n div 10" using rows_value(6) [of n] by (simp flip: div_mult2_eq)
  have c1: "n div 10 \<noteq> 0 \<longleftrightarrow> row1 n \<noteq> 0" unfolding rows_value(2) [of n] by (auto simp: row1_def)
  have c2: "n div 100 \<noteq> 0 \<longleftrightarrow> row2 n \<noteq> 0 \<or> n div 4096 \<noteq> 0" unfolding rows_value(4) [of n] by auto
  have z: "(of_nat (row1 n) :: u32) = 0 \<longleftrightarrow> row1 n = 0" "(of_nat (row2 n) :: u32) = 0 \<longleftrightarrow> row2 n = 0"
    "(of_nat (row3 n) :: u32) = 0 \<longleftrightarrow> row3 n = 0" "(of_nat (n div 4096) :: u32) = 0 \<longleftrightarrow> n div 4096 = 0"
    "(of_nat (row3 n div 10) :: u32) = 0 \<longleftrightarrow> row3 n div 10 = 0"
    using b assms by (auto simp: u32_cmp(4))
  show ?thesis unfolding put_dec_trunc_def Let_def word_nibbles [OF assms] word_rows word_div10(1) [OF b(1)] word_div10(1) [OF b(2)]
      word_div10(2) [OF b(3)] word_div10(1) [OF b(4)] word_mod10 q rows_value(1,3,5,6) [of n] c1 c2 z ucast_dec
    by (rule refl)
qed

lemma rev_decimal: "rev (decimal n) = dec_char (n mod 10) # (if n div 10 = 0 then [] else rev (decimal (n div 10)))"
  by (subst decimal.simps) (simp add: dec_char_def div_eq_0_iff)

lemma put_dec_trunc_decimal:
  assumes "n < 100000" shows "put_dec_trunc (of_nat n) = rev (decimal n)"
proof -
  have d: "n div 10 div 10 = n div 100" "n div 100 div 10 = n div 1000" "n div 1000 div 10 = n div 10000" "n div 10000 div 10 = 0"
    using assms by (simp_all flip: div_mult2_eq)
  have "n div 10000 mod 10 = n div 10000" using assms by simp
  then show ?thesis unfolding put_dec_trunc_rows [OF assms]
    by (simp add: rev_decimal [of n] rev_decimal [of "n div 10"] rev_decimal [of "n div 100"] rev_decimal [of "n div 1000"]
        rev_decimal [of "n div 10000"] d)
qed

lemma rev_decimal_step: "0 < k \<Longrightarrow> rev (decimal (x + 10 * k)) = dec_char (x mod 10) # rev (decimal (x div 10 + k))"
  using rev_decimal [of "x + 10 * k"] by (simp add: add.commute)

lemma rev_decimal_split:
  assumes "100000 \<le> n"
  shows "rev (decimal n) = put_dec_full (of_nat (n mod 100000)) @ rev (decimal (n div 100000))"
proof -
  define m k where "m = n mod 100000" and "k = n div 100000"
  have n: "n = m + 10 * (10000 * k)" and m: "m < 100000" and k: "0 < k" using assms by (auto simp: m_def k_def div_greater_zero_iff)
  have d: "m div 10 div 10 = m div 100" "m div 100 div 10 = m div 1000" "m div 1000 div 10 = m div 10000"
    "m div 10000 mod 10 = m div 10000" "m div 10000 div 10 = 0" using m by (simp_all flip: div_mult2_eq)
  note s = rev_decimal_step [of "10000 * k" m] rev_decimal_step [of "1000 * k" "m div 10"] rev_decimal_step [of "100 * k" "m div 100"]
    rev_decimal_step [of "10 * k" "m div 1000"] rev_decimal_step [of k "m div 10000"]
  have "rev (decimal (m + 10 * (10000 * k))) = put_dec_full (of_nat m) @ rev (decimal k)"
    unfolding put_dec_full_rows [OF m] using s k by (simp add: d)
  then show ?thesis unfolding n [symmetric] unfolding m_def k_def .
qed

lemma put_dec_decimal: "put_dec num = rev (decimal (unat num))"
proof (induction num rule: put_dec.induct)
  case (1 num)
  show ?case
  proof (cases "num < 100000")
    case True
    then have "unat num < 100000" by (simp add: word_less_nat_alt)
    from put_dec_trunc_decimal [OF this] show ?thesis using True by (simp add: put_dec.simps [of num])
  next
    case False
    then have l: "100000 \<le> unat num" by (simp add: word_less_nat_alt)
    have "unat (num mod 100000) = unat num mod 100000" by (simp add: unat_mod)
    then have "ucast (num mod 100000) = (of_nat (unat num mod 100000) :: u32)" by (metis of_nat_unat)
    then show ?thesis using False 1 rev_decimal_split [OF l] by (simp add: put_dec.simps [of num] unat_div)
  qed
qed

section \<open>Digits of any base\<close>

definition digit_char :: "u8 \<Rightarrow> nat \<Rightarrow> u8" where "digit_char locase d = digits ! d OR locase"

fun radix :: "nat \<Rightarrow> u8 \<Rightarrow> nat \<Rightarrow> u8 list" where
  "radix b locase n = (if n < b \<or> b < 2 then [digit_char locase n] else radix b locase (n div b) @ [digit_char locase (n mod b)])"

declare radix.simps [simp del]

lemma below16: "d < 16 \<Longrightarrow> d \<in> {0, 1, 2, 3, 4, 5, 6, 7, 8, 9, 10, 11, 12, 13, 14, 15 :: nat}"
proof -
  assume "d < 16"
  have e: "e < 8 \<Longrightarrow> e \<in> {0, 1, 2, 3, 4, 5, 6, 7 :: nat}" for e by auto
  show ?thesis
  proof (cases "d < 8")
    case True then show ?thesis using e [of d] by auto
  next
    case False
    then have "d = 8 + (d - 8)" "d - 8 < 8" using \<open>d < 16\<close> by auto
    then show ?thesis using e [of "d - 8"] by auto
  qed
qed

lemma digit_char_dec: "d < 10 \<Longrightarrow> locase \<in> {0, 0x20} \<Longrightarrow> digit_char locase d = dec_char d"
  using below16 [of d] by (auto simp: digit_char_def digits_def dec_char_def)

lemma radix_decimal: "locase \<in> {0, 0x20} \<Longrightarrow> radix 10 locase n = decimal n"
proof (induction n rule: less_induct)
  case (less n)
  then show ?case by (simp add: radix.simps [of 10 locase n] decimal.simps [of n] digit_char_dec dec_char_def)
qed

lemma shift_digits_radix: "shift_digits hex locase num = rev (radix (if hex then 16 else 8) locase (unat num))"
proof (induction hex locase num rule: shift_digits.induct)
  case (1 hex locase num)
  define b s where "b = (if hex then 16 else 8 :: nat)" and "s = (if hex then 4 else 3 :: nat)"
  have b: "b = 2 ^ s" "2 \<le> b" by (simp_all add: b_def s_def)
  have d: "unat (drop_bit s num) = unat num div b" by (simp only: unat_drop_bit_eq) (simp add: drop_bit_eq_div b)
  have z: "drop_bit s num = 0 \<longleftrightarrow> unat num < b" using d b by (simp add: unat_eq_0 [symmetric] div_eq_0_iff del: unat_eq_0)
  have "(ucast num :: u8) = of_nat (unat num)" by simp
  then have i: "unat ((ucast num :: u8) AND (if hex then 15 else 7)) = unat num mod b"
    by (cases hex) (simp_all only: if_True if_False and_low b_def unat_of_nat, simp_all)
  have "shift_digits hex locase num = digit_char locase (unat num mod b) #
          (if unat num < b then [] else shift_digits hex locase (drop_bit s num))"
    using i z by (simp add: shift_digits.simps [of hex locase num] Let_def digit_char_def flip: s_def)
  also have "\<dots> = rev (radix b locase (unat num))"
    using 1 [OF refl refl refl] z d b(2) by (auto simp: radix.simps [of b locase "unat num"] b_def [symmetric] s_def [symmetric])
  finally show ?case by (simp add: b_def)
qed

lemma number_tmp_radix:
  assumes "base \<in> {8, 10, 16}" "locase \<in> {0, 0x20}"
  shows "number_tmp num base locase = rev (radix base locase (unat num))"
proof (cases "num = 0")
  case True then show ?thesis using assms by (auto simp: number_tmp_def radix.simps [of _ _ 0] digit_char_dec dec_char_def)
next
  case False
  then show ?thesis using assms
    by (auto simp: number_tmp_def shift_digits_radix put_dec_decimal radix_decimal)
qed

section \<open>The layout of a number\<close>

definition magnitude :: "u64 \<Rightarrow> int \<Rightarrow> nat" where
  "magnitude num type = (if type AND SIGN \<noteq> 0 \<and> sint num < 0 then nat (- sint num) else unat num)"

definition sign_text :: "u64 \<Rightarrow> int \<Rightarrow> u8 list" where
  "sign_text num type =
     (if type AND SIGN = 0 then [] else if sint num < 0 then [45]
      else if type AND PLUS \<noteq> 0 then [43] else if type AND SPACE \<noteq> 0 then [32] else [])"

definition case_bit :: "int \<Rightarrow> u8" where
  "case_bit type = (if type AND SMALL \<noteq> 0 then 0x20 else 0)"

definition prefix_text :: "nat \<Rightarrow> int \<Rightarrow> u8 list" where
  "prefix_text base type =
     (if type AND SPECIAL = 0 \<or> base = 10 then [] else if base = 16 then [48, 88 OR case_bit type] else [48])"

text \<open>A number in a field: sign, prefix and digits with leading zeros up to the precision; the rest of the width
  is filled on the right, with zeros between prefix and digits, or on the left.\<close>

definition number_field :: "u64 \<Rightarrow> nat \<Rightarrow> int \<Rightarrow> int \<Rightarrow> int \<Rightarrow> u8 list" where
  "number_field num base width precision type =
     (let ds = radix base (case_bit type) (magnitude num type);
          front = sign_text num type @ prefix_text base type;
          body = replicate (nat precision - length ds) 48 @ ds;
          room = nat width - length (front @ body)
      in if type AND LEFT \<noteq> 0 then front @ body @ replicate room 32
         else if type AND ZEROPAD \<noteq> 0 then front @ replicate room 48 @ body
         else replicate room 32 @ front @ body)"

lemma neg_magnitude: "sint (num :: u64) < 0 \<Longrightarrow> unat (- num) = nat (- sint num)"
proof -
  assume n: "sint num < 0"
  have "- (2 ^ 63) \<le> sint num" using sint_greater_eq [of num] by simp
  then have "take_bit 64 (- sint num) = - sint num" using n by (intro take_bit_int_eq_self) auto
  moreover have "- num = word_of_int (- sint num)" by simp
  ultimately have "uint (- num) = - sint num" by (simp only: uint_word_of_int_eq len_num1 len_bit0) simp
  then show ?thesis by (simp flip: nat_uint_eq)
qed

lemma keep_flags:
  "(type AND NOT ZEROPAD) AND SIGN = type AND SIGN" "(type AND NOT ZEROPAD) AND PLUS = type AND PLUS"
  "(type AND NOT ZEROPAD) AND SPACE = type AND SPACE" "(type AND NOT ZEROPAD) AND LEFT = type AND LEFT"
  "(type AND NOT ZEROPAD) AND ZEROPAD = 0"
  by (simp_all add: and.assoc SIGN_def PLUS_def SPACE_def LEFT_def ZEROPAD_def)

lemma pad_flags: "type AND (ZEROPAD + LEFT) = 0 \<longleftrightarrow> type AND ZEROPAD = 0 \<and> type AND LEFT = 0" for type :: int
proof -
  have "ZEROPAD + LEFT = ZEROPAD OR LEFT" by (simp add: ZEROPAD_def LEFT_def)
  then show ?thesis by (simp add: bit.conj_disj_distrib or_eq_0_iff)
qed

lemma number_sign_text:
  "number_sign num width type = (sign_text num type, of_nat (magnitude num type), width - int (length (sign_text num type)))"
  by (auto simp: number_sign_def sign_text_def magnitude_def simp flip: neg_magnitude)

lemma magnitude_bound: "magnitude num type < 2 ^ 64"
proof (cases "type AND SIGN \<noteq> 0 \<and> sint num < 0")
  case True then show ?thesis using unsigned_less [of "- num", where 'a = nat] neg_magnitude [of num] by (simp add: magnitude_def)
next
  case False then show ?thesis using unsigned_less [of num, where 'a = nat] by (auto simp: magnitude_def)
qed

lemma number_layout:
  assumes "base \<in> {8, 10, 16}" shows "number num base width precision type = number_field num base width precision type"
proof -
  define ty where "ty = (if type AND LEFT \<noteq> 0 then type AND NOT ZEROPAD else type)"
  have ty: "sign_text num ty = sign_text num type" "magnitude num ty = magnitude num type" "ty AND LEFT = type AND LEFT"
    "ty AND ZEROPAD \<noteq> 0 \<longleftrightarrow> type AND LEFT = 0 \<and> type AND ZEROPAD \<noteq> 0"
    by (auto simp: ty_def sign_text_def magnitude_def keep_flags)
  have lc: "case_bit type \<in> {0, 0x20}" by (simp add: case_bit_def)
  have u: "unat (of_nat (magnitude num type) :: u64) = magnitude num type" using magnitude_bound [of num type] by (simp add: unat_of_nat)
  define ds where "ds = radix base (case_bit type) (magnitude num type)"
  have tmp: "number_tmp (of_nat (magnitude num type)) base (case_bit type) = rev ds"
    unfolding number_tmp_radix [OF assms lc] u ds_def ..
  define s where "s = int (length (sign_text num type @ prefix_text base type))"
  define p where "p = (if int (length ds) > precision then int (length ds) else precision)"
  have p: "nat (p - int (length ds)) = nat precision - length ds" "p = int (nat precision - length ds + length ds)"
    by (auto simp: p_def)
  have n1: "(if type AND SPECIAL \<noteq> 0 \<and> base \<noteq> 10 then if base = 16 then width - int (length (sign_text num type)) - 1 - 1
               else width - int (length (sign_text num type)) - 1 else width - int (length (sign_text num type))) = width - s"
    by (auto simp: s_def prefix_text_def)
  have room: "nat (width - s - p) = nat width - length (sign_text num type @ prefix_text base type
      @ replicate (nat precision - length ds) 48 @ ds)" unfolding p(2) s_def by (simp add: nat_diff_distrib')
  have np: "(if type AND SPECIAL \<noteq> 0 \<and> base \<noteq> 10 then 48 # (if base = 16 then [88 OR case_bit type] else []) else []) = prefix_text base type"
    by (auto simp: prefix_text_def)
  have pad: "type AND LEFT \<noteq> 0 \<Longrightarrow> \<not> (ty AND (ZEROPAD + LEFT) = 0)" "type AND LEFT = 0 \<Longrightarrow> ty AND (ZEROPAD + LEFT) = 0 \<longleftrightarrow> type AND ZEROPAD = 0"
    using ty(3,4) unfolding pad_flags by auto
  have e: "number num base width precision type =
     (let (lead, n2) = (if ty AND (ZEROPAD + LEFT) = 0 then pad_down 32 (width - s - p) else ([], width - s - p));
          (fill, n3) = (if type AND LEFT = 0 then pad_down (if ty AND ZEROPAD \<noteq> 0 then 48 else 32) n2 else ([], n2));
          (trail, _) = pad_down 32 n3
      in lead @ sign_text num type @ prefix_text base type @ fill @ replicate (nat (p - int (length ds))) 48 @ ds @ trail)"
    unfolding number_def case_bit_def [symmetric] ty_def [symmetric] number_sign_text
    by (simp only: Let_def prod.case ty(1-3) tmp n1 length_rev p_def [symmetric] np rev_rev_ident)
  show ?thesis unfolding e p(1) number_field_def Let_def ds_def [symmetric]
    using pad ty(4) room by (cases "type AND LEFT = 0"; cases "type AND ZEROPAD = 0") (simp_all add: pad_down_def min_def)
qed

section \<open>Writing into the buffer\<close>

lemma put_seg_update: "p + length bs < length m \<Longrightarrow> (put_seg m p bs)[p + length bs := c] = put_seg m p (bs @ [c])"
  by (rule put_seg_eqI) (auto simp: nth_put_seg nth_append nth_list_update)

lemma put_seg_Cons_step: "p < length m \<Longrightarrow> put_seg (m[p := c]) (Suc p) bs = put_seg m p (c # bs)"
  by (simp add: put_seg_Cons)

lemma addchs_run:
  "min n (pos + length cs) \<le> length m \<Longrightarrow>
   addchs n cs (pos, m) = Some (pos + length cs, put_seg m pos (take (n - pos) cs))"
proof (induction cs arbitrary: pos m)
  case (Cons c cs)
  show ?case
  proof (cases "pos < n")
    case True
    then have p: "pos < length m" using Cons.prems by simp
    have "min n (Suc pos + length cs) \<le> length (m[pos := c])" using Cons.prems by simp
    from Cons.IH [OF this] show ?thesis using True p put_seg_Cons_step [OF p]
      by (simp add: addch_def Suc_diff_Suc [symmetric] del: diff_Suc_Suc)
  next
    case False
    have "min n (Suc pos + length cs) \<le> length m" using Cons.prems False by simp
    from Cons.IH [OF this] show ?thesis using False by (simp add: addch_def)
  qed
qed simp

lemma addchs_fault:
  "pos \<le> length m \<Longrightarrow> length m < min n (pos + length cs) \<Longrightarrow> addchs n cs (pos, m) = None"
proof (induction cs arbitrary: pos m)
  case (Cons c cs)
  then show ?case by (cases "pos < length m") (simp_all add: addch_def)
qed simp

lemma as_int_small: "n < 2 ^ 31 \<Longrightarrow> as_int n = int n"
  by (simp add: as_int_def signed_of_nat signed_take_bit_int_eq_self)

lemma vsnprintf_run:
  assumes "vformat dps 0 fmt args = Some (None, out, st)" "0 < n" "n \<le> length m" "addr + n < 2 ^ 64" "length out < 2 ^ 31 - 1"
  shows "vsnprintf_internal dps m addr n fmt args = Some (int (length out), put_seg m 0 (take (n - 1) out @ [0]), st)"
proof (cases "length out < n")
  case True
  have "addchs n out (0, m) = Some (length out, put_seg m 0 out)" using addchs_run [of n 0 out m] True assms(3) by simp
  then show ?thesis using assms True put_seg_update [of 0 out m 0]
    by (simp add: vsnprintf_internal_def addch_def as_int_small min_absorb1)
next
  case False
  have a: "addchs n out (0, m) = Some (length out, put_seg m 0 (take n out))" using addchs_run [of n 0 out m] assms(3) by simp
  have t: "take n out = take (n - 1) out @ [out ! (n - 1)]" using False assms(2) take_Suc_conv_app_nth [of "n - 1" out] by simp
  have l: "length (take (n - 1) out) = n - 1" using False by simp
  have "(put_seg m 0 (take n out))[n - 1 := 0] = put_seg m 0 (take (n - 1) out @ [0])"
    unfolding t put_seg_def using l assms(2,3) by (simp add: list_update_append)
  then show ?thesis using assms False a by (simp add: vsnprintf_internal_def addch_def as_int_small)
qed

lemma vsprintf_run:
  assumes "vformat dps 0 fmt args = Some (None, out, st)" "length out < length m" "addr + 2 ^ 31 \<le> 2 ^ 64" "length out < 2 ^ 31 - 1"
  shows "vsprintf dps m addr fmt args = Some (int (length out), put_seg m 0 (out @ [0]), st)"
proof -
  have n: "\<not> addr + nat INT_MAX \<ge> 2 ^ 64" "length out < nat INT_MAX" "0 < INT_MAX" using assms(3,4) by (simp_all add: INT_MAX_def)
  have "addchs (nat INT_MAX) out (0, m) = Some (length out, put_seg m 0 out)"
    using addchs_run [of "nat INT_MAX" 0 out m] n(2) assms(2) by simp
  then show ?thesis using assms(1,2,4) n put_seg_update [of 0 out m 0]
    by (simp add: vsprintf_def vsnprintf_internal_def addch_def Let_def as_int_small)
qed

lemma vsprintf_fault:
  assumes "vformat dps 0 fmt args = Some (None, out, st)" "length m \<le> length out" "addr + 2 ^ 31 \<le> 2 ^ 64" "length out < 2 ^ 31 - 1"
  shows "vsprintf dps m addr fmt args = None"
proof -
  have n: "\<not> addr + nat INT_MAX \<ge> 2 ^ 64" "length out < nat INT_MAX" "0 < INT_MAX" using assms(3,4) by (simp_all add: INT_MAX_def)
  show ?thesis
  proof (cases "length m < length out")
    case True
    then have "addchs (nat INT_MAX) out (0, m) = None" using addchs_fault [of 0 m "nat INT_MAX" out] n by simp
    then show ?thesis using assms(1) n by (simp add: vsprintf_def vsnprintf_internal_def)
  next
    case False
    then have "addchs (nat INT_MAX) out (0, m) = Some (length out, put_seg m 0 out)" using addchs_run [of "nat INT_MAX" 0 out m] n by simp
    then show ?thesis using assms(1,2) n False
      by (simp add: vsprintf_def vsnprintf_internal_def addch_def Let_def)
  qed
qed

section \<open>Reading back what was printed\<close>

lemma digit_char_table:
  "\<forall>locase \<in> set [0, 0x20]. \<forall>d \<in> set [0..<16]. digit_value (digit_char locase d) = of_nat d \<and> isxdigit (digit_char locase d)
     \<and> (digit_char locase d = 48 \<longleftrightarrow> d = 0) \<and> digit_char locase d \<noteq> 0 \<and> tolower (digit_char locase d) \<noteq> 120"
  by code_simp

lemma digit_char_value:
  assumes "d < 16" "locase \<in> {0, 0x20}"
  shows "digit_value (digit_char locase d) = of_nat d" "isxdigit (digit_char locase d)" "digit_char locase d = 48 \<longleftrightarrow> d = 0"
    "digit_char locase d \<noteq> 0" "tolower (digit_char locase d) \<noteq> 120"
proof -
  have "locase \<in> set [0, 0x20]" "d \<in> set [0..<16]" using assms by simp_all
  from digit_char_table [rule_format, OF this]
  show "digit_value (digit_char locase d) = of_nat d" "isxdigit (digit_char locase d)" "digit_char locase d = 48 \<longleftrightarrow> d = 0"
    "digit_char locase d \<noteq> 0" "tolower (digit_char locase d) \<noteq> 120" by blast+
qed

lemma digit_char_of: "d < b \<Longrightarrow> b \<le> 16 \<Longrightarrow> locase \<in> {0, 0x20} \<Longrightarrow> digit_of b (digit_char locase d)"
  using digit_char_value(1,2) [of d locase] by (simp add: digit_of_def unat_of_nat)

lemma radix_chars: "2 \<le> b \<Longrightarrow> c \<in> set (radix b locase n) \<Longrightarrow> \<exists>d < b. c = digit_char locase d"
proof (induction n rule: less_induct)
  case (less n)
  show ?case
  proof (cases "n < b")
    case True then show ?thesis using less.prems by (auto simp: radix.simps [of b locase n])
  next
    case False
    then have "c \<in> set (radix b locase (n div b)) \<or> c = digit_char locase (n mod b)" using less.prems by (auto simp: radix.simps [of b locase n])
    moreover have "n mod b < b" "n div b < n" using less.prems(1) False by auto
    ultimately show ?thesis using less by blast
  qed
qed

lemma radix_not_Nil [simp]: "radix b locase n \<noteq> []"
  by (subst radix.simps) simp

lemma radix_hd: "2 \<le> b \<Longrightarrow> 0 < n \<Longrightarrow> \<exists>d < b. 0 < d \<and> hd (radix b locase n) = digit_char locase d"
proof (induction n rule: less_induct)
  case (less n)
  show ?case
  proof (cases "n < b")
    case True then show ?thesis using less.prems by (auto simp: radix.simps [of b locase n])
  next
    case False
    then have "n div b < n" "0 < n div b" using less.prems by (auto simp: div_greater_zero_iff)
    from less.IH [OF this(1) less.prems(1) this(2)] show ?thesis using False less.prems(1) by (subst radix.simps) simp
  qed
qed

lemma digits_value_radix:
  assumes "2 \<le> b" "b \<le> 16" "locase \<in> {0, 0x20}" shows "digits_value b (radix b locase n) = n"
proof (induction n rule: less_induct)
  case (less n)
  have v: "unat (digit_value (digit_char locase d)) = d" if "d < b" for d
    using digit_char_value(1) [of d locase] that assms by (simp add: unat_of_nat)
  show ?case
  proof (cases "n < b")
    case True then show ?thesis using v by (simp add: radix.simps [of b locase n] digits_value_def)
  next
    case False
    then have "n div b < n" using assms(1) by simp
    from less.IH [OF this] show ?thesis using False assms(1) v by (simp add: radix.simps [of b locase n] digits_value_snoc)
  qed
qed

lemma radix_length: "2 \<le> b \<Longrightarrow> 0 < k \<Longrightarrow> n < b ^ k \<Longrightarrow> length (radix b locase n) \<le> k"
proof (induction k arbitrary: n)
  case (Suc k)
  show ?case
  proof (cases "n < b")
    case True then show ?thesis by (simp add: radix.simps [of b locase n])
  next
    case False
    then have "0 < k" using Suc.prems(3) by (cases k) auto
    moreover have "n div b < b ^ k" using Suc.prems by (simp add: less_mult_imp_div_less mult.commute)
    ultimately show ?thesis using Suc.IH [of "n div b"] Suc.prems(1) False by (subst radix.simps) simp
  qed
qed simp

text \<open>The text of a number is read by the loop of \<^verbatim>\<open>simple_strtoul\<close>, also after a leading zero.\<close>

lemma strtoul_loop_radix:
  assumes "b \<in> {8, 10, 16}" "locase \<in> {0, 0x20}" "cstring m p ds" "ds = radix b locase (unat w) \<or> ds = 48 # radix b locase (unat w)"
  shows "strtoul_loop m p b 0 = Some (w, p + length ds)"
proof -
  have b: "2 \<le> b" "b \<le> 16" using assms(1) by auto
  have z: "digit_of b 48" "digit_value 48 = 0" "\<not> digit_of b 0"
    using digit_char_of [of 0 b 0] digit_char_value(1) [of 0 0] b by (simp_all add: digit_char_def digits_def digit_of_def isxdigit_iff)
  have d: "\<forall>c\<in>set ds. digit_of b c" using assms(4) z(1) radix_chars [OF b(1)] digit_char_of [OF _ b(2) assms(2)] by fastforce
  have v: "digits_value b ds = unat w"
    using assms(4) digits_value_radix [OF b assms(2)] z(2) by (auto simp: digits_value_def)
  from strtoul_loop_digits [OF d] assms(3) z(3)
  have "strtoul_loop m p b 0 = Some (foldl (\<lambda>v c. v * of_nat b + digit_value c) 0 ds, p + length ds)" by (simp add: cstring_def)
  then show ?thesis using foldl_digits_of_nat [of b 0 ds] v by (simp add: digits_value_def)
qed

lemma number_plain:
  "base \<in> {8, 10, 16} \<Longrightarrow> number num base (- 1) (- 1) type
     = sign_text num type @ prefix_text base type @ radix base (case_bit type) (magnitude num type)"
  by (simp add: number_layout number_field_def Let_def)

text \<open>The formats for an \<^verbatim>\<open>unsigned long\<close>: the text of the format, the base and the flags it stands for.\<close>

definition ulong_formats :: "(u8 list \<times> nat \<times> int) list" where
  "ulong_formats = [([37, 108, 117], 10, 0), ([37, 108, 111], 8, 0), ([37, 35, 108, 111], 8, 64), ([37, 108, 120], 16, 32),
                    ([37, 108, 88], 16, 0), ([37, 35, 108, 120], 16, 96), ([37, 35, 108, 88], 16, 64)]"

lemmas format_defs = conversion_def get_width_def get_precision_def get_qualifier_def convert_def get_num_def is_digit_def
  prepend_def SPECIAL_def SMALL_def SIGN_def LEFT_def PLUS_def SPACE_def ZEROPAD_def

lemma ulong_text:
  assumes "(fmt, base, type) \<in> set ulong_formats"
  shows "vformat dps pos fmt [VLong w] = Some (None, prefix_text base type @ radix base (case_bit type) (unat w), [])"
  using assms unfolding ulong_formats_def
  by (auto simp: format_defs number_plain sign_text_def magnitude_def)

lemma radix_0: "2 \<le> b \<Longrightarrow> locase \<in> {0, 0x20} \<Longrightarrow> radix b locase 0 = [48]"
  using digit_char_value(3) [of 0 locase] by (simp add: radix.simps [of b locase 0])

text \<open>The start of a number without prefix: a zero digit is the number 0.\<close>

lemma cstring_radix:
  assumes "2 \<le> b" "b \<le> 16" "locase \<in> {0, 0x20}" "cstring m p (radix b locase n)"
  obtains c where "p + 1 < length m" "m ! p = c" "c = 48 \<longrightarrow> n = 0 \<and> m ! (p + 1) = 0" "isxdigit c" "tolower c \<noteq> 120"
proof (cases "n = 0")
  case True
  then have "cstring m p [48]" using assms radix_0 by simp
  then show ?thesis using that [of 48] True digit_char_value(2,5) [of 0 0]
    by (auto simp: cstring_Cons cstring_Nil digit_char_def digits_def)
next
  case False
  from radix_hd [OF assms(1), of n locase] False obtain d where d: "d < b" "0 < d" "hd (radix b locase n) = digit_char locase d" by auto
  obtain r where r: "radix b locase n = digit_char locase d # r" using d(3) by (cases "radix b locase n") auto
  have "m ! p = digit_char locase d" "p + 1 < length m" using assms(4) unfolding r by (auto simp: cstring_def seg_Suc)
  then show ?thesis using that digit_char_value [of d locase] d assms by auto
qed

lemma tolower_chars: "tolower 0 \<noteq> 120" "tolower 88 = 120" "tolower 120 = 120" "tolower 48 \<noteq> 120"
  by code_simp+

text \<open>The bases in which a text of one of the formats is read: its own, and 0 when its form tells the base.\<close>

definition reads_in :: "nat \<Rightarrow> int \<Rightarrow> nat set" where
  "reads_in base type = (if base = 10 \<or> type AND SPECIAL \<noteq> 0 then {base, 0} else {base})"

lemma fixup_plain:
  assumes "base \<in> {8, 10, 16}" "locase \<in> {0, 0x20}" "cstring m p (radix base locase n)" "b \<in> (if base = 10 then {10, 0} else {base})"
  shows "\<exists>b'\<in>{8, 10, 16}. parse_integer_fixup_radix m p b = Some (p, b') \<and> radix b' locase n = radix base locase n"
proof -
  have b: "2 \<le> base" "base \<le> 16" using assms(1) by auto
  from cstring_radix [OF b assms(2,3)] obtain c where c: "p + 1 < length m" "m ! p = c" "c = 48 \<longrightarrow> n = 0 \<and> m ! (p + 1) = 0" .
  have "radix 8 locase 0 = radix 10 locase 0" using radix_0 assms(2) by simp
  then show ?thesis using c assms(1,4) tolower_chars(1)
    by (cases "c = 48") (auto simp: parse_integer_fixup_radix_def split: if_splits)
qed

lemma fixup_hex:
  assumes "cstring m p (48 # x # radix 16 locase n)" "tolower x = 120" "locase \<in> {0, 0x20}" "b \<in> {16, 0}"
  shows "parse_integer_fixup_radix m p b = Some (p + 2, 16) \<and> cstring m (p + 2) (radix 16 locase n)"
proof -
  have c: "cstring m (p + 2) (radix 16 locase n)" "m ! p = 48" "m ! (p + 1) = x" using assms(1) by (auto simp: cstring_Cons)
  from cstring_radix [OF _ _ assms(3) c(1)] obtain y where "p + 2 + 1 < length m" "m ! (p + 2) = y" "isxdigit y" by auto
  then show ?thesis using c assms(2,4) by (auto simp: parse_integer_fixup_radix_def)
qed

lemma fixup_octal:
  assumes "cstring m p (48 # radix 8 locase n)" "locase \<in> {0, 0x20}" "b \<in> {8, 0}"
  shows "parse_integer_fixup_radix m p b = Some (p, 8)"
proof -
  have c: "cstring m (p + 1) (radix 8 locase n)" "m ! p = 48" using assms(1) by (auto simp: cstring_Cons)
  from cstring_radix [OF _ _ assms(2) c(1)] obtain y where "p + 1 + 1 < length m" "m ! (p + 1) = y" "tolower y \<noteq> 120" by auto
  then show ?thesis using c assms(3) by (auto simp: parse_integer_fixup_radix_def)
qed

lemma strtoul_ulong:
  assumes "(fmt, base, type) \<in> set ulong_formats" "cstring m p (prefix_text base type @ radix base (case_bit type) (unat w))"
    "b \<in> reads_in base type"
  shows "simple_strtoul m p b = Some (w, p + length (prefix_text base type @ radix base (case_bit type) (unat w)))"
proof -
  have lc: "case_bit type \<in> {0, 0x20}" by (simp add: case_bit_def)
  have base: "base \<in> {8, 10, 16}" using assms(1) by (auto simp: ulong_formats_def)
  consider "prefix_text base type = []" "b \<in> (if base = 10 then {10, 0} else {base})"
    | x where "prefix_text base type = [48, x]" "base = 16" "tolower x = 120" "b \<in> {16, 0}"
    | "prefix_text base type = [48]" "base = 8" "b \<in> {8, 0}"
    using assms(1,3) tolower_chars unfolding ulong_formats_def
    by (auto simp: prefix_text_def reads_in_def case_bit_def SPECIAL_def SMALL_def split: if_splits)
  then show ?thesis
  proof cases
    case 1
    then have c: "cstring m p (radix base (case_bit type) (unat w))" using assms(2) by simp
    from fixup_plain [OF base lc c 1(2)] obtain b' where "b' \<in> {8, 10, 16}" "parse_integer_fixup_radix m p b = Some (p, b')"
      "radix b' (case_bit type) (unat w) = radix base (case_bit type) (unat w)" by blast
    then show ?thesis using 1 strtoul_loop_radix [of b' "case_bit type" m p _ w] lc assms(2) by (simp add: simple_strtoul_def)
  next
    case 2
    have "cstring m p (48 # x # radix 16 (case_bit type) (unat w))" using assms(2) 2 by simp
    from fixup_hex [OF this 2(3) lc 2(4)] show ?thesis
      using 2 strtoul_loop_radix [of 16 "case_bit type" m "p + 2" _ w] lc by (simp add: simple_strtoul_def)
  next
    case 3
    have c: "cstring m p (48 # radix 8 (case_bit type) (unat w))" using assms(2) 3 by simp
    from fixup_octal [OF c lc 3(3)] show ?thesis
      using 3 strtoul_loop_radix [of 8 "case_bit type" m p _ w] c lc by (simp add: simple_strtoul_def)
  qed
qed

lemma ulong_length:
  assumes "base \<in> {8, 10, 16}" shows "length (prefix_text base type @ radix base locase (unat (w :: u64))) \<le> 24"
proof -
  have "(8 :: nat) ^ 22 \<le> base ^ 22" using assms by (intro power_mono) auto
  then have "unat w < base ^ 22" using unsigned_less [of w, where 'a = nat] by simp
  then have "length (radix base locase (unat w)) \<le> 22" using assms by (intro radix_length) auto
  then show ?thesis by (auto simp: prefix_text_def)
qed

lemma itoa_loop_run:
  "length (decimal (unat i)) \<le> room \<Longrightarrow> itoa_loop room i acc = Some (decimal (unat i) @ acc)"
proof (induction room arbitrary: i acc)
  case 0 then show ?case by (subst (asm) decimal.simps) (auto split: if_splits)
next
  case (Suc room)
  have c: "ucast (48 + i mod 10) = dec_char (unat i mod 10)"
  proof -
    have "i mod 10 = of_nat (unat i mod 10)" using unat_mod [of i 10] by (simp add: word_unat_eq_iff unat_of_nat)
    then have e: "48 + i mod 10 = of_nat (48 + unat i mod 10)" by simp
    have "ucast (of_nat a :: u64) = (of_nat a :: u8)" for a by (rule bit_word_eqI) (auto simp: bit_simps)
    then show ?thesis unfolding e dec_char_def .
  qed
  have d: "unat (i div 10) = unat i div 10" by (simp add: unat_div)
  show ?case
  proof (cases "unat i < 10")
    case True
    then have "i div 10 = 0" using d by (simp add: unat_eq_0 [symmetric] del: unat_eq_0)
    then show ?thesis using True c by (simp add: itoa_loop.simps [of "Suc room"] decimal.simps [of "unat i"] dec_char_def)
  next
    case False
    then have "0 < i div 10" using d by (simp add: word_neq_0_conv [symmetric] unat_eq_0 [symmetric] del: unat_eq_0)
    moreover have "decimal (unat i) = decimal (unat i div 10) @ [dec_char (unat i mod 10)]" using False by (subst decimal.simps) (simp add: dec_char_def)
    ultimately show ?thesis using Suc.IH [of "i div 10"] Suc.prems c d by (simp add: itoa_loop.simps [of "Suc room"] Let_def)
  qed
qed

lemma simple_itoa_decimal: "simple_itoa i = Some (decimal (unat i))"
proof -
  have "unat i < 10 ^ 21" using unsigned_less [of i, where 'a = nat] by simp
  then have "length (decimal (unat i)) \<le> 21" using radix_length [of 10 21 "unat i" 0] radix_decimal [of 0] by simp
  then show ?thesis unfolding simple_itoa_def using itoa_loop_run [of i 21 "[]"] by simp
qed

section \<open>Addresses\<close>

text \<open>The digits of a quad fit in \<^verbatim>\<open>temp\<close>, the address in \<^verbatim>\<open>ip4_addr\<close>.\<close>

lemma ip4_addr_text:
  assumes "4 \<le> length addr"
  shows "ip4_addr_string addr width precision flags
       = Some (string (Some (separated [46] (map (\<lambda>b. decimal (unat b)) (take 4 addr)))) width precision (flags AND NOT SPECIAL))"
proof -
  have q: "put_dec_trunc (ucast b) = rev (decimal (unat b))" for b :: u8
    using put_dec_trunc_decimal [of "unat b"] unsigned_less [of b, where 'a = nat] by simp
  have l: "length (decimal (unat b)) \<le> 3" for b :: u8
    using radix_length [of 10 3 "unat b" 0] unsigned_less [of b, where 'a = nat] radix_decimal [of 0] by simp
  obtain a b c d r where "addr = a # b # c # d # r"
    using assms by (cases addr; cases "tl addr"; cases "tl (tl addr)"; cases "tl (tl (tl addr))") auto
  then show ?thesis using l [of a] l [of b] l [of c] l [of d] by (simp add: ip4_addr_string_def Let_def q not_less)
qed

lemma hex_byte_radix: "hex_byte_pack b = digit_char 0x20 (unat b div 16) # [digit_char 0x20 (unat b mod 16)]"
proof -
  have h: "\<forall>d\<in>set [0..<16]. hex_asc ! d = digit_char 0x20 d" by code_simp
  have b: "unat b < 256" using unsigned_less [of b, where 'a = nat] by simp
  have n: "drop_bit 4 (b AND 0xF0) = drop_bit 4 b AND 0x0F" by (simp only: drop_bit_and) simp
  have "drop_bit 4 b = of_nat (unat b div 16)" using of_nat_drop [of "unat b" 4, where 'a = 8] b by simp
  then have hi: "unat (drop_bit 4 (b AND 0xF0)) = unat b div 16" unfolding n using b by (simp only: and_low) (simp add: unat_of_nat)
  have "b AND 0x0F = of_nat (unat b mod 16)" using and_low(4) [of "unat b", where 'a = 8] by simp
  then have lo: "unat (b AND 0x0F) = unat b mod 16" by (simp add: unat_of_nat)
  have "unat b div 16 \<in> set [0..<16]" "unat b mod 16 \<in> set [0..<16]" using b by auto
  then show ?thesis unfolding hex_byte_pack_def hi lo using h by blast
qed

section \<open>Properties\<close>

text \<open> C31. A number is printed in its field as its sign, prefix, leading zeros and digits in the base, filled to the width on the
  side the flags ask for; the fast decimal conversion by multiplications gives the same digits as division by ten, and no number
  has more digits than the temporary array has room for.
\<close>

theorem number_correct:
  assumes "base \<in> {8, 10, 16}"
  shows "number num base width precision type = number_field num base width precision type
       \<and> put_dec num = rev (decimal (unat num))
       \<and> length (number_tmp num base (case_bit type)) \<le> 66"
proof -
  have "case_bit type \<in> {0, 0x20}" by (simp add: case_bit_def)
  then have "length (number_tmp num base (case_bit type)) \<le> 24"
    using ulong_length [OF assms, of 0 "case_bit type" num] assms by (simp add: number_tmp_radix prefix_text_def)
  then show ?thesis using number_layout [OF assms] put_dec_decimal by simp
qed

theorem number_correct_witness:
  "number (- 42) 10 6 3 (SIGN OR LEFT) = [45, 48, 52, 50, 32, 32] \<and> put_dec 65536 = [54, 51, 53, 53, 54]"
proof -
  have d: "decimal 42 = [52, 50]" "decimal 65536 = [54, 53, 53, 51, 54]" by (simp_all add: decimal.simps)
  have f: "number_field (- 42) 10 6 3 (SIGN OR LEFT) = [45, 48, 52, 50, 32, 32]"
    using d radix_decimal [of 0 42]
    by (simp add: number_field_def Let_def magnitude_def sign_text_def prefix_text_def case_bit_def SIGN_def LEFT_def SMALL_def
        ZEROPAD_def SPECIAL_def numeral_2_eq_2)
  show ?thesis using number_correct [of 10 "- 42" 6 3 "SIGN OR LEFT"] number_correct [of 10 65536 0 0 0] d f by simp
qed

text \<open> C32. Printing into a buffer of a given size stores the text cut to the size, always ends it with
  a NUL, touches nothing behind it and returns the length of the whole text.  \<^verbatim>\<open>sprintf\<close>, which gives no size,
  stores the whole text when the buffer has room for it and runs over the end otherwise.
\<close>

theorem vsnprintf_correct:
  assumes "vformat dp_str 0 fmt args = Some (None, out, st)" "length out < 2 ^ 31 - 1"
    and "0 < n" "n \<le> length m" "addr + n < 2 ^ 64" "addr + 2 ^ 31 \<le> 2 ^ 64"
  shows "vsnprintf dp_str m addr n fmt args = Some (int (length out), put_seg m 0 (take (n - 1) out @ [0]), st)
       \<and> vsprintf dp_str m addr fmt args
           = (if length out < length m then Some (int (length out), put_seg m 0 (out @ [0]), st) else None)"
  using vsnprintf_run [OF assms(1,3,4,5,2)] vsprintf_run [OF assms(1) _ assms(6,2)] vsprintf_fault [OF assms(1) _ assms(6,2)]
  by (simp add: vsnprintf_def)

theorem vsnprintf_correct_witness:
  "vsnprintf (\<lambda>_. None) [1, 2, 3, 4, 5] 0 3 [37, 108, 117] [VLong 65536] = Some (5, [54, 53, 0, 4, 5], [])
   \<and> vsprintf (\<lambda>_. None) [1, 2, 3, 4, 5] 0 [37, 108, 117] [VLong 65536] = None"
proof -
  have "decimal 65536 = [54, 53, 53, 51, 54]" by (simp add: decimal.simps)
  then have f: "vformat (\<lambda>_. None) 0 [37, 108, 117] [VLong 65536] = Some (None, [54, 53, 53, 51, 54], [])"
    using ulong_text [of "[37, 108, 117]" 10 0 "\<lambda>_. None" 0 65536] radix_decimal [of 0 65536]
    by (simp add: ulong_formats_def prefix_text_def case_bit_def del: vformat.simps)
  from vsnprintf_correct [OF f, of 3 "[1, 2, 3, 4, 5]" 0] show ?thesis by (simp add: put_seg_def)
qed

text \<open> C33. Every \<^verbatim>\<open>unsigned long\<close> printed by \<^verbatim>\<open>sprintf\<close> in octal, decimal or hexadecimal, with or without
  prefix, is read back by \<^verbatim>\<open>simple_strtoul\<close> in its base, and in base 0 when the text tells the base.  25 bytes are enough.
\<close>

theorem sprintf_strtoul_roundtrip:
  assumes "(fmt, base, type) \<in> set ulong_formats" "b \<in> reads_in base type" "25 \<le> length m" "addr + 2 ^ 31 \<le> 2 ^ 64"
  shows "\<exists>n m'. vsprintf dp_str m addr fmt [VLong w] = Some (int n, m', []) \<and> simple_strtoul m' 0 b = Some (w, n)"
proof -
  define out where "out = prefix_text base type @ radix base (case_bit type) (unat w)"
  have base: "base \<in> {8, 10, 16}" using assms(1) by (auto simp: ulong_formats_def)
  have l: "length out \<le> 24" unfolding out_def by (rule ulong_length [OF base])
  have v: "vsprintf dp_str m addr fmt [VLong w] = Some (int (length out), put_seg m 0 (out @ [0]), [])"
    using vsprintf_run [OF ulong_text [OF assms(1)], of w m addr dp_str] l assms(3,4) by (simp add: out_def)
  have "0 \<notin> set (radix base (case_bit type) (unat w))"
  proof
    assume "0 \<in> set (radix base (case_bit type) (unat w))"
    then obtain d where "d < base" "0 = digit_char (case_bit type) d" using radix_chars [of base 0 "case_bit type" "unat w"] base by auto
    moreover have "case_bit type \<in> {0, 0x20}" by (simp add: case_bit_def)
    ultimately show False using digit_char_value(4) [of d "case_bit type"] base by auto
  qed
  then have "0 \<notin> set out" by (auto simp: out_def prefix_text_def case_bit_def)
  then have "cstring (put_seg m 0 (out @ [0])) 0 out" using l assms(3)
    by (simp add: cstring_def put_seg_def seg_def nth_append)
  from strtoul_ulong [OF assms(1) this [unfolded out_def] assms(2)] v show ?thesis
    by (intro exI [of _ "length out"] exI [of _ "put_seg m 0 (out @ [0])"]) (simp add: out_def)
qed

theorem sprintf_strtoul_roundtrip_witness:
  "\<exists>n m'. vsprintf (\<lambda>_. None) (replicate 25 7) 0x1000 [37, 35, 108, 120] [VLong 0xBEEF] = Some (int n, m', [])
     \<and> simple_strtoul m' 0 0 = Some (0xBEEF, n)"
  by (rule sprintf_strtoul_roundtrip [of _ 16 96]) (simp_all add: ulong_formats_def reads_in_def SPECIAL_def)

text \<open> When there is no memory for the text of a device path, \<^verbatim>\<open>vsnprintf\<close> returns the error -12 and leaves the
  buffer without a NUL; \<^verbatim>\<open>vscnprintf\<close> compares it as an unsigned number and reports a full buffer, so
  \<^verbatim>\<open>printf\<close> prints what the stack held.
\<close>

theorem vscnprintf_hides_error:
  assumes "dp_str dp = None" "dp \<noteq> 0" "0 < n" "n < 2 ^ 31"
  shows "vsnprintf dp_str m addr n [37, 112, 68] [VPtr dp bytes] = Some (- 12, m, [])
       \<and> vscnprintf dp_str m addr n [37, 112, 68] [VPtr dp bytes] = Some (int n - 1, m, [])"
proof -
  have "vformat dp_str 0 [37, 112, 68] [VPtr dp bytes] = Some (Some (- 12), [], [])"
    using assms(1,2) by (simp add: format_defs pointer_def device_path_string_def ENOMEM_code_def)
  moreover have "(- 12 :: int) mod 2 ^ 64 = 18446744073709551604" by simp
  ultimately show ?thesis using assms(3,4) as_int_small [of "n - 1"]
    by (auto simp: vscnprintf_def vsnprintf_def vsnprintf_internal_def to_size_def Let_def of_nat_diff)
qed

theorem vscnprintf_hides_error_witness:
  "vscnprintf (\<lambda>_. None) [115, 116, 97, 99, 107] 0 5 [37, 112, 68] [VPtr 1 []] = Some (4, [115, 116, 97, 99, 107], [])"
  using vscnprintf_hides_error [of "\<lambda>_. None" 1 5 "[115, 116, 97, 99, 107]" 0 "[]"] by simp

end
