(* ===== verification/Env_Cmd.thy ===== *)
theory Env_Cmd
  imports Env_Store Vsprintf
begin

text \<open>
  The commands on the environment and the functions other code reads and writes it with: \<^verbatim>\<open>cmd/nvedit.c\<close>, and
  \<^verbatim>\<open>env_get_yesno\<close> and \<^verbatim>\<open>env_get_default\<close> of \<^verbatim>\<open>env/common.c\<close>, \<^verbatim>\<open>env_get_char\<close> of \<^verbatim>\<open>env/env.c\<close>.

  The arguments of a command are the texts from \<^verbatim>\<open>argv[0]\<close> on, so \<^verbatim>\<open>argc\<close> is the length of the list, and reading
  through \<^verbatim>\<open>argv[argc]\<close>, a null pointer, is \<^const>\<open>None\<close>.  The commands that print variables return what they print; other
  messages on the console are left out.  Physical memory is a list of bytes from address 0 on.
\<close>

unbundle bit_operations_syntax

section \<open>Reading variables\<close>

text \<open>The environment with \<^verbatim>\<open>gd->env_buf\<close> and the counter \<^verbatim>\<open>env_id\<close>.\<close>

record cmd_state =
  env_st :: env_state
  env_buf :: "u8 list"
  env_id :: int

definition CMD_RET_USAGE :: int where "CMD_RET_USAGE = - 1"
definition H_PROGRAMMATIC :: int where "H_PROGRAMMATIC = 512"
definition H_MATCH_BOTH :: int where "H_MATCH_BOTH = H_MATCH_KEY OR H_MATCH_DATA"
definition MAX_ENV_SIZE :: nat where "MAX_ENV_SIZE = 0x100000"
definition CONFIG_SYS_CBSIZE :: nat where "CONFIG_SYS_CBSIZE = 512"

abbreviation htab_of :: "cmd_state \<Rightarrow> hsearch_data" where
  "htab_of st \<equiv> env_htab (env_st st)"

definition set_htab :: "hsearch_data \<Rightarrow> cmd_state \<Rightarrow> cmd_state" where
  "set_htab h st = st\<lparr>env_st := (env_st st)\<lparr>env_htab := h\<rparr>\<rparr>"

definition get_env_id :: "cmd_state \<Rightarrow> int" where
  "get_env_id st = env_id st"

text \<open>The bytes that \<^verbatim>\<open>env_get_char\<close> reads.\<close>

definition env_chars :: "env_cfg \<Rightarrow> cmd_state \<Rightarrow> u8 list" where
  "env_chars cfg st = (if env_valid (env_st st) = ENV_INVALID then default_environment cfg else env_addr (env_st st))"

definition env_get_char :: "env_cfg \<Rightarrow> cmd_state \<Rightarrow> nat \<Rightarrow> u8 option" where
  "env_get_char cfg st index = rd (env_chars cfg st) index"

text \<open>Going on behind the end of the name is \<^const>\<open>None\<close>.\<close>

fun envmatch :: "ctext \<Rightarrow> u8 list \<Rightarrow> nat \<Rightarrow> int option" where
  "envmatch [] env i2 = do { c \<leftarrow> rd env i2; if c = 0 then None else Some (if c = 61 then int i2 + 1 else - 1) }"
| "envmatch (x # xs) env i2 =
     do { c \<leftarrow> rd env i2; if x = c then (if x = 61 then Some (int i2 + 1) else envmatch xs env (i2 + 1)) else Some (- 1) }"

text \<open>The end of an entry; \<open>Inl\<close> leaves with the value of the function.\<close>

function entry_end :: "u8 list \<Rightarrow> nat \<Rightarrow> (int + nat) option" where
  "entry_end env nxt =
     (if nxt \<ge> length env then None
      else if env ! nxt = 0 then Some (Inr nxt)
      else if nxt \<ge> CONFIG_ENV_SIZE then Some (Inl (- 1))
      else entry_end env (nxt + 1))"
  by pat_completeness auto
termination by (relation "measure (\<lambda>(env, nxt). length env - nxt)") auto

declare entry_end.simps [simp del]

text \<open>Copying the value out, with \<open>len\<close> bytes left in the buffer.\<close>

fun copy_value :: "u8 list \<Rightarrow> nat \<Rightarrow> nat \<Rightarrow> nat \<Rightarrow> mem \<Rightarrow> (nat \<times> mem) option" where
  "copy_value env val n 0 buf = (if n > 0 then do { buf' \<leftarrow> wr buf (n - 1) 0; Some (n, buf') } else Some (n, buf))"
| "copy_value env val n (Suc len) buf =
     do { c \<leftarrow> rd env val; buf' \<leftarrow> wr buf n c; if c = 0 then Some (n, buf') else copy_value env (val + 1) (n + 1) len buf' }"

lemma entry_end_le: "entry_end env i = Some (Inr nxt) \<Longrightarrow> i \<le> nxt \<and> nxt < length env"
proof (induction env i rule: entry_end.induct)
  case (1 env i)
  then show ?case by (subst (asm) (2) entry_end.simps) (auto split: if_splits)
qed

function env_get_f_loop :: "ctext \<Rightarrow> u8 list \<Rightarrow> nat \<Rightarrow> nat \<Rightarrow> mem \<Rightarrow> (int \<times> mem) option" where
  "env_get_f_loop name env i len buf =
     (if i \<ge> length env then None
      else if env ! i = 0 then Some (- 1, buf)
      else case entry_end env i of
             None \<Rightarrow> None
           | Some (Inl r) \<Rightarrow> Some (r, buf)
           | Some (Inr nxt) \<Rightarrow>
               (case envmatch name env i of
                  None \<Rightarrow> None
                | Some val \<Rightarrow>
                    if val < 0 then env_get_f_loop name env (nxt + 1) len buf
                    else do { (n, buf') \<leftarrow> copy_value env (nat val) 0 len buf; Some (int n, buf') }))"
  by pat_completeness auto
termination
  by (relation "measure (\<lambda>(_, env, i, _). length env - i)") (auto dest: entry_end_le)

declare env_get_f_loop.simps [simp del]

definition env_get_f :: "env_cfg \<Rightarrow> ctext \<Rightarrow> mem \<Rightarrow> nat \<Rightarrow> cmd_state \<Rightarrow> (int \<times> mem) option" where
  "env_get_f cfg name buf len st = env_get_f_loop name (env_chars cfg st) 0 len buf"

text \<open>The text returned is in the table or in \<^verbatim>\<open>env_buf\<close>.\<close>

definition env_get :: "env_cfg \<Rightarrow> ctext \<Rightarrow> cmd_state \<Rightarrow> (ctext option \<times> cmd_state) option" where
  "env_get cfg name st =
     (if env_ready (env_st st)
      then do { (_, _, ep, _) \<leftarrow> hsearch_r (env_hk cfg) name None FIND (htab_of st) 0;
                case ep of None \<Rightarrow> Some (None, st)
                | Some i \<Rightarrow> do { e \<leftarrow> slot (htab_of st) i; Some (data e, st) } }
      else do { (r, buf) \<leftarrow> env_get_f cfg name (env_buf st) (length (env_buf st)) st;
                if r > 0 then do { t \<leftarrow> text_at buf; Some (Some t, st\<lparr>env_buf := buf\<rparr>) }
                else Some (None, st\<lparr>env_buf := buf\<rparr>) })"

definition env_get_default :: "env_cfg \<Rightarrow> ctext \<Rightarrow> cmd_state \<Rightarrow> (ctext option \<times> cmd_state) option" where
  "env_get_default cfg name st =
     do { (r, st1) \<leftarrow> env_get cfg name (st\<lparr>env_st := (env_st st)\<lparr>env_ready := False, env_valid := ENV_INVALID\<rparr>\<rparr>);
          Some (r, st1\<lparr>env_st := (env_st st1)\<lparr>env_valid := env_valid (env_st st), env_ready := env_ready (env_st st)\<rparr>\<rparr>) }"

definition env_get_yesno :: "env_cfg \<Rightarrow> ctext \<Rightarrow> cmd_state \<Rightarrow> (int \<times> cmd_state) option" where
  "env_get_yesno cfg var st =
     do { (s, st1) \<leftarrow> env_get cfg var st;
          Some (case s of None \<Rightarrow> - 1
                | Some t \<Rightarrow> if t \<noteq> [] \<and> hd t \<in> {49, 121, 89, 116, 84} then 1 else 0, st1) }"

text \<open>\<^verbatim>\<open>simple_strtoul\<close> on a text: the value and the number of characters read.\<close>

definition strtoul_text :: "ctext \<Rightarrow> nat \<Rightarrow> (u64 \<times> nat) option" where
  "strtoul_text t base = simple_strtoul (t @ [0]) 0 base"

definition env_get_ulong :: "env_cfg \<Rightarrow> ctext \<Rightarrow> nat \<Rightarrow> u64 \<Rightarrow> cmd_state \<Rightarrow> (u64 \<times> cmd_state) option" where
  "env_get_ulong cfg name base default_val st =
     do { (str, st1) \<leftarrow> env_get cfg name st;
          case str of None \<Rightarrow> Some (default_val, st1)
          | Some t \<Rightarrow> do { (v, _) \<leftarrow> strtoul_text t base; Some (v, st1) } }"

definition env_get_hex :: "env_cfg \<Rightarrow> ctext \<Rightarrow> u64 \<Rightarrow> cmd_state \<Rightarrow> (u64 \<times> cmd_state) option" where
  "env_get_hex cfg varname default_val st =
     do { (s, st1) \<leftarrow> env_get cfg varname st;
          case s of None \<Rightarrow> Some (default_val, st1)
          | Some t \<Rightarrow> do { (v, endp) \<leftarrow> strtoul_text t 16; Some (if endp = 0 then default_val else v, st1) } }"

text \<open>\<open>n\<close> bytes are left to parse; the rest of the text is \<open>addr\<close>.\<close>

fun enetaddr_bytes :: "nat \<Rightarrow> ctext option \<Rightarrow> u8 list option" where
  "enetaddr_bytes 0 addr = Some []"
| "enetaddr_bytes (Suc n) None = do { r \<leftarrow> enetaddr_bytes n None; Some (0 # r) }"
| "enetaddr_bytes (Suc n) (Some t) =
     do { (v, e) \<leftarrow> strtoul_text t 16;
          r \<leftarrow> enetaddr_bytes n (Some (if e < length t then drop (e + 1) t else drop e t));
          Some (ucast v # r) }"

definition eth_parse_enetaddr :: "ctext option \<Rightarrow> u8 list option" where
  "eth_parse_enetaddr addr = enetaddr_bytes 6 addr"

definition is_zero_ethaddr :: "u8 list \<Rightarrow> bool" where
  "is_zero_ethaddr addr \<longleftrightarrow> fold (OR) (take 6 addr) 0 = 0"

definition is_multicast_ethaddr :: "u8 list \<Rightarrow> bool" where
  "is_multicast_ethaddr addr \<longleftrightarrow> 1 AND (addr ! 0) \<noteq> 0"

definition is_broadcast_ethaddr :: "u8 list \<Rightarrow> bool" where
  "is_broadcast_ethaddr addr \<longleftrightarrow> fold (AND) (take 6 addr) (- 1) = 0xFF"

definition is_valid_ethaddr :: "u8 list \<Rightarrow> bool" where
  "is_valid_ethaddr addr \<longleftrightarrow> \<not> is_multicast_ethaddr addr \<and> \<not> is_zero_ethaddr addr"

text \<open>The result, the address and the state.\<close>

definition eth_env_get_enetaddr :: "env_cfg \<Rightarrow> ctext \<Rightarrow> cmd_state \<Rightarrow> (bool \<times> u8 list \<times> cmd_state) option" where
  "eth_env_get_enetaddr cfg name st =
     do { (s, st1) \<leftarrow> env_get cfg name st;
          addr \<leftarrow> eth_parse_enetaddr s;
          Some (is_valid_ethaddr addr, addr, st1) }"

section \<open>Printing variables\<close>

text \<open>\<^verbatim>\<open>printf\<close>: the value it returns and the text it prints.\<close>

definition print_text :: "ctext \<Rightarrow> va list \<Rightarrow> (int \<times> u8 list) option" where
  "print_text fmt args = printf (\<lambda>_. None) (replicate CONFIG_SYS_PBSIZE 0) 0 fmt args"

definition env_print :: "env_cfg \<Rightarrow> ctext option \<Rightarrow> int \<Rightarrow> cmd_state \<Rightarrow> (int \<times> u8 list) option" where
  "env_print cfg name flag st =
     (case name of
        Some k \<Rightarrow>
          do { (_, _, ep, _) \<leftarrow> hsearch_r (env_hk cfg) k None FIND (htab_of st) flag;
               case ep of None \<Rightarrow> Some (0, [])
               | Some i \<Rightarrow> do { e \<leftarrow> slot (htab_of st) i;
                                print_text [37, 115, 61, 37, 115, 10] [VStr (key e), VStr (data e)] } }
      | None \<Rightarrow>
          do { (len, _, res) \<leftarrow> hexport_r (env_re cfg) (malloc_ok cfg) (htab_of st) 10 flag None 0 [];
               if len > 0 then do { r \<leftarrow> res; t \<leftarrow> text_at r; Some (len, t) }
               else do { (_, t) \<leftarrow> print_text (map of_char ''## Error: cannot export environment'' @ [10]) []; Some (0, t) } })"

fun print_selected :: "env_cfg \<Rightarrow> ctext list \<Rightarrow> int \<Rightarrow> cmd_state \<Rightarrow> (int \<times> u8 list) option" where
  "print_selected cfg [] env_flag st = Some (0, [])"
| "print_selected cfg (name # names) env_flag st =
     do { (rc, t) \<leftarrow> env_print cfg (Some name) env_flag st;
          (_, msg) \<leftarrow> (if rc = 0 then print_text (map of_char ''## Error: '' @ [34, 37, 115, 34] @ map of_char '' not defined'' @ [10]) [VStr (Some name)]
                       else Some (0, []));
          (rcode, r) \<leftarrow> print_selected cfg names env_flag st;
          Some ((if rc = 0 then 1 else 0) + rcode, t @ msg @ r) }"

definition do_env_print :: "env_cfg \<Rightarrow> ctext list \<Rightarrow> cmd_state \<Rightarrow> (int \<times> u8 list) option" where
  "do_env_print cfg argv st =
     (let all = (length argv > 1 \<and> take 2 (argv ! 1) = [45, 97]);
          names = drop (if all then 2 else 1) argv
      in if names = [] then
           do { (rcode, t) \<leftarrow> env_print cfg None (if all then H_HIDE_DOT AND NOT H_HIDE_DOT else H_HIDE_DOT) st;
                if rcode = 0 then Some (1, t)
                else do { (_, msg) \<leftarrow> print_text (10 # map of_char ''Environment size: %d/%ld bytes'' @ [10])
                                        [VInt (word_of_int rcode), VLong (of_nat (ENV_SIZE cfg))];
                          Some (0, t @ msg) } }
         else print_selected cfg names (H_HIDE_DOT AND NOT H_HIDE_DOT) st)"

section \<open>Options of commands\<close>

text \<open>A character of an option leaves the command with a value, leaves the loop over the options, or is taken.\<close>

datatype 's opt = Ret int | Done 's | Go 's

fun option_chars :: "(u8 \<Rightarrow> 's \<Rightarrow> 's opt) \<Rightarrow> ctext \<Rightarrow> 's \<Rightarrow> 's opt" where
  "option_chars f [] s = Go s"
| "option_chars f (c # cs) s = (case f c s of Ret r \<Rightarrow> Ret r | Done s' \<Rightarrow> Done s' | Go s' \<Rightarrow> option_chars f cs s')"

text \<open>The loop over the arguments that start with a dash, and the arguments it leaves.\<close>

fun options :: "(u8 \<Rightarrow> 's \<Rightarrow> 's opt) \<Rightarrow> ctext list \<Rightarrow> 's \<Rightarrow> int + 's \<times> ctext list" where
  "options f [] s = Inr (s, [])"
| "options f (arg # args) s =
     (if arg \<noteq> [] \<and> hd arg = 45
      then (case option_chars f (tl arg) s of
              Ret r \<Rightarrow> Inl r | Done s' \<Rightarrow> Inr (s', arg # args) | Go s' \<Rightarrow> options f args s')
      else Inr (s, arg # args))"

definition force_option :: "u8 \<Rightarrow> int \<Rightarrow> int opt" where
  "force_option c env_flag = (if c = 102 then Go (env_flag OR H_FORCE) else Ret CMD_RET_USAGE)"

definition grep_option :: "u8 \<Rightarrow> int \<times> int \<Rightarrow> (int \<times> int) opt" where
  "grep_option c s =
     (case s of (grep_how, grep_what) \<Rightarrow>
        if c = 101 then Go (H_MATCH_REGEX, grep_what)
        else if c = 110 then Go (grep_how, H_MATCH_KEY)
        else if c = 118 then Go (grep_how, H_MATCH_DATA)
        else if c = 98 then Go (grep_how, H_MATCH_BOTH)
        else if c = 45 then Done s
        else Ret CMD_RET_USAGE)"

definition do_env_grep :: "env_cfg \<Rightarrow> int \<Rightarrow> ctext list \<Rightarrow> cmd_state \<Rightarrow> (int \<times> u8 list) option" where
  "do_env_grep cfg flag argv st =
     (if length argv < 2 then Some (CMD_RET_USAGE, [])
      else case options grep_option (tl argv) (H_MATCH_SUBSTR, H_MATCH_BOTH) of
             Inl r \<Rightarrow> Some (r, [])
           | Inr ((grep_how, grep_what), args) \<Rightarrow>
               do { (len, _, res) \<leftarrow> hexport_r (env_re cfg) (malloc_ok cfg) (htab_of st) 10 ((flag OR grep_what) OR grep_how) None 0 args;
                    t \<leftarrow> (if len > 0 then do { r \<leftarrow> res; text_at r } else Some []);
                    Some (if len < 2 then 1 else 0, t) })"

section \<open>Changing variables\<close>

text \<open>Each argument is copied and followed by a blank; the last blank becomes the NUL.\<close>

definition join_args :: "ctext list \<Rightarrow> ctext" where
  "join_args args = butlast (concat (map (\<lambda>a. a @ [32]) args))"

definition do_env_set_args :: "env_cfg \<Rightarrow> ctext list \<Rightarrow> int \<Rightarrow> cmd_state \<Rightarrow> (int \<times> cmd_state) option" where
  "do_env_set_args cfg argv env_flag0 st =
     (case options force_option (tl argv) env_flag0 of
        Inl r \<Rightarrow> Some (r, st)
      | Inr (env_flag, []) \<Rightarrow> None
      | Inr (env_flag, name # args) \<Rightarrow>
          if 61 \<in> set name then Some (1, st)
          else let st1 = st\<lparr>env_id := env_id st + 1\<rparr>
               in if args = [] then
                    do { (rc, _, h) \<leftarrow> hdelete_r (env_hk cfg) name (htab_of st) env_flag;
                         Some (if rc = 0 then 1 else 0, set_htab h st1) }
                  else if \<not> malloc_ok cfg then Some (1, st1)
                  else do { (_, _, ep, h) \<leftarrow> hsearch_r (env_hk cfg) name (Some (join_args args)) ENTER (htab_of st) env_flag;
                            Some (if ep = None then 1 else 0, set_htab h st1) })"

definition setenv_text :: ctext where "setenv_text = [115, 101, 116, 101, 110, 118]"

text \<open>With an empty value \<^verbatim>\<open>argc\<close> is 2, but \<^verbatim>\<open>argv[2]\<close> is still the empty text, which becomes the name when the name is an option.\<close>

definition env_set :: "env_cfg \<Rightarrow> ctext \<Rightarrow> ctext option \<Rightarrow> cmd_state \<Rightarrow> (int \<times> cmd_state) option" where
  "env_set cfg varname varvalue st =
     (if \<not> env_ready (env_st st) then Some (1, st)
      else case varvalue of
             None \<Rightarrow> do_env_set_args cfg [setenv_text, varname] H_PROGRAMMATIC st
           | Some v \<Rightarrow> if v = [] then do_env_set_args cfg (setenv_text # (if varname \<noteq> [] \<and> hd varname = 45 then [varname, v] else [varname])) H_PROGRAMMATIC st
                      else do_env_set_args cfg [setenv_text, varname, v] H_PROGRAMMATIC st)"

definition env_set_ulong :: "env_cfg \<Rightarrow> ctext \<Rightarrow> u64 \<Rightarrow> cmd_state \<Rightarrow> (int \<times> cmd_state) option" where
  "env_set_ulong cfg varname value st = do { str \<leftarrow> simple_itoa value; env_set cfg varname (Some str) st }"

text \<open>The text that \<^verbatim>\<open>sprintf\<close> leaves in a local array of \<open>n\<close> bytes.\<close>

definition sprintf_text :: "nat \<Rightarrow> ctext \<Rightarrow> va list \<Rightarrow> ctext option" where
  "sprintf_text n fmt args = do { (_, m, _) \<leftarrow> vsprintf (\<lambda>_. None) (replicate n 0) 0 fmt args; text_at m }"

definition env_set_hex :: "env_cfg \<Rightarrow> ctext \<Rightarrow> u64 \<Rightarrow> cmd_state \<Rightarrow> (int \<times> cmd_state) option" where
  "env_set_hex cfg varname value st =
     do { str \<leftarrow> sprintf_text 17 [37, 108, 120] [VLong value]; env_set cfg varname (Some str) st }"

definition E_EXIST :: int where "E_EXIST = 17"

definition eth_env_set_enetaddr :: "env_cfg \<Rightarrow> ctext \<Rightarrow> u8 list \<Rightarrow> cmd_state \<Rightarrow> (int \<times> cmd_state) option" where
  "eth_env_set_enetaddr cfg name enetaddr st =
     do { (present, _, st1) \<leftarrow> eth_env_get_enetaddr cfg name st;
          if present then Some (- E_EXIST, st1)
          else do { buf \<leftarrow> sprintf_text 18 [37, 112, 77] [VPtr 1 enetaddr]; env_set cfg name (Some buf) st1 } }"

definition do_env_set :: "env_cfg \<Rightarrow> ctext list \<Rightarrow> cmd_state \<Rightarrow> (int \<times> cmd_state) option" where
  "do_env_set cfg argv st =
     (if length argv < 2 then Some (CMD_RET_USAGE, st) else do_env_set_args cfg argv H_INTERACTIVE st)"

text \<open>\<open>readline\<close> is \<^verbatim>\<open>cli_readline_into_buffer\<close>: from the text in the buffer, the value it returns and the new text.\<close>

definition do_env_edit :: "env_cfg \<Rightarrow> (ctext \<Rightarrow> int \<times> ctext) \<Rightarrow> ctext list \<Rightarrow> cmd_state \<Rightarrow> (int \<times> cmd_state) option" where
  "do_env_edit cfg readline argv st =
     (if length argv < 2 then Some (CMD_RET_USAGE, st)
      else if \<not> env_ready (env_st st) then Some (1, st)
      else do { (init_val, st1) \<leftarrow> env_get cfg (argv ! 1) st;
                buffer \<leftarrow> (case init_val of None \<Rightarrow> Some []
                           | Some v \<Rightarrow> do { (_, m, _) \<leftarrow> vsnprintf (\<lambda>_. None) (replicate CONFIG_SYS_CBSIZE 0) 0 CONFIG_SYS_CBSIZE
                                                          [37, 115] [VStr (Some v)]; text_at m });
                let (ret, edited) = readline buffer;
                if ret < 0 then Some (1, st1)
                else if edited = [] then do_env_set_args cfg [setenv_text, argv ! 1] H_INTERACTIVE st1
                else do_env_set_args cfg [setenv_text, argv ! 1, edited] H_INTERACTIVE st1 })"

text \<open>\<open>drvs\<close> are the drivers of the storage, as \<^const>\<open>env_save\<close> takes them.\<close>

definition do_env_save :: "(env_state \<times> 'f) env_driver list \<Rightarrow> cmd_state \<times> 'f \<Rightarrow> (int \<times> cmd_state \<times> 'f) option" where
  "do_env_save drvs w =
     do { (ret, st, f) \<leftarrow> env_save drvs (env_st (fst w), snd w);
          Some (if ret \<noteq> 0 then 1 else 0, (fst w)\<lparr>env_st := st\<rparr>, f) }"

definition default_option :: "u8 \<Rightarrow> bool \<times> int \<Rightarrow> (bool \<times> int) opt" where
  "default_option c s =
     (case s of (all, env_flag) \<Rightarrow>
        if c = 97 then Go (True, env_flag) else if c = 102 then Go (all, env_flag OR H_FORCE) else Ret 1)"

definition do_env_default :: "env_cfg \<Rightarrow> ctext list \<Rightarrow> cmd_state \<Rightarrow> (int \<times> cmd_state) option" where
  "do_env_default cfg argv st =
     (case options default_option (tl argv) (False, H_INTERACTIVE) of
        Inl r \<Rightarrow> Some (r, st)
      | Inr ((all, env_flag), args) \<Rightarrow>
          if all \<and> args = [] then do { e \<leftarrow> set_default_env cfg env_flag (env_st st); Some (0, st\<lparr>env_st := e\<rparr>) }
          else if \<not> all \<and> args \<noteq> [] then do { (_, e) \<leftarrow> set_default_vars cfg args env_flag (env_st st); Some (0, st\<lparr>env_st := e\<rparr>) }
          else Some (1, st))"

fun delete_all :: "env_cfg \<Rightarrow> int \<Rightarrow> ctext list \<Rightarrow> hsearch_data \<Rightarrow> (int \<times> hsearch_data) option" where
  "delete_all cfg env_flag [] h = Some (0, h)"
| "delete_all cfg env_flag (name # names) h =
     do { (rc, _, h1) \<leftarrow> hdelete_r (env_hk cfg) name h env_flag;
          (ret, h2) \<leftarrow> delete_all cfg env_flag names h1;
          Some (if rc = 0 then 1 else ret, h2) }"

definition do_env_delete :: "env_cfg \<Rightarrow> ctext list \<Rightarrow> cmd_state \<Rightarrow> (int \<times> cmd_state) option" where
  "do_env_delete cfg argv st =
     (case options force_option (tl argv) H_INTERACTIVE of
        Inl r \<Rightarrow> Some (r, st)
      | Inr (env_flag, names) \<Rightarrow>
          do { (ret, h) \<leftarrow> delete_all cfg env_flag names (htab_of st);
               Some (ret, set_htab h (st\<lparr>env_id := env_id st + 1\<rparr>)) })"

definition do_env_exists :: "env_cfg \<Rightarrow> ctext list \<Rightarrow> cmd_state \<Rightarrow> int option" where
  "do_env_exists cfg argv st =
     (if length argv < 2 then Some CMD_RET_USAGE
      else do { (_, _, ep, _) \<leftarrow> hsearch_r (env_hk cfg) (argv ! 1) None FIND (htab_of st) 0;
                Some (if ep = None then 1 else 0) })"

section \<open>Import and export commands\<close>

record import_opts =
  opt_sep :: u8
  opt_chk :: bool
  opt_fmt :: nat
  opt_del :: bool
  opt_crlf :: bool

definition format_option :: "u8 \<Rightarrow> bool \<Rightarrow> import_opts \<Rightarrow> import_opts opt" where
  "format_option sep chk s =
     (if opt_fmt s \<noteq> 0 then Ret 1
      else Go (s\<lparr>opt_fmt := opt_fmt s + 1, opt_sep := sep, opt_chk := opt_chk s \<or> chk\<rparr>))"

definition import_option :: "u8 \<Rightarrow> import_opts \<Rightarrow> import_opts opt" where
  "import_option c s =
     (if c = 98 then format_option 0 False s
      else if c = 99 then format_option 0 True s
      else if c = 116 then format_option 10 False s
      else if c = 114 then Go (s\<lparr>opt_crlf := True\<rparr>)
      else if c = 100 then Go (s\<lparr>opt_del := True\<rparr>)
      else Ret CMD_RET_USAGE)"

definition import_opts0 :: import_opts where
  "import_opts0 = \<lparr>opt_sep = 10, opt_chk = False, opt_fmt = 0, opt_del = False, opt_crlf = False\<rparr>"

text \<open>The search for the end of the data when no size is given.\<close>

function import_size :: "mem \<Rightarrow> nat \<Rightarrow> u8 \<Rightarrow> nat \<Rightarrow> nat option" where
  "import_size m s sep n =
     (if n < MAX_ENV_SIZE then
        do { c \<leftarrow> rd m s;
             stop \<leftarrow> (if c = sep then do { d \<leftarrow> rd m (s + 1); Some (d = 0) } else Some False);
             if stop then Some n else import_size m (s + 1) sep (n + 1) }
      else Some n)"
  by pat_completeness auto
termination by (relation "measure (\<lambda>(m, s, sep, n). MAX_ENV_SIZE - n)") auto

declare import_size.simps [simp del]

text \<open>The size of the data, or \<open>Inl\<close> the value the command returns.\<close>

definition import_length :: "mem \<Rightarrow> nat \<Rightarrow> import_opts \<Rightarrow> ctext list \<Rightarrow> (int + nat) option" where
  "import_length m ptr s args =
     (if length args \<ge> 2 \<and> args ! 1 \<noteq> [45]
      then do { (v, _) \<leftarrow> strtoul_text (args ! 1) 16; Some (Inr (unat v)) }
      else if opt_chk s then Some (Inl 1)
      else do { n \<leftarrow> import_size m ptr (opt_sep s) 0; Some (Inr (n + 2)) })"

definition do_env_import :: "env_cfg \<Rightarrow> mem \<Rightarrow> ctext list \<Rightarrow> cmd_state \<Rightarrow> (int \<times> cmd_state) option" where
  "do_env_import cfg m argv st =
     (case options import_option (tl argv) import_opts0 of
        Inl r \<Rightarrow> Some (r, st)
      | Inr (s, []) \<Rightarrow> Some (CMD_RET_USAGE, st)
      | Inr (s, a # args) \<Rightarrow>
          do { let crlf_is_lf = (opt_sep s = 10 \<and> opt_crlf s);
               (addr, _) \<leftarrow> strtoul_text a 16;
               let ptr = unat addr;
               r \<leftarrow> import_length m ptr s (a # args);
               case r of
                 Inl e \<Rightarrow> Some (e, st)
               | Inr n \<Rightarrow>
                   do { let hdr = (if opt_chk s then ENV_HEADER_SIZE cfg else 0);
                        let len = n - hdr;
                        if opt_chk s \<and> (n < hdr \<or> length m < ptr + n) then None
                        else if opt_chk s \<and> crc32 (ptr + hdr) 0 (seg m (ptr + hdr) (len mod 2 ^ 32)) \<noteq> stored_crc (drop ptr m) then Some (1, st)
                        else do { (ok, _, h) \<leftarrow> himport_r (env_hk cfg) (himport_malloc_ok cfg) (himport_calloc_ok cfg) (htab_of st)
                                                 (drop (ptr + hdr) m) len (opt_sep s) (if opt_del s then 0 else H_NOCLEAR) crlf_is_lf (drop 1 args);
                                  if ok = 0 then Some (1, set_htab h st)
                                  else Some (0, st\<lparr>env_st := (env_st st)\<lparr>env_htab := h, env_ready := True\<rparr>\<rparr>) } } })"

text \<open>The options of export: \<^verbatim>\<open>-s\<close> takes the next argument and leaves the rest of its own one.\<close>

fun export_chars :: "ctext \<Rightarrow> import_opts \<Rightarrow> import_opts opt" where
  "export_chars [] s = Go s"
| "export_chars (c # cs) s =
     (if c = 115 then Done s
      else case (if c = 98 then format_option 0 False s
                 else if c = 99 then format_option 0 True s
                 else if c = 116 then format_option 10 False s
                 else Ret CMD_RET_USAGE)
           of Ret r \<Rightarrow> Ret r | Done s' \<Rightarrow> Done s' | Go s' \<Rightarrow> export_chars cs s')"

fun export_options :: "ctext list \<Rightarrow> import_opts \<Rightarrow> u64 \<Rightarrow> (int + import_opts \<times> u64 \<times> ctext list) option" where
  "export_options [] s n = Some (Inr (s, n, []))"
| "export_options (arg # args) s n =
     (if arg \<noteq> [] \<and> hd arg = 45
      then (case export_chars (tl arg) s of
              Ret r \<Rightarrow> Some (Inl r)
            | Go s' \<Rightarrow> export_options args s' n
            | Done s' \<Rightarrow> (case args of [] \<Rightarrow> Some (Inl 1)
                          | a # args' \<Rightarrow> do { (v, _) \<leftarrow> strtoul_text a 16; export_options args' s' v }))
      else Some (Inr (s, n, arg # args)))"

definition write_mem :: "mem \<Rightarrow> nat \<Rightarrow> u8 list \<Rightarrow> mem" where
  "write_mem m p bs = take p m @ bs"

text \<open>The value, the memory and the state.\<close>

definition do_env_export :: "env_cfg \<Rightarrow> mem \<Rightarrow> ctext list \<Rightarrow> cmd_state \<Rightarrow> (int \<times> mem \<times> cmd_state) option" where
  "do_env_export cfg m argv st =
     do { o1 \<leftarrow> export_options (tl argv) import_opts0 0;
          case o1 of
            Inl r \<Rightarrow> Some (r, m, st)
          | Inr (s, n, []) \<Rightarrow> Some (CMD_RET_USAGE, m, st)
          | Inr (s, n, a # args) \<Rightarrow>
              do { (addr, _) \<leftarrow> strtoul_text a 16;
                   let ptr = unat addr;
                   m0 \<leftarrow> (if n \<noteq> 0 then map_option (write_mem m ptr) (clear_bytes (drop ptr m) (unat n)) else Some m);
                   if opt_sep s \<noteq> 0 then
                     do { (len, _, res) \<leftarrow> hexport_r (env_re cfg) True (htab_of st) (opt_sep s) (H_MATCH_KEY OR H_MATCH_IDENT)
                                             (Some (drop ptr m0)) (unat n) args;
                          if len < 0 then Some (1, m0, st)
                          else do { b \<leftarrow> res;
                                    buf \<leftarrow> sprintf_text 32 [37, 122, 88] [VLong (word_of_int len)];
                                    (_, st1) \<leftarrow> env_set cfg (map of_char ''filesize'') (Some buf) st;
                                    Some (0, write_mem m0 ptr b, st1) } }
                   else
                     do { let hdr = (if opt_chk s then ENV_HEADER_SIZE cfg else 0);
                          (len, _, res) \<leftarrow> hexport_r (env_re cfg) True (htab_of st) 0 (H_MATCH_KEY OR H_MATCH_IDENT)
                                             (Some (drop (ptr + hdr) m0)) (ENV_SIZE cfg) args;
                          if len < 0 then Some (1, m0, st)
                          else do { b \<leftarrow> res;
                                    let m1 = write_mem m0 (ptr + hdr) b;
                                    let m2 = (if opt_chk s then put_seg m1 ptr (crc_bytes (crc32 (ptr + hdr) 0 (take (ENV_SIZE cfg) b))) else m1);
                                    (_, st1) \<leftarrow> env_set_hex cfg (map of_char ''filesize'') (word_of_int len + of_nat (ENV_HEADER_SIZE cfg)) st;
                                    Some (0, m2, st1) } } } }"

section \<open>The environment in the table\<close>

text \<open>What the commands need of the state: a table that is in order, with room for a variable, and memory.\<close>

definition cmd_ok :: "env_cfg \<Rightarrow> cmd_state \<Rightarrow> bool" where
  "cmd_ok cfg st \<longleftrightarrow> env_ready (env_st st) \<and> htab_ok (htab_of st) \<and> 0 < never_used (htab_of st) \<and> copies (env_hk cfg) \<and> malloc_ok cfg"

definition vars_of :: "cmd_state \<Rightarrow> ctext \<rightharpoonup> ctext" where
  "vars_of st = htab_map (htab_of st)"

lemma set_htab_simps [simp]:
  "htab_of (set_htab h st) = h" "env_ready (env_st (set_htab h st)) = env_ready (env_st st)" "env_id (set_htab h st) = env_id st"
  "env_buf (set_htab h st) = env_buf st"
  by (simp_all add: set_htab_def)

lemma env_get_ready:
  assumes "env_ready (env_st st)" "htab_ok (htab_of st)"
  shows "env_get cfg name st = Some (vars_of st name, st)"
proof (cases "htab_map (htab_of st) name")
  case None then show ?thesis using assms find_absent [OF assms(2) None] by (simp add: env_get_def vars_of_def)
next
  case (Some d)
  from find_present [OF assms(2) Some, of "env_hk cfg" None 0] obtain i e where
    "hsearch_r (env_hk cfg) name None FIND (htab_of st) 0 = Some (int i, None, Some i, htab_of st)"
    "slot (htab_of st) i = Some e" "data e = Some d" by blast
  then show ?thesis using assms Some by (simp add: env_get_def vars_of_def)
qed

text \<open>A search leaves an error exactly when it leaves no entry.\<close>

lemma compare_error:
  "compare_and_overwrite_entry hk k d act h flag hv idx = Some (Some (r, err, rv, h')) \<Longrightarrow> err = None \<longleftrightarrow> rv \<noteq> None"
  by (auto simp: compare_and_overwrite_entry_def Let_def bind_eq_Some_conv split: if_splits)

lemma probe_error:
  "probe_loop hk k d act h flag hv hv2 n idx = Some (Inl (r, err, rv, h')) \<Longrightarrow> err = None \<longleftrightarrow> rv \<noteq> None"
  by (induction n arbitrary: idx) (auto simp: Let_def bind_eq_Some_conv dest!: compare_error split: if_splits option.splits)

lemma enter_new_error: "enter_new hk k d h flag hv idx = (r, err, rv, h') \<Longrightarrow> err = None \<longleftrightarrow> rv \<noteq> None"
  by (auto simp: enter_new_def Let_def split: if_splits)

lemma hsearch_error:
  assumes "hsearch_r hk k d act h flag = Some (r, err, rv, h')" shows "err = None \<longleftrightarrow> rv \<noteq> None"
proof -
  from assms obtain e where e: "slot h (first_index (hsize h) k) = Some e" by (auto simp: hsearch_r_def Let_def bind_eq_Some_conv)
  define x where "x = (if used e \<noteq> 0 then
      do { c \<leftarrow> compare_and_overwrite_entry hk k d act h flag (first_index (hsize h) k) (first_index (hsize h) k);
           case c of Some res \<Rightarrow> Some (Inl res)
           | None \<Rightarrow> probe_loop hk k d act h flag (first_index (hsize h) k) (second_hash (hsize h) (first_index (hsize h) k)) (hsize h) (first_index (hsize h) k) }
      else Some (Inr (first_index (hsize h) k)))"
  show ?thesis
  proof (cases "\<exists>res. x = Some (Inl res)")
    case True
    then have "x = Some (Inl (r, err, rv, h'))" using assms e by (auto simp: hsearch_r_def Let_def x_def [symmetric])
    then show ?thesis unfolding x_def
      by (auto simp: bind_eq_Some_conv dest!: compare_error probe_error split: if_splits option.splits)
  next
    case False
    have "x \<noteq> None" using assms e by (cases x) (auto simp: hsearch_r_def Let_def x_def [symmetric])
    with False obtain idx where "x = Some (Inr idx)" by (metis option.exhaust sum.exhaust)
    then show ?thesis using assms e enter_new_error
      by (auto simp: hsearch_r_def Let_def x_def [symmetric] split: if_splits)
  qed
qed

lemma enter_run:
  assumes "htab_ok h" "copies hk" "0 < never_used h"
  shows "\<exists>r err rv h'. hsearch_r hk k (Some d) ENTER h flag = Some (r, err, rv, h') \<and> htab_ok h'
           \<and> never_used h \<le> never_used h' + 1 \<and> (rv = None \<longleftrightarrow> refuses hk h k d flag)
           \<and> htab_map h' = (if refuses hk h k d flag then htab_map h else (htab_map h)(k \<mapsto> d))"
proof -
  from enter_law [OF assms, of k d flag] obtain r err rv h' where s: "hsearch_r hk k (Some d) ENTER h flag = Some (r, err, rv, h')"
    and h: "htab_ok h'" "never_used h \<le> never_used h' + 1"
    "if refuses hk h k d flag then r = 0 \<and> (err = Some EPERM \<or> err = Some errno.EINVAL) \<and> htab_map h' = htab_map h
     else 0 < r \<and> err = None \<and> htab_map h' = (htab_map h)(k \<mapsto> d)" by blast
  from hsearch_error [OF s] h show ?thesis by (intro exI conjI) (rule s, auto split: if_splits)
qed

section \<open>Setting and deleting\<close>

lemma join_args_joined: "args \<noteq> [] \<Longrightarrow> join_args args = joined 32 args"
proof (induction args)
  case (Cons a args)
  show ?case
  proof (cases "args = []")
    case False
    then have "concat (map (\<lambda>a. a @ [32]) args) \<noteq> []" by (cases args) auto
    then show ?thesis using Cons False by (simp add: join_args_def joined_Cons butlast_append)
  qed (simp add: join_args_def butlast_append)
qed simp

definition plain_name :: "ctext \<Rightarrow> bool" where
  "plain_name name \<longleftrightarrow> 61 \<notin> set name \<and> (name = [] \<or> hd name \<noteq> 45)"

lemma plain_options: "plain_name name \<Longrightarrow> options f (name # args) s = Inr (s, name # args)"
  by (auto simp: plain_name_def)

text \<open>What \<^verbatim>\<open>_do_env_set\<close> makes of the variables.\<close>

definition set_refused :: "env_cfg \<Rightarrow> ctext \<Rightarrow> ctext list \<Rightarrow> int \<Rightarrow> cmd_state \<Rightarrow> bool" where
  "set_refused cfg name args flag st =
     (if args = [] then refuses_delete (env_hk cfg) (htab_of st) name flag
      else refuses (env_hk cfg) (htab_of st) name (joined 32 args) flag)"

definition set_vars :: "ctext \<Rightarrow> ctext list \<Rightarrow> (ctext \<rightharpoonup> ctext) \<Rightarrow> (ctext \<rightharpoonup> ctext)" where
  "set_vars name args vars = (if args = [] then vars(name := None) else vars(name \<mapsto> joined 32 args))"

lemma do_env_set_run:
  assumes "cmd_ok cfg st" "plain_name name"
  shows "\<exists>rc st'. do_env_set_args cfg (cmd # name # args) flag st = Some (rc, st') \<and> htab_ok (htab_of st') \<and> env_ready (env_st st')
           \<and> env_id st' = env_id st + 1 \<and> env_buf st' = env_buf st \<and> never_used (htab_of st) \<le> never_used (htab_of st') + 1
           \<and> rc = (if set_refused cfg name args flag st then 1 else 0)
           \<and> vars_of st' = (if set_refused cfg name args flag st then vars_of st else set_vars name args (vars_of st))"
proof -
  have ok: "env_ready (env_st st)" "htab_ok (htab_of st)" "copies (env_hk cfg)" "malloc_ok cfg" "0 < never_used (htab_of st)"
    using assms(1) by (simp_all add: cmd_ok_def)
  define st1 where "st1 = st\<lparr>env_id := env_id st + 1\<rparr>"
  note s = do_env_set_args_def plain_options [OF assms(2)] st1_def [symmetric]
  have n: "61 \<notin> set name" using assms(2) by (simp add: plain_name_def)
  have st1: "env_ready (env_st st1) = env_ready (env_st st)" "env_id st1 = env_id st + 1" "env_buf st1 = env_buf st"
    "env_st st1 = env_st st" by (simp_all add: st1_def)
  show ?thesis
  proof (cases "args = []")
    case True
    from hdelete_law [OF ok(2), of "env_hk cfg" name flag] obtain r err h where
      d: "hdelete_r (env_hk cfg) name (htab_of st) flag = Some (r, err, h)" and h: "htab_ok h" "never_used h = never_used (htab_of st)"
      "if refuses_delete (env_hk cfg) (htab_of st) name flag then r = 0 \<and> err \<noteq> None \<and> h = htab_of st
       else r = 1 \<and> err = None \<and> htab_map h = (htab_map (htab_of st))(name := None)" by blast
    have "do_env_set_args cfg (cmd # name # args) flag st = Some (if r = 0 then 1 else 0, set_htab h st1)"
      using True n d by (simp add: s Let_def del: options.simps)
    then show ?thesis using h True ok st1 by (auto simp: set_refused_def set_vars_def vars_of_def split: if_splits)
  next
    case False
    from enter_run [OF ok(2,3,5), of name "joined 32 args" flag] obtain r err rv h where
      d: "hsearch_r (env_hk cfg) name (Some (joined 32 args)) ENTER (htab_of st) flag = Some (r, err, rv, h)"
      and h: "htab_ok h" "never_used (htab_of st) \<le> never_used h + 1"
        "rv = None \<longleftrightarrow> refuses (env_hk cfg) (htab_of st) name (joined 32 args) flag"
        "htab_map h = (if refuses (env_hk cfg) (htab_of st) name (joined 32 args) flag then htab_map (htab_of st)
                       else (htab_map (htab_of st))(name \<mapsto> joined 32 args))" by blast
    have "do_env_set_args cfg (cmd # name # args) flag st = Some (if rv = None then 1 else 0, set_htab h st1)"
      using False n d ok(4) by (simp add: s Let_def join_args_joined del: options.simps)
    then show ?thesis using h False ok st1 by (auto simp: set_refused_def set_vars_def vars_of_def)
  qed
qed

text \<open>A number that is stored as text and read back.\<close>

lemma cstring_text: "0 \<notin> set out \<Longrightarrow> cstring (out @ [0]) 0 out"
  by (simp add: cstring_def seg_def)

lemma text_at_put: "0 \<notin> set out \<Longrightarrow> length out < n \<Longrightarrow> text_at (put_seg (replicate n 0) 0 (out @ [0])) = Some out"
  by (auto simp: text_at_def put_seg_def takeWhile_append2 takeWhile_append1 takeWhile_tail)

lemma radix_no_nul: "2 \<le> b \<Longrightarrow> b \<le> 16 \<Longrightarrow> locase \<in> {0, 0x20} \<Longrightarrow> 0 \<notin> set (radix b locase n)"
  using radix_chars [of b 0 locase n] digit_char_value(4) [of _ locase] by fastforce

lemma hex_text:
  "sprintf_text 17 [37, 108, 120] [VLong w] = Some (radix 16 0x20 (unat w))"
  "strtoul_text (radix 16 0x20 (unat w)) 16 = Some (w, length (radix 16 0x20 (unat w)))"
proof -
  define str where "str = radix 16 0x20 (unat w)"
  have f: "([37, 108, 120], 16, 32) \<in> set ulong_formats" by (simp add: ulong_formats_def)
  have t: "prefix_text 16 32 @ radix 16 (case_bit 32) (unat w) = str"
    by (simp add: prefix_text_def case_bit_def SPECIAL_def SMALL_def str_def)
  have l: "length str \<le> 16" unfolding str_def using unsigned_less [of w, where 'a = nat] by (intro radix_length) simp_all
  have z: "0 \<notin> set str" unfolding str_def by (rule radix_no_nul) simp_all
  have "vsprintf (\<lambda>_. None) (replicate 17 0) 0 [37, 108, 120] [VLong w] = Some (int (length str), put_seg (replicate 17 0) 0 (str @ [0]), [])"
    using vsprintf_run [OF ulong_text [OF f], of w "replicate 17 0" 0 "\<lambda>_. None"] l unfolding t by simp
  then show "sprintf_text 17 [37, 108, 120] [VLong w] = Some (radix 16 0x20 (unat w))"
    using text_at_put [OF z, of 17] l unfolding str_def [symmetric] by (simp add: sprintf_text_def)
  show "strtoul_text (radix 16 0x20 (unat w)) 16 = Some (w, length (radix 16 0x20 (unat w)))" unfolding str_def [symmetric]
    using strtoul_ulong [OF f, of "str @ [0]" 0 w 16] cstring_text [OF z] unfolding t by (simp add: strtoul_text_def reads_in_def)
qed

lemma ulong_dec_text: "strtoul_text (decimal (unat w)) 10 = Some (w, length (decimal (unat w)))"
proof -
  have d: "decimal (unat w) = radix 10 0 (unat w)" by (simp add: radix_decimal)
  have f: "([37, 108, 117], 10, 0) \<in> set ulong_formats" by (simp add: ulong_formats_def)
  have t: "prefix_text 10 0 @ radix 10 (case_bit 0) (unat w) = radix 10 0 (unat w)" by (simp add: prefix_text_def case_bit_def)
  have z: "0 \<notin> set (radix 10 0 (unat w))" by (rule radix_no_nul) simp_all
  have "strtoul_text (radix 10 0 (unat w)) 10 = Some (w, length (radix 10 0 (unat w)))"
    using strtoul_ulong [OF f, of "radix 10 0 (unat w) @ [0]" 0 w 10] cstring_text [OF z] unfolding t by (simp add: strtoul_text_def reads_in_def)
  then show ?thesis unfolding d .
qed

lemma env_set_run:
  assumes "cmd_ok cfg st" "plain_name name" "v \<noteq> []" "\<not> refuses (env_hk cfg) (htab_of st) name v H_PROGRAMMATIC"
  shows "\<exists>st'. env_set cfg name (Some v) st = Some (0, st') \<and> htab_ok (htab_of st') \<and> env_ready (env_st st')
           \<and> env_id st' = env_id st + 1 \<and> env_buf st' = env_buf st \<and> vars_of st' = (vars_of st)(name \<mapsto> v)"
proof -
  from do_env_set_run [OF assms(1,2), of setenv_text "[v]" H_PROGRAMMATIC] assms(3,4)
  show ?thesis using assms(1) by (auto simp: env_set_def cmd_ok_def set_refused_def set_vars_def)
qed

section \<open>The environment before relocation\<close>

lemma drop_next:
  assumes "drop p env = c # r" shows "p < length env" "env ! p = c" "rd env p = Some c" "drop (p + 1) env = r"
proof -
  show "p < length env" using assms by (metis drop_all list.distinct(1) not_le)
  then show "env ! p = c" "rd env p = Some c" "drop (p + 1) env = r" using assms by (auto simp: Cons_nth_drop_Suc [symmetric])
qed

lemma entry_end_run:
  "drop i env = s @ 0 # r \<Longrightarrow> 0 \<notin> set s \<Longrightarrow> i + length s \<le> CONFIG_ENV_SIZE \<Longrightarrow> entry_end env i = Some (Inr (i + length s))"
proof (induction s arbitrary: i)
  case Nil
  then show ?case using drop_next [of i env 0 r] by (simp add: entry_end.simps [of env i])
next
  case (Cons c s)
  note d = drop_next [of i env c "s @ 0 # r"]
  show ?case using Cons.IH [of "i + 1"] Cons.prems d by (auto simp: entry_end.simps [of env i])
qed

text \<open>A name without equals sign matches an entry exactly when it is the entry's name.\<close>

lemma envmatch_run:
  "drop p env = k @ 61 # r \<Longrightarrow> \<forall>c\<in>set k. c \<noteq> 0 \<and> c \<noteq> 61 \<Longrightarrow> 61 \<notin> set name \<Longrightarrow>
   envmatch name env p = Some (if name = k then int (p + length k + 1) else - 1)"
proof (induction name arbitrary: p k)
  case Nil
  then show ?case by (cases k) (use drop_next [of p env] in auto)
next
  case (Cons x name)
  show ?case
  proof (cases k)
    case Nil then show ?thesis using Cons.prems drop_next [of p env 61 r] by auto
  next
    case (Cons y k')
    then have d: "rd env p = Some y" "drop (p + 1) env = k' @ 61 # r"
      using Cons.prems(1) drop_next [of p env y "k' @ 61 # r"] by simp_all
    have IH: "envmatch name env (p + 1) = Some (if name = k' then int (p + 1 + length k' + 1) else - 1)"
      using Cons.IH [OF d(2)] Cons.prems(2,3) Cons by simp
    then show ?thesis using d(1) Cons.prems(3) Cons by auto
  qed
qed

lemma copy_value_run:
  "drop val env = d @ 0 # r \<Longrightarrow> 0 \<notin> set d \<Longrightarrow> length d < len \<Longrightarrow> n + len \<le> length buf \<Longrightarrow>
   copy_value env val n len buf = Some (n + length d, put_seg buf n (d @ [0]))"
proof (induction d arbitrary: val n len buf)
  case Nil
  then obtain l where l: "len = Suc l" by (cases len) auto
  have "buf[n := 0] = put_seg buf n [0]" using Nil l by (simp add: put_seg_Cons)
  then show ?case using Nil l drop_next [of val env 0 r] by simp
next
  case (Cons c d)
  then obtain l where l: "len = Suc l" by (cases len) auto
  have "copy_value env (val + 1) (n + 1) l (buf[n := c]) = Some (n + 1 + length d, put_seg (buf[n := c]) (n + 1) (d @ [0]))"
    using Cons.IH [of "val + 1" l "n + 1" "buf[n := c]"] Cons.prems l drop_next [of val env c "d @ 0 # r"] by simp
  moreover have "put_seg (buf[n := c]) (n + 1) (d @ [0]) = put_seg buf n (c # d @ [0])" using Cons.prems l by (simp add: put_seg_Cons)
  ultimately show ?case using Cons.prems l drop_next [of val env c "d @ 0 # r"] by auto
qed

text \<open>The image of a list of variables in memory: entries that end with a NUL each, and a NUL after the last.\<close>

lemma env_get_f_run:
  assumes "length buf = len" "61 \<notin> set name" "\<forall>kd\<in>set l. pair_ok 0 kd \<and> 92 \<notin> set (snd kd) \<and> length (snd kd) < len"
    and "drop i env = export_bytes 0 l @ 0 # r" "i + length (export_bytes 0 l) \<le> CONFIG_ENV_SIZE"
  shows "env_get_f_loop name env i len buf =
     Some (case map_of l name of None \<Rightarrow> (- 1, buf) | Some d \<Rightarrow> (int (length d), put_seg buf 0 (d @ [0])))"
  using assms(3-5)
proof (induction l arbitrary: i)
  case Nil
  then show ?case using drop_next [of i env 0 r] by (simp add: env_get_f_loop.simps [of name env i])
next
  case (Cons kd l)
  obtain k d where kd: "kd = (k, d)" by (cases kd)
  have ok: "pair_ok 0 (k, d)" "92 \<notin> set d" "length d < len" using Cons.prems(1) by (simp_all add: kd)
  have kz: "\<forall>c\<in>set k. c \<noteq> 0 \<and> c \<noteq> 61" "k \<noteq> []" "0 \<notin> set d" using ok(1) by (auto simp: pair_ok_def)
  have "\<forall>c\<in>set d. c \<noteq> 0 \<and> c \<noteq> 92" using ok kz(3) by metis
  then have e: "escaped 0 d = d" by (rule escaped_plain)
  have b: "drop i env = (k @ 61 # d) @ 0 # export_bytes 0 l @ 0 # r" using Cons.prems(2) by (simp add: kd e)
  have len: "i + length (k @ 61 # d) \<le> CONFIG_ENV_SIZE" using Cons.prems(3) by (simp add: kd e)
  have en: "entry_end env i = Some (Inr (i + length (k @ 61 # d)))"
    by (rule entry_end_run [OF b _ len]) (use kz in auto)
  have em: "envmatch name env i = Some (if name = k then int (i + length k + 1) else - 1)"
    by (rule envmatch_run [OF _ kz(1) assms(2)]) (use b in simp)
  have i: "i < length env" "env ! i \<noteq> 0" using kz b drop_next [of i env "hd k"] by (cases k; auto)+
  show ?case
  proof (cases "name = k")
    case True
    have "drop (i + (length k + 1)) env = d @ 0 # export_bytes 0 l @ 0 # r"
      using arg_cong [OF b, of "drop (length k + 1)"] by (simp add: add.commute)
    then have "copy_value env (i + (length k + 1)) 0 len buf = Some (length d, put_seg buf 0 (d @ [0]))"
      using copy_value_run [OF _ kz(3) ok(3), of "i + (length k + 1)" env _ 0 buf] assms(1) by simp
    moreover have "nat (int (i + length k + 1)) = i + (length k + 1)" by simp
    ultimately show ?thesis using i en em unfolding True env_get_f_loop.simps [of k env i] by (simp add: kd del: nat_int_comparison(2))
  next
    case False
    define j where "j = i + length (k @ 61 # d) + 1"
    have "drop j env = export_bytes 0 l @ 0 # r"
      using arg_cong [OF b, of "drop (length (k @ 61 # d) + 1)"] by (simp add: j_def add.commute add.left_commute)
    moreover have "j + length (export_bytes 0 l) \<le> CONFIG_ENV_SIZE" using Cons.prems(3) by (simp add: kd e j_def)
    ultimately have "env_get_f_loop name env j len buf =
       Some (case map_of l name of None \<Rightarrow> (- 1, buf) | Some d \<Rightarrow> (int (length d), put_seg buf 0 (d @ [0])))"
      using Cons.IH [of j] Cons.prems(1) by simp
    then show ?thesis using False i en em by (simp add: env_get_f_loop.simps [of name env i] kd j_def)
  qed
qed

lemma text_at_put_any: "0 \<notin> set out \<Longrightarrow> length out < length m \<Longrightarrow> text_at (put_seg m 0 (out @ [0])) = Some out"
  by (auto simp: text_at_def put_seg_def takeWhile_append2 takeWhile_append1 takeWhile_tail)

lemma env_get_early:
  assumes "\<not> env_ready (env_st st)" "61 \<notin> set name"
    and "\<forall>kd\<in>set l. pair_ok 0 kd \<and> 92 \<notin> set (snd kd) \<and> length (snd kd) < length (env_buf st)"
    and "env_chars cfg st = export_bytes 0 l @ 0 # r" "length (export_bytes 0 l) \<le> CONFIG_ENV_SIZE"
  shows "\<exists>st'. env_get cfg name st = Some (map_of l name, st') \<and> env_st st' = env_st st"
proof -
  have f: "env_get_f cfg name (env_buf st) (length (env_buf st)) st =
     Some (case map_of l name of None \<Rightarrow> (- 1, env_buf st) | Some d \<Rightarrow> (int (length d), put_seg (env_buf st) 0 (d @ [0])))"
    unfolding env_get_f_def by (rule env_get_f_run) (use assms in auto)
  show ?thesis
  proof (cases "map_of l name")
    case None then show ?thesis using assms(1) f by (simp add: env_get_def)
  next
    case (Some d)
    then have "(name, d) \<in> set l" by (rule map_of_SomeD)
    then have d: "d \<noteq> []" "0 \<notin> set d" "length d < length (env_buf st)" using assms(3) by (auto simp: pair_ok_def)
    then show ?thesis using assms(1) f Some text_at_put_any [OF d(2,3)] by (simp add: env_get_def)
  qed
qed

lemma env_image_pairs:
  assumes "plain_cfg cfg" "storable cfg h"
  shows "\<exists>l r. drop 4 (env_image cfg h) = export_bytes 0 l @ 0 # r \<and> length (export_bytes 0 l) \<le> CONFIG_ENV_SIZE
           \<and> map_of l = htab_map h \<and> (\<forall>kd\<in>set l. htab_map h (fst kd) = Some (snd kd))"
proof -
  have ok: "htab_ok h" using assms(2) by (simp add: storable_def)
  from htab_okE [OF ok] obtain ts where ts: "table h = Some ts" .
  from export_list_table [OF ok ts, of "env_re cfg"] obtain l0 where
    l0: "export_list (env_re cfg) 0 [] (tl ts) = Some l0" "distinct (map fst l0)"
      "\<And>k d. (k, d) \<in> set l0 \<longleftrightarrow> htab_map h k = Some d" "length l0 = filled h" by blast
  define l where "l = qsort cmpkey l0"
  have p: "env_pairs cfg h = l" using ts l0(1) by (simp add: env_pairs_def l_def)
  have m: "(k, d) \<in> set l \<longleftrightarrow> htab_map h k = Some d" for k d using l0(3) by (simp add: l_def set_qsort)
  have dl: "distinct (map fst l)" using l0(2) by (simp add: l_def distinct_qsort_map)
  have e: "map_of l k = Some d \<longleftrightarrow> htab_map h k = Some d" for k d using map_of_eq_Some_iff [OF dl, of k d] m [of k d] by simp
  have "map_of l k = htab_map h k" for k using e [of k] by (metis not_None_eq)
  then have "map_of l = htab_map h" by blast
  moreover have f: "length (export_bytes 0 l) < ENV_SIZE cfg" using assms(2) p by (simp add: storable_def)
  then have "replicate (ENV_SIZE cfg - length (export_bytes 0 l)) 0 = (0 :: u8) # replicate (ENV_SIZE cfg - length (export_bytes 0 l) - 1) 0"
    by (simp flip: replicate_Suc)
  then have "drop 4 (env_image cfg h) = export_bytes 0 l @ 0 # replicate (ENV_SIZE cfg - length (export_bytes 0 l) - 1) 0"
    by (simp add: env_image_def p Let_def)
  moreover have "length (export_bytes 0 l) \<le> CONFIG_ENV_SIZE" using f by (simp add: ENV_SIZE_def)
  ultimately show ?thesis using m by (intro exI [of _ l] exI conjI) (assumption | force)+
qed

section \<open>Hardware addresses\<close>

lemma hex_pair_read:
  assumes "rest = [] \<or> hd rest = 58"
  shows "strtoul_text (hex_byte_pack b @ rest) 16 = Some (ucast b, 2)"
proof -
  define x y where "x = digit_char 0x20 (unat b div 16)" and "y = digit_char 0x20 (unat b mod 16)"
  have b: "unat b div 16 < 16" "unat b mod 16 < 16" using unsigned_less [of b, where 'a = nat] by auto
  have h: "hex_byte_pack b = [x, y]" by (simp add: hex_byte_radix x_def y_def)
  have v: "digit_value x = of_nat (unat b div 16)" "digit_value y = of_nat (unat b mod 16)" "tolower y \<noteq> 120"
    using digit_char_value [of _ "0x20"] b by (simp_all add: x_def y_def)
  have d: "\<forall>c\<in>set [x, y]. digit_of 16 c" using digit_char_of [of _ 16 "0x20"] b by (simp add: x_def y_def)
  define m where "m = [x, y] @ rest @ [0]"
  have z: "\<not> digit_of 16 58" "\<not> digit_of 16 0" by code_simp+
  have n: "\<not> digit_of 16 (m ! 2)" using assms z by (cases rest) (auto simp: m_def)
  have l: "strtoul_loop m 0 16 0 = Some (foldl (\<lambda>v c. v * of_nat 16 + digit_value c) 0 [x, y], 2)"
    using strtoul_loop_digits [OF d, of 0 m 0] n by (simp add: m_def seg_def numeral_2_eq_2)
  have "of_nat (unat b div 16) * 16 + of_nat (unat b mod 16) = (of_nat (unat b div 16 * 16 + unat b mod 16) :: u64)" by (simp only: of_nat_add of_nat_mult of_nat_numeral)
  then have "of_nat (unat b div 16) * 16 + of_nat (unat b mod 16) = (ucast b :: u64)" by (metis div_mult_mod_eq of_nat_unat)
  then have "strtoul_loop m 0 16 0 = Some (ucast b, 2)" using l v by simp
  moreover have "parse_integer_fixup_radix m 0 16 = Some (0, 16)" using v(3) by (simp add: parse_integer_fixup_radix_def m_def)
  ultimately show ?thesis by (simp add: strtoul_text_def simple_strtoul_def h m_def)
qed

lemma byte_up_down [simp]: "ucast (ucast b :: u64) = (b :: u8)"
  by (rule bit_word_eqI) (auto simp: bit_simps)

lemma length_hex_pair [simp]: "length (hex_byte_pack b) = 2"
  by (simp add: hex_byte_pack_def)

lemma separated_Cons: "gs \<noteq> [] \<Longrightarrow> separated sep (g # gs) = g @ sep @ separated sep gs"
  by (cases gs) auto

lemma enetaddr_read: "enetaddr_bytes (length addr) (Some (separated [58] (map hex_byte_pack addr))) = Some addr"
proof (induction addr)
  case (Cons b addr)
  show ?case
  proof (cases "addr = []")
    case True
    then show ?thesis using hex_pair_read [of "[]" b] by simp
  next
    case False
    define r where "r = separated [58] (map hex_byte_pack addr)"
    have s: "separated [58] (map hex_byte_pack (b # addr)) = hex_byte_pack b @ 58 # r" using False by (simp add: separated_Cons r_def)
    have "strtoul_text (hex_byte_pack b @ 58 # r) 16 = Some (ucast b, 2)" by (rule hex_pair_read) simp
    then show ?thesis using Cons.IH unfolding s by (simp add: r_def numeral_3_eq_3)
  qed
qed simp

definition mac_text :: "u8 list \<Rightarrow> ctext" where
  "mac_text addr = separated [58] (map hex_byte_pack addr)"

lemma mac_text_shape:
  assumes "length addr = 6" shows "length (mac_text addr) = 17" "0 \<notin> set (mac_text addr)"
proof -
  obtain a b c d e f where addr: "addr = [a, b, c, d, e, f]" using assms by (auto simp: numeral_eq_Suc length_Suc_conv)
  have z: "0 \<notin> set (hex_byte_pack x)" for x
    using digit_char_value(4) [of "unat x div 16" "0x20"] digit_char_value(4) [of "unat x mod 16" "0x20"] unsigned_less [of x, where 'a = nat]
    by (auto simp: hex_byte_radix)
  show "length (mac_text addr) = 17" by (simp add: addr mac_text_def)
  show "0 \<notin> set (mac_text addr)" using z by (simp add: addr mac_text_def)
qed

lemma string_plain: "length s < 2 ^ 64 - 1 \<Longrightarrow> string (Some s) (- 1) (- 1) 0 = s"
  by (simp add: string_def padded_def pad_width_def to_size_def)

lemma mac_format:
  assumes "length addr = 6"
  shows "vformat dps 0 [37, 112, 77] [VPtr p addr] = Some (None, mac_text addr, [])"
proof -
  have "isalnum 77" by code_simp
  moreover have "string (Some (mac_text addr)) (- 1) (- 1) 0 = mac_text addr" using mac_text_shape [OF assms] by (intro string_plain) simp
  ultimately show ?thesis using assms by (simp add: format_defs pointer_def mac_address_string_def mac_text_def)
qed

lemma mac_sprintf: "length addr = 6 \<Longrightarrow> sprintf_text 18 [37, 112, 77] [VPtr p addr] = Some (mac_text addr)"
  using vsprintf_run [OF mac_format, of addr "replicate 18 0" 0 "\<lambda>_. None" p] mac_text_shape [of addr] text_at_put [of "mac_text addr" 18]
  by (simp add: sprintf_text_def)

text \<open>An import leaves the counter alone.\<close>

lemma import_env_id: "do_env_import cfg m argv st = Some (rc, st') \<Longrightarrow> env_id st' = env_id st"
  by (auto simp: do_env_import_def Let_def split: Option.bind_split_asm sum.split_asm list.split_asm if_split_asm)

section \<open>Concrete states\<close>

definition open_cfg :: env_cfg where
  "open_cfg = demo_cfg\<lparr>env_hk := demo_hooks\<rparr>"

definition demo_cmd :: cmd_state where
  "demo_cmd = \<lparr>env_st = demo_state, env_buf = replicate 32 0, env_id = 1\<rparr>"

definition early_cmd :: cmd_state where
  "early_cmd = demo_cmd\<lparr>env_st := demo_state\<lparr>env_ready := False, env_addr := drop 4 (env_image demo_cfg demo_htab)\<rparr>\<rparr>"

lemma demo_cmd_ok: "cmd_ok open_cfg demo_cmd"
proof -
  have "0 < never_used demo_htab" by code_simp
  then show ?thesis using demo_htab_ok copies_demo by (simp add: cmd_ok_def open_cfg_def demo_cmd_def demo_state_def demo_cfg_def)
qed

lemma open_accepts: "\<not> refuses (env_hk open_cfg) h k d flag"
  using accepts_refuses [OF accepts_demo] by (simp add: open_cfg_def)

lemma demo_absent: "vars_of demo_cmd [100] = None"
proof -
  have "htab_map demo_htab [100] = None" by code_simp
  then show ?thesis by (simp add: vars_of_def demo_cmd_def demo_state_def)
qed

section \<open>Properties\<close>

text \<open> C8. \<^verbatim>\<open>setenv name\<close> with or without values deletes the variable or sets it to the values joined by blanks, and reports a refusal
  of the flags or callbacks by 1 without any change.  Afterwards \<^verbatim>\<open>env_get\<close> gives every variable its value: the new one, or the
  old one of the others.
\<close>

theorem setenv_getenv:
  assumes "cmd_ok cfg st" "plain_name name"
  shows "\<exists>rc st'. do_env_set cfg (cmd # name # args) st = Some (rc, st') \<and> htab_ok (htab_of st') \<and> env_id st' = env_id st + 1
       \<and> (if set_refused cfg name args H_INTERACTIVE st then rc = 1 \<and> (\<forall>k. env_get cfg k st' = Some (vars_of st k, st'))
          else rc = 0 \<and> (\<forall>k. env_get cfg k st' = Some (set_vars name args (vars_of st) k, st')))"
proof -
  from do_env_set_run [OF assms, of cmd args H_INTERACTIVE] obtain rc st' where
    s: "do_env_set_args cfg (cmd # name # args) H_INTERACTIVE st = Some (rc, st')" and
    st': "htab_ok (htab_of st')" "env_ready (env_st st')" "env_id st' = env_id st + 1"
      "rc = (if set_refused cfg name args H_INTERACTIVE st then 1 else 0)"
      "vars_of st' = (if set_refused cfg name args H_INTERACTIVE st then vars_of st else set_vars name args (vars_of st))" by blast
  have "do_env_set cfg (cmd # name # args) st = Some (rc, st')" using s by (simp add: do_env_set_def)
  then show ?thesis using st' env_get_ready [OF st'(2,1)] by (intro exI [of _ rc] exI [of _ st']) simp
qed

theorem setenv_getenv_witness:
  "\<exists>st'. do_env_set open_cfg [setenv_text, [100], [49], [50]] demo_cmd = Some (0, st') \<and> env_get open_cfg [100] st' = Some (Some [49, 32, 50], st')"
proof -
  have p: "plain_name [100]" by (simp add: plain_name_def)
  have "\<not> set_refused open_cfg [100] [[49], [50]] H_INTERACTIVE demo_cmd" by (simp add: set_refused_def open_accepts)
  then show ?thesis using setenv_getenv [OF demo_cmd_ok p, of setenv_text "[[49], [50]]"] by (fastforce simp: set_vars_def)
qed

text \<open> C28. A number that is stored with \<^verbatim>\<open>env_set_hex\<close> is read back by \<^verbatim>\<open>env_get_hex\<close>, and one stored with \<^verbatim>\<open>env_set_ulong\<close> by
  \<^verbatim>\<open>env_get_ulong\<close> in base 10, through the formatter, the table and the parser.
\<close>

theorem env_numbers_roundtrip:
  assumes "cmd_ok cfg st" "plain_name name" "\<not> refuses (env_hk cfg) (htab_of st) name (radix 16 0x20 (unat w)) H_PROGRAMMATIC"
    and "\<not> refuses (env_hk cfg) (htab_of st) name (decimal (unat w)) H_PROGRAMMATIC"
  shows "\<exists>st1 st2. env_set_hex cfg name w st = Some (0, st1) \<and> env_get_hex cfg name def st1 = Some (w, st1)
                 \<and> env_set_ulong cfg name w st = Some (0, st2) \<and> env_get_ulong cfg name 10 def st2 = Some (w, st2)"
proof -
  define h d where "h = radix 16 0x20 (unat w)" and "d = decimal (unat w)"
  note h = hex_text [of w, folded h_def] note d = simple_itoa_decimal [of w, folded d_def] ulong_dec_text [of w, folded d_def]
  have ne: "h \<noteq> []" "d \<noteq> []" using radix_decimal [of 0 "unat w"] radix_not_Nil [of 10 0 "unat w"] by (simp_all add: h_def d_def)
  from env_set_run [OF assms(1,2) ne(1)] assms(3) obtain st1 where st1: "env_set cfg name (Some h) st = Some (0, st1)"
    "htab_ok (htab_of st1)" "env_ready (env_st st1)" "vars_of st1 = (vars_of st)(name \<mapsto> h)" unfolding h_def by blast
  from env_set_run [OF assms(1,2) ne(2)] assms(4) obtain st2 where st2: "env_set cfg name (Some d) st = Some (0, st2)"
    "htab_ok (htab_of st2)" "env_ready (env_st st2)" "vars_of st2 = (vars_of st)(name \<mapsto> d)" unfolding d_def by blast
  show ?thesis
    using h d ne st1 st2 env_get_ready [OF st1(3,2), of cfg name] env_get_ready [OF st2(3,2), of cfg name]
    by (intro exI [of _ st1] exI [of _ st2]) (simp add: env_set_hex_def env_get_hex_def env_set_ulong_def env_get_ulong_def)
qed

theorem env_numbers_roundtrip_witness:
  "\<exists>st1 st2. env_set_hex open_cfg [100] 0xBEEF demo_cmd = Some (0, st1) \<and> env_get_hex open_cfg [100] 0 st1 = Some (0xBEEF, st1)
     \<and> env_set_ulong open_cfg [100] 0xBEEF demo_cmd = Some (0, st2) \<and> env_get_ulong open_cfg [100] 10 0 st2 = Some (0xBEEF, st2)"
  by (rule env_numbers_roundtrip [OF demo_cmd_ok _ open_accepts open_accepts]) (simp add: plain_name_def)

text \<open> C29. A hardware address that \<^verbatim>\<open>eth_env_set_enetaddr\<close> stores as text is the one \<^verbatim>\<open>eth_env_get_enetaddr\<close> reads, and an address
  that is there already is kept.
\<close>

theorem enetaddr_roundtrip:
  assumes "cmd_ok cfg st" "plain_name name" "\<not> refuses (env_hk cfg) (htab_of st) name (mac_text addr) H_PROGRAMMATIC"
    and "length addr = 6" "is_valid_ethaddr addr"
    and "eth_env_get_enetaddr cfg name st = Some (present, old, st)"
  shows "if present then eth_env_set_enetaddr cfg name addr st = Some (- E_EXIST, st)
         else \<exists>st'. eth_env_set_enetaddr cfg name addr st = Some (0, st') \<and> eth_env_get_enetaddr cfg name st' = Some (True, addr, st')"
proof (cases present)
  case True then show ?thesis using assms(6) by (simp add: eth_env_set_enetaddr_def)
next
  case False
  have ne: "mac_text addr \<noteq> []" using mac_text_shape(1) [OF assms(4)] by auto
  from env_set_run [OF assms(1,2) ne assms(3)] obtain st' where st': "env_set cfg name (Some (mac_text addr)) st = Some (0, st')"
    "htab_ok (htab_of st')" "env_ready (env_st st')" "vars_of st' = (vars_of st)(name \<mapsto> mac_text addr)" by blast
  have "eth_parse_enetaddr (Some (mac_text addr)) = Some addr"
    using enetaddr_read [of addr] assms(4) by (simp add: eth_parse_enetaddr_def mac_text_def)
  then show ?thesis using False assms(5,6) st' mac_sprintf [OF assms(4), of 1] env_get_ready [OF st'(3,2), of cfg name]
    by (simp add: eth_env_set_enetaddr_def eth_env_get_enetaddr_def)
qed

theorem enetaddr_roundtrip_witness:
  "\<exists>st'. eth_env_set_enetaddr open_cfg [100] [2, 0, 0, 0, 0, 1] demo_cmd = Some (0, st')
     \<and> eth_env_get_enetaddr open_cfg [100] st' = Some (True, [2, 0, 0, 0, 0, 1], st')"
proof -
  have p: "plain_name [100]" by (simp add: plain_name_def)
  have v: "is_valid_ethaddr [2, 0, 0, 0, 0, 1]" by code_simp
  have z: "\<not> is_valid_ethaddr [0, 0, 0, 0, 0, 0]" by code_simp
  have "eth_parse_enetaddr None = Some [0, 0, 0, 0, 0, 0]" by (simp add: eth_parse_enetaddr_def numeral_eq_Suc)
  then have g: "eth_env_get_enetaddr open_cfg [100] demo_cmd = Some (False, [0, 0, 0, 0, 0, 0], demo_cmd)"
    using env_get_ready [of demo_cmd open_cfg "[100]"] demo_cmd_ok demo_absent z by (simp add: eth_env_get_enetaddr_def cmd_ok_def)
  from enetaddr_roundtrip [OF demo_cmd_ok p open_accepts _ v g] show ?thesis by simp
qed

text \<open> C9. Before relocation, \<^verbatim>\<open>env_get\<close> searches the image of the environment in memory; after the import of that image it
  searches the table.  Both give the same values, for variables without backslash that fit in \<^verbatim>\<open>env_buf\<close>.
\<close>

theorem env_get_early_late:
  assumes "plain_cfg cfg" "storable cfg h" "\<not> env_ready (env_st st)" "61 \<notin> set name"
    and "env_chars cfg st = drop 4 (env_image cfg h)"
    and "\<forall>k d. htab_map h k = Some d \<longrightarrow> 92 \<notin> set d \<and> length d < length (env_buf st)"
  shows "\<exists>st1 e. env_get cfg name st = Some (htab_map h name, st1)
               \<and> env_import cfg (env_image cfg h) True (env_st st1) = Some (0, e)
               \<and> env_get cfg name (st1\<lparr>env_st := e\<rparr>) = Some (htab_map h name, st1\<lparr>env_st := e\<rparr>)"
proof -
  obtain l r where l: "drop 4 (env_image cfg h) = export_bytes 0 l @ 0 # r" "length (export_bytes 0 l) \<le> CONFIG_ENV_SIZE"
    "map_of l = htab_map h" "\<forall>kd\<in>set l. htab_map h (fst kd) = Some (snd kd)"
    using env_image_pairs [OF assms(1,2)] by blast
  have "\<forall>kd\<in>set l. pair_ok 0 kd \<and> 92 \<notin> set (snd kd) \<and> length (snd kd) < length (env_buf st)"
    using l(4) assms(2,6) by (auto simp: storable_def)
  from env_get_early [OF assms(3,4) this] l assms(5) obtain st1 where
    st1: "env_get cfg name st = Some (htab_map h name, st1)" "env_st st1 = env_st st" by metis
  from env_import_image [OF assms(1,2), of True "env_st st1"] obtain h' where
    h': "env_import cfg (env_image cfg h) True (env_st st1) = Some (0, (env_st st1)\<lparr>env_htab := h', env_ready := True\<rparr>)"
    "htab_ok h'" "htab_map h' = htab_map h" by blast
  define st2 where "st2 = st1\<lparr>env_st := (env_st st1)\<lparr>env_htab := h', env_ready := True\<rparr>\<rparr>"
  have "env_get cfg name st2 = Some (htab_map h name, st2)"
    using env_get_ready [of st2 cfg name] h' by (simp add: st2_def vars_of_def)
  then show ?thesis using st1(1) h'(1) unfolding st2_def by blast
qed

theorem env_get_early_late_witness:
  "\<exists>st1 e. env_get demo_cfg [98] early_cmd = Some (htab_map demo_htab [98], st1)
     \<and> env_import demo_cfg (env_image demo_cfg demo_htab) True (env_st st1) = Some (0, e)
     \<and> env_get demo_cfg [98] (st1\<lparr>env_st := e\<rparr>) = Some (htab_map demo_htab [98], st1\<lparr>env_st := e\<rparr>)"
proof -
  have v: "92 \<notin> set d \<and> length d < length (env_buf early_cmd)" if "htab_map demo_htab k = Some d" for k d
    using demo_htab_pairs [OF that] by (auto simp: early_cmd_def demo_cmd_def)
  have c: "env_chars demo_cfg early_cmd = drop 4 (env_image demo_cfg demo_htab)"
    by (simp add: env_chars_def early_cmd_def demo_cmd_def demo_state_def)
  show ?thesis by (rule env_get_early_late [OF demo_plain demo_storable _ _ c]) (use v in \<open>auto simp: early_cmd_def\<close>)
qed

text \<open> C30. \<^verbatim>\<open>setenv -f\<close> with no name passes the check for two arguments; the option is taken off and the null pointer behind the
  arguments is used as the name.
\<close>

theorem setenv_force_alone:
  assumes "flags \<noteq> []" "\<forall>f\<in>set flags. \<exists>n. f = 45 # replicate n 102"
  shows "do_env_set cfg (cmd # flags) st = None"
proof -
  have o: "\<exists>e. options force_option fs s = Inr (e, [])" if "\<forall>f\<in>set fs. \<exists>n. f = 45 # replicate n 102" for fs s
    using that
  proof (induction fs arbitrary: s)
    case (Cons f fs)
    from Cons.prems obtain n where n: "f = 45 # replicate n 102" by auto
    have "\<exists>e. option_chars force_option (replicate n 102) s = Go e" by (induction n arbitrary: s) (auto simp: force_option_def)
    then show ?case using Cons n by auto
  qed simp
  obtain f fs where f: "flags = f # fs" using assms(1) by (cases flags) auto
  from o [OF assms(2), of H_INTERACTIVE] f show ?thesis by (auto simp: do_env_set_def do_env_set_args_def simp del: options.simps)
qed

theorem setenv_force_alone_witness: "do_env_set open_cfg [setenv_text, [45, 102]] demo_cmd = None"
proof -
  have "\<forall>f\<in>set [[45, 102 :: u8]]. \<exists>n. f = 45 # replicate n 102" by (auto intro: exI [of _ 1])
  from setenv_force_alone [OF _ this] show ?thesis by simp
qed

end
