(* ===== verification/Spec2Isabelle.thy ===== *)
theory Spec2Isabelle
  imports Wg_Boot Membuff Env_Cmd
begin

text \<open>
  The boot loader of the WatchGuard Firebox T40: U-Boot 2018.09 with the vendor's boot menu, password prompt, board LEDs and GPIO
  driver.  All paths below are relative to \<^verbatim>\<open>src/u-boot-2018.09\<close>.  The configuration is that of
  \<^verbatim>\<open>configs/ls1043aqds_wg_t40_qspi_defconfig\<close>: AArch64, little endian, 64-bit \<^verbatim>\<open>unsigned long\<close>, unsigned \<^verbatim>\<open>char\<close>, environment in SPI flash.

  \<^bold>\<open>The program and its parts.\<close>
  After the start the board reads its environment, the table of the variables, from flash.  \<^verbatim>\<open>main_loop\<close> shows the boot menu and counts
  down; keys move the selection, and CTRL+C with the password leads to the shell.  Otherwise the variable \<^verbatim>\<open>bootcmd\<close> is set to the command of the
  selected system and run.  Below this are the table (\<^verbatim>\<open>lib/hashtable.c\<close>) with its text form and access rules, the storage with its checksum and
  the flash driver, the password's SHA-1, and the string, number and output routines of \<^verbatim>\<open>lib\<close>.

  \<^bold>\<open>Conventions.\<close>
  Memory is a list of bytes and a pointer a position in it; a text is the list of the bytes before its NUL.  \<^const>\<open>None\<close> is
  undefined behaviour (an access outside an object, a null pointer, an overflow of an \<^verbatim>\<open>int\<close> where it can occur) or a loop that never ends; every
  theory says which.  Errors that the code reports are values.  Machine integers are words of their width.  Code outside the modelled
  files (the allocator, the command interpreter, the SPI controller, regular expressions, callbacks) is an argument of the
  definitions that call it.

  \<^bold>\<open>The theories.\<close>
  \<^item> \<open>UBoot_Prelude\<close>: integer types, byte memory with explicit faults, segments of lists and the lemmas on them.
  \<^item> \<open>C_Ctype\<close>, \<open>C_String\<close>, \<open>C_Strto\<close>: \<^verbatim>\<open>lib/ctype.c\<close>, \<^verbatim>\<open>lib/string.c\<close>, \<^verbatim>\<open>lib/strto.c\<close>.  Every function is defined; the
  theorems cover copying, filling and searching memory (\<^verbatim>\<open>memcpy\<close>, \<^verbatim>\<open>memset\<close>, \<^verbatim>\<open>memmove\<close>, \<^verbatim>\<open>memchr_inv\<close>), \<^verbatim>\<open>strlcpy\<close>, \<^verbatim>\<open>strstr\<close>, and that decimal text is read
  as its number.
  \<^item> \<open>Charset\<close>: \<^verbatim>\<open>lib/charset.c\<close>.  Both conversions are the encodings of Unicode on well formed text; what they do on other text.
  \<^item> \<open>Vsprintf\<close>: \<^verbatim>\<open>lib/vsprintf.c\<close>, \<^verbatim>\<open>uuid_bin_to_str\<close>, \<^verbatim>\<open>include/hexdump.h\<close>.  The decimal conversion by multiplications, the layout of a
  number in its field, the exact bytes \<^verbatim>\<open>vsnprintf\<close> and \<^verbatim>\<open>sprintf\<close> store, and that \<^verbatim>\<open>simple_strtoul\<close> reads printed numbers back.
  \<^item> \<open>Membuff\<close>: \<^verbatim>\<open>lib/membuff.c\<close>, a refinement of a bounded queue (locale \<open>byte_queue\<close>).
  \<^item> \<open>Sha1\<close>: \<^verbatim>\<open>lib/sha1.c\<close>, equal to FIPS 180 although it computes in 64-bit variables.
  \<^item> \<open>Crc\<close>: \<^verbatim>\<open>lib/crc32.c\<close>, \<^verbatim>\<open>crc32c.c\<close>, \<^verbatim>\<open>crc16.c\<close>, \<^verbatim>\<open>crc8.c\<close>, \<^verbatim>\<open>crc7.c\<close>.  The tables and loops compute the bitwise definition (locales
  \<open>byte_checksum\<close>, \<open>bit_register\<close>), and CRC-32 detects every burst within four bytes.
  \<^item> \<open>Board_Gpio\<close>, \<open>Board_Led\<close>: \<^verbatim>\<open>gpio.c\<close>, \<^verbatim>\<open>sn74lv164a.c\<close>, \<^verbatim>\<open>led.c\<close> of \<^verbatim>\<open>board/freescale/ls1043aqds_t40\<close>.  The \<^verbatim>\<open>led\<close> command lights
  exactly the LEDs it names on every chip that keeps the locale \<open>shift_register\<close>.
  \<^item> \<open>Wg_Menu\<close>: \<^verbatim>\<open>common/wgmenu.c\<close>.  The selected row, and no other, is highlighted on the terminal; the array of options overflows
  when the menu is shown more than five times.
  \<^item> \<open>Wg_Boot\<close>: \<^verbatim>\<open>common/main.c\<close>, \<^verbatim>\<open>common/autoboot.c\<close> and what they call of \<^verbatim>\<open>common/cli.c\<close>.  The shell is reached only with the password
  when the boot commands do not return, the countdown ends, and \<^verbatim>\<open>bootcmd\<close> is the selected system; the code however runs the freed old value.
  Values of variables are blocks of a heap here, because a pointer to one outlives it; this is the view of the callers of the table below.
  \<^item> \<open>Hashtable\<close>: \<^verbatim>\<open>lib/hashtable.c\<close>.  Search, insertion and deletion implement a partial map (locale \<open>var_store\<close>).
  \<^item> \<open>Qsort\<close>, \<open>Hash_Export\<close>: \<^verbatim>\<open>lib/qsort.c\<close>, and \<^verbatim>\<open>hexport_r\<close> and \<^verbatim>\<open>himport_r\<close>.  The sort is correct for every order (locale
  \<open>comparison\<close>); the export lists the variables in order, and the import of an export restores the table.
  \<^item> \<open>Env_Flags\<close>: \<^verbatim>\<open>env/flags.c\<close>, \<^verbatim>\<open>env/attr.c\<close>.  Typed and protected variables keep their type and value through all changes.
  \<^item> \<open>Spi_Flash\<close>: \<^verbatim>\<open>drivers/mtd/spi/sf.c\<close> and \<^verbatim>\<open>spi_flash.c\<close>.  Erasing, writing and reading back over a chip that speaks the
  command protocol (locale \<open>nor_device\<close>).
  \<^item> \<open>Env_Store\<close>: \<^verbatim>\<open>env/common.c\<close>, \<^verbatim>\<open>env/env.c\<close>, \<^verbatim>\<open>env/sf.c\<close>.  Saving and starting again restores the variables (locale \<open>flash_array\<close>);
  damage is detected; of two copies the newer correct one is taken.
  \<^item> \<open>Env_Cmd\<close>: \<^verbatim>\<open>cmd/nvedit.c\<close>.  What \<^verbatim>\<open>setenv\<close>, \<^verbatim>\<open>env_get\<close> and the functions on numbers and hardware addresses do to the table, and that
  the lookup before relocation agrees with the one after it.
  \<^item> This theory: a variable that is set and saved is read after a restart, through all of the layers above.

  \<^bold>\<open>Loops and bounds.\<close>
  Recursions are structural or have a measure; loops that may not end are partial functions with \<^const>\<open>None\<close> for not
  ending, and the theorems on them state that a result exists.  One loop has a bound on its rounds: the probing of the hash table gets as many rounds
  as the table has slots, which is enough because the size is prime and the step visits every slot before it returns to the first; the theorems on
  search and insertion state that there is a result.  The countdown consumes a list of rounds, and \<^verbatim>\<open>getc\<close> a list of keys; a run
  that would wait for more is the value \<open>Blocked\<close>, and the theorem on the end of the countdown asks only that the clock advances.
  The bounds in theorems are those of the types and sizes of the code: a SHA-1 input below \<open>2 ^ 32\<close> bytes, the
  environment's place of 8 KiB, the 16 MiB that three address bytes reach.

  \<^bold>\<open>Not modelled.\<close>
  \<^item> Parts that only touch hardware or assembler: \<^verbatim>\<open>arch\<close>, all \<^verbatim>\<open>drivers\<close> but the SPI flash commands, the DDR, Ethernet and clock set-up of
  the board, \<^verbatim>\<open>common/board_f.c\<close>, \<^verbatim>\<open>common/board_r.c\<close>.
  \<^item> Other ports and variants: the other boards (the T20, T25 and T45 directories hold variants of the T40 files), other storage drivers of
  the environment under \<^verbatim>\<open>env\<close>, the second copy in \<^verbatim>\<open>env/sf.c\<close>.
  \<^item> Parts that the configuration does not use or that are large programs of their own: the file systems, the network stack, EFI
  (\<^verbatim>\<open>lib/efi_loader\<close>), image and device tree handling, USB, the hush parser and line editor (\<^verbatim>\<open>common/cli_hush.c\<close>, \<^verbatim>\<open>common/cli_readline.c\<close>), the
  allocator (\<^verbatim>\<open>common/dlmalloc.c\<close>).
  \<^item> Vendored libraries, whose properties are their own: \<^verbatim>\<open>lib/libfdt\<close>, \<^verbatim>\<open>lib/zlib\<close>, \<^verbatim>\<open>lib/lzma\<close>, \<^verbatim>\<open>lib/bzip2\<close>, \<^verbatim>\<open>lib/slre.c\<close>, \<^verbatim>\<open>lib/libavb\<close>.
  \<^item> Host programs, build scripts, tests and generated device trees: \<^verbatim>\<open>tools\<close>, \<^verbatim>\<open>scripts\<close>, \<^verbatim>\<open>test\<close>, \<^verbatim>\<open>dts\<close>, \<^verbatim>\<open>examples\<close>.
  \<^item> In the modelled files: messages on the console other than those of the menu and of the variables printed, self tests, and the variants
  that the manifest lists with each part.
\<close>

section \<open>From the command to the next start\<close>

text \<open>The state after a variable has been changed.\<close>

definition changed_cmd :: cmd_state where
  "changed_cmd = snd (the (do_env_set open_cfg [setenv_text, [103], [55]] demo_cmd))"

lemma changed_cmd_storable: "storable open_cfg (htab_of changed_cmd)"
proof -
  have n: "plain_name [103]" by (simp add: plain_name_def)
  have "\<not> set_refused open_cfg [103] [[55]] H_INTERACTIVE demo_cmd" by (simp add: set_refused_def open_accepts)
  with do_env_set_run [OF demo_cmd_ok n, of setenv_text "[[55]]" H_INTERACTIVE]
  have s: "htab_ok (htab_of changed_cmd)" "vars_of changed_cmd = (vars_of demo_cmd)([103] \<mapsto> [55])"
    by (auto simp: changed_cmd_def do_env_set_def set_vars_def)
  have l: "length (export_bytes 0 (env_pairs open_cfg (htab_of changed_cmd))) = 12" "filled (htab_of changed_cmd) = 3" by code_simp+
  have p: "pair_ok 0 (k, d) \<and> creatable (env_hk open_cfg) k d 0" if "htab_map (htab_of changed_cmd) k = Some d" for k d
  proof -
    have "(k, d) \<in> {([103], [55]), ([98], [48]), ([108], [50])}"
      using that s(2) demo_htab_pairs [of k d] by (auto simp: vars_of_def demo_cmd_def demo_state_def split: if_splits)
    then show ?thesis
    proof (elim insertE)
      assume "(k, d) = ([103], [55])" then show ?thesis by simp code_simp
    next
      assume "(k, d) = ([98], [48])" then show ?thesis by simp code_simp
    next
      assume "(k, d) = ([108], [50])" then show ?thesis by simp code_simp
    qed simp
  qed
  have "(12 :: nat) < ENV_SIZE open_cfg" by (simp add: env_sizes demo_cfg_def open_cfg_def)
  then show ?thesis using l p s(1) by (simp add: storable_def CONFIG_ENV_MAX_ENTRIES_def)
qed

lemma do_env_set_keeps:
  assumes "do_env_set_args cfg argv flag st = Some (rc, st')"
  shows "env_st st' = (env_st st)\<lparr>env_htab := htab_of st'\<rparr>"
  using assms by (auto simp: do_env_set_args_def Let_def set_htab_def split: Option.bind_split_asm sum.split_asm list.split_asm if_split_asm)

text \<open> C5. A variable that is set and saved has its value after a restart: \<^verbatim>\<open>setenv\<close> succeeds when flags and callbacks
  accept the change; when the variables fit in the storage, \<^verbatim>\<open>saveenv\<close> then reports success; and after a restart from any
  state, \<^verbatim>\<open>env_get\<close> gives the new value of this variable and the old ones of all others.\<close>

theorem setenv_survives_restart:
  assumes "cmd_ok cfg st" "plain_cfg cfg" "plain_name name" "\<not> set_refused cfg name args H_INTERACTIVE st"
    and "env_load_prio (env_st st) = 0" "ENVL_SPI_FLASH \<in> set (env_has_init (env_st st))"
    and "length out = CONFIG_ENV_SIZE" "nor_idle c"
    and drv: "drvs = [sf_driver cfg (sf_if nor_flash nor_slave) out]"
  shows "\<exists>st1. do_env_set cfg (cmd # name # args) st = Some (0, st1)
     \<and> (storable cfg (htab_of st1) \<longrightarrow>
          (\<exists>st2 c1. do_env_save drvs (st1, c) = Some (0, st2, c1)
             \<and> (\<forall>e0. \<exists>e1 e2 c2. env_init cfg drvs (e0, c1) = Some (0, e1, c1) \<and> env_relocate cfg drvs (e1, c1) = Some (e2, c2)
                  \<and> (\<forall>st3 k. env_st st3 = e2 \<longrightarrow> env_get cfg k st3 = Some (set_vars name args (vars_of st) k, st3)))))"
proof -
  from do_env_set_run [OF assms(1,3), of cmd args H_INTERACTIVE] assms(4) obtain st1 where
    s: "do_env_set_args cfg (cmd # name # args) H_INTERACTIVE st = Some (0, st1)" "vars_of st1 = set_vars name args (vars_of st)" by auto
  have p: "env_load_prio (env_st st1) = 0" "ENVL_SPI_FLASH \<in> set (env_has_init (env_st st1))"
    using assms(5,6) by (subst do_env_set_keeps [OF s(1)], simp)+
  have "\<exists>st2 c1. do_env_save drvs (st1, c) = Some (0, st2, c1)
      \<and> (\<forall>e0. \<exists>e1 e2 c2. env_init cfg drvs (e0, c1) = Some (0, e1, c1) \<and> env_relocate cfg drvs (e1, c1) = Some (e2, c2)
           \<and> (\<forall>st3 k. env_st st3 = e2 \<longrightarrow> env_get cfg k st3 = Some (set_vars name args (vars_of st) k, st3)))"
    if st: "storable cfg (htab_of st1)"
  proof -
    from fa.save_restart [OF assms(2) st assms(7,8) p] obtain c1 where
      c1: "env_save drvs (env_st st1, c) = Some (0, (env_st st1)\<lparr>env_flash := True\<rparr>, c1)" and
      r: "\<And>e0. \<exists>e1 e2 c2. env_init cfg drvs (e0, c1) = Some (0, e1, c1) \<and> env_relocate cfg drvs (e1, c1) = Some (e2, c2)
          \<and> htab_ok (env_htab e2) \<and> htab_map (env_htab e2) = htab_map (htab_of st1) \<and> env_ready e2" unfolding drv by blast
    have "env_get cfg k st3 = Some (set_vars name args (vars_of st) k, st3)"
      if "htab_ok (htab_of st3)" "htab_map (htab_of st3) = htab_map (htab_of st1)" "env_ready (env_st st3)" for st3 k
      using env_get_ready [OF that(3,1)] that(2) s(2) by (simp add: vars_of_def)
    then have "\<exists>e1 e2 c2. env_init cfg drvs (e0, c1) = Some (0, e1, c1) \<and> env_relocate cfg drvs (e1, c1) = Some (e2, c2)
           \<and> (\<forall>st3 k. env_st st3 = e2 \<longrightarrow> env_get cfg k st3 = Some (set_vars name args (vars_of st) k, st3))" for e0
      using r [of e0] by metis
    then show ?thesis using c1 by (auto simp: do_env_save_def)
  qed
  then show ?thesis using s(1) by (auto simp: do_env_set_def)
qed

theorem setenv_survives_restart_witness:
  "\<exists>st1 st2 c1. do_env_set open_cfg [setenv_text, [103], [55]] demo_cmd = Some (0, st1)
     \<and> do_env_save [sf_driver open_cfg (sf_if nor_flash nor_slave) (replicate CONFIG_ENV_SIZE 0)] (st1, demo_chip) = Some (0, st2, c1)
     \<and> (\<exists>e1 e2 c2. env_init open_cfg [sf_driver open_cfg (sf_if nor_flash nor_slave) (replicate CONFIG_ENV_SIZE 0)] (demo_state, c1) = Some (0, e1, c1)
          \<and> env_relocate open_cfg [sf_driver open_cfg (sf_if nor_flash nor_slave) (replicate CONFIG_ENV_SIZE 0)] (e1, c1) = Some (e2, c2)
          \<and> env_get open_cfg [103] (demo_cmd\<lparr>env_st := e2\<rparr>) = Some (Some [55], demo_cmd\<lparr>env_st := e2\<rparr>))"
proof -
  have h: "plain_cfg open_cfg" "plain_name [103]" "env_load_prio (env_st demo_cmd) = 0" "ENVL_SPI_FLASH \<in> set (env_has_init (env_st demo_cmd))"
    "length (replicate CONFIG_ENV_SIZE (0 :: u8)) = CONFIG_ENV_SIZE"
    using demo_plain copies_demo by (simp_all add: plain_cfg_def open_cfg_def plain_name_def demo_cmd_def demo_state_def demo_cfg_def)
  have r: "\<not> set_refused open_cfg [103] [[55]] H_INTERACTIVE demo_cmd" by (simp add: set_refused_def open_accepts)
  from setenv_survives_restart [OF demo_cmd_ok h(1,2) r h(3-5) demo_idle refl, of setenv_text] obtain st1 where
    s: "do_env_set open_cfg [setenv_text, [103], [55]] demo_cmd = Some (0, st1)" and
    t: "storable open_cfg (htab_of st1) \<Longrightarrow> \<exists>st2 c1. do_env_save [sf_driver open_cfg (sf_if nor_flash nor_slave) (replicate CONFIG_ENV_SIZE 0)] (st1, demo_chip) = Some (0, st2, c1)
      \<and> (\<exists>e1 e2 c2. env_init open_cfg [sf_driver open_cfg (sf_if nor_flash nor_slave) (replicate CONFIG_ENV_SIZE 0)] (demo_state, c1) = Some (0, e1, c1)
          \<and> env_relocate open_cfg [sf_driver open_cfg (sf_if nor_flash nor_slave) (replicate CONFIG_ENV_SIZE 0)] (e1, c1) = Some (e2, c2)
          \<and> (\<forall>st3 k. env_st st3 = e2 \<longrightarrow> env_get open_cfg k st3 = Some (set_vars [103] [[55]] (vars_of demo_cmd) k, st3)))" by blast
  have "st1 = changed_cmd" using s by (simp add: changed_cmd_def)
  then have "storable open_cfg (htab_of st1)" using changed_cmd_storable by simp
  from t [OF this] s show ?thesis by (fastforce simp: set_vars_def)
qed

end
